(* ===== verification/Drc_Prelude.thy ===== *)
theory Drc_Prelude
  imports Main "HOL-Library.Word" "HOL-Library.Monad_Syntax"
begin

text \<open>
  Shared vocabulary of the development: the machine integers of the C code, its sentinel
  values, \<open>knl_panic\<close> as a partial computation, the \<open>uint64\<close> instance bitmaps, and the
  relational abstraction of the index-linked lists that every DRC structure is built from.

  A computation of the model has type \<open>'a option\<close>. \<open>None\<close> means that the process does not
  get past the statement: a failing \<open>knl_panic\<close> (which stores through a null pointer), a
  failing \<open>CM_ASSERT\<close>, a null or out-of-range access to a pool. An ordinary error return of
  the code is the value \<open>CT_ERROR\<close> of \<open>status_t\<close>, under \<open>Some\<close>.
\<close>

unbundle bit_operations_syntax

section \<open>Machine integers and sentinels\<close>

type_synonym uint8 = "8 word"
type_synonym uint16 = "16 word"
type_synonym uint32 = "32 word"
type_synonym uint64 = "64 word"
type_synonym date_t = int \<comment> \<open>microseconds, an \<open>int64\<close> far from its bounds\<close>

abbreviation CT_INVALID_ID8 :: uint8 where "CT_INVALID_ID8 \<equiv> 255"
abbreviation CT_INVALID_ID16 :: uint16 where "CT_INVALID_ID16 \<equiv> 65535"
abbreviation CT_INVALID_ID32 :: uint32 where "CT_INVALID_ID32 \<equiv> 4294967295"
abbreviation CT_INVALID_ID64 :: uint64 where "CT_INVALID_ID64 \<equiv> - 1"
abbreviation CT_MAX_INSTANCES :: uint8 where "CT_MAX_INSTANCES \<equiv> 64"
abbreviation DRC_MAX_PART_NUM :: uint32 where "DRC_MAX_PART_NUM \<equiv> 1024"

datatype status_t = CT_SUCCESS | CT_ERROR

named_theorems panic_simps \<open>unfolding of assertions and bitmap operations under their guard\<close>
named_theorems inv_simps \<open>frame facts used to carry invariants across updates\<close>

section \<open>Assertions\<close>

definition knl_panic :: "bool \<Rightarrow> unit option" where
  "knl_panic condition = (if condition then Some () else None)"

definition CM_ASSERT :: "bool \<Rightarrow> unit option" where
  "CM_ASSERT expr = (if expr then Some () else None)"

lemma knl_panic_bind [simp]:
  "(knl_panic c \<bind> f = Some r) \<longleftrightarrow> c \<and> f () = Some r"
  "c \<Longrightarrow> knl_panic c \<bind> f = f ()"
  "\<not> c \<Longrightarrow> knl_panic c \<bind> f = None"
  by (simp_all add: knl_panic_def)

lemma knl_panic_eq_Some [simp]: "knl_panic c = Some u \<longleftrightarrow> c"
  by (simp add: knl_panic_def)

lemma CM_ASSERT_bind [simp]:
  "(CM_ASSERT c \<bind> f = Some r) \<longleftrightarrow> c \<and> f () = Some r"
  "c \<Longrightarrow> CM_ASSERT c \<bind> f = f ()"
  "\<not> c \<Longrightarrow> CM_ASSERT c \<bind> f = None"
  by (simp_all add: CM_ASSERT_def)

lemma bind_eq_SomeE:
  assumes "m \<bind> f = Some r"
  obtains x where "m = Some x" "f x = Some r"
  using assms by (auto simp: Option.bind_eq_Some_conv)

section \<open>Instance bitmaps\<close>

text \<open>
  One bit per instance. A shift by 64 or more is undefined in C, and the debug build stops
  at the assertion: the operations are \<open>None\<close> there.
\<close>

definition drc_bitmap64_set :: "uint64 \<Rightarrow> uint8 \<Rightarrow> uint64 option" where
  "drc_bitmap64_set bitmap num =
     do { CM_ASSERT (num < CT_MAX_INSTANCES);
          Some (bitmap OR push_bit (unat num) 1) }"

definition drc_bitmap64_clear :: "uint64 \<Rightarrow> uint8 \<Rightarrow> uint64 option" where
  "drc_bitmap64_clear bitmap num =
     do { CM_ASSERT (num < CT_MAX_INSTANCES);
          Some (bitmap AND NOT (push_bit (unat num) 1)) }"

definition drc_bitmap64_exist :: "uint64 \<Rightarrow> uint8 \<Rightarrow> bool option" where
  "drc_bitmap64_exist bitmap num =
     do { CM_ASSERT (num < CT_MAX_INSTANCES);
          Some (bitmap AND push_bit (unat num) 1 \<noteq> 0) }"

text \<open>The set of instances a bitmap stands for.\<close>

definition insts :: "uint64 \<Rightarrow> uint8 set" where
  "insts bitmap = {i. i < CT_MAX_INSTANCES \<and> bit bitmap (unat i)}"

abbreviation bm_set :: "uint64 \<Rightarrow> uint8 \<Rightarrow> uint64" where
  "bm_set b i \<equiv> set_bit (unat i) b"

abbreviation bm_clear :: "uint64 \<Rightarrow> uint8 \<Rightarrow> uint64" where
  "bm_clear b i \<equiv> unset_bit (unat i) b"

lemma inst_unat_less: "i < CT_MAX_INSTANCES \<Longrightarrow> unat i < 64"
  by (simp add: word_less_nat_alt)

lemma and_push_bit_1_neq_0: "(b AND push_bit n 1 \<noteq> 0) \<longleftrightarrow> bit (b :: uint64) n"
  by (simp add: bit_iff_and_push_bit_not_eq_0)

lemma drc_bitmap64_eq_Some:
  "drc_bitmap64_set b i = Some c \<longleftrightarrow> i < CT_MAX_INSTANCES \<and> c = bm_set b i"
  "drc_bitmap64_clear b i = Some c \<longleftrightarrow> i < CT_MAX_INSTANCES \<and> c = bm_clear b i"
  "drc_bitmap64_exist b i = Some e \<longleftrightarrow> i < CT_MAX_INSTANCES \<and> e = (i \<in> insts b)"
  unfolding drc_bitmap64_set_def drc_bitmap64_clear_def drc_bitmap64_exist_def
    and_push_bit_1_neq_0 insts_def set_bit_eq_or unset_bit_eq_and_not
  by auto

lemma drc_bitmap64_simps [panic_simps]:
  "i < CT_MAX_INSTANCES \<Longrightarrow> drc_bitmap64_set b i = Some (bm_set b i)"
  "i < CT_MAX_INSTANCES \<Longrightarrow> drc_bitmap64_clear b i = Some (bm_clear b i)"
  "i < CT_MAX_INSTANCES \<Longrightarrow> drc_bitmap64_exist b i = Some (i \<in> insts b)"
  by (simp_all add: drc_bitmap64_eq_Some)

lemma insts_0 [simp]: "insts 0 = {}"
  by (simp add: insts_def)

lemma unat_eq_iff [simp]: "unat x = unat y \<longleftrightarrow> x = (y :: 'a :: len word)"
  by (auto dest: unsigned_word_eqI)

lemma insts_set [simp]:
  assumes "i < CT_MAX_INSTANCES"
  shows "insts (bm_set b i) = insert i (insts b)"
  using assms by (auto simp: insts_def bit_simps inst_unat_less)

lemma insts_clear [simp]: "insts (bm_clear b i) = insts b - {i}"
  by (auto simp: insts_def bit_simps)

lemma insts_eq_empty [simp]: "insts b = {} \<longleftrightarrow> b = 0"
proof
  assume e: "insts b = {}"
  show "b = 0"
  proof (rule bit_eqI)
    fix n
    assume "possible_bit TYPE(64 word) n"
    then have n: "n < 64" by simp
    let ?i = "word_of_nat n :: uint8"
    have u: "unat ?i = n"
      using n by (simp add: unat_of_nat)
    moreover have "?i < CT_MAX_INSTANCES"
      using n u by (simp add: word_less_nat_alt)
    ultimately show "bit b n = bit 0 n"
      using e by (auto simp: insts_def)
  qed
qed simp

lemma insts_less: "i \<in> insts b \<Longrightarrow> i < CT_MAX_INSTANCES"
  by (simp add: insts_def)

lemma inst_neq_invalid: "i < CT_MAX_INSTANCES \<Longrightarrow> i \<noteq> CT_INVALID_ID8"
  by auto

lemma two_le_one [simp]: "\<not> (2 :: uint8) \<le> 1"
  by (simp add: word_le_nat_alt)

section \<open>Index-linked lists\<close>

text \<open>
  The DRC links its items by their index in a pool. \<open>seg nx s xs e\<close>: following the links
  \<open>nx\<close> from \<open>s\<close> visits \<open>xs\<close> in this order and arrives at \<open>e\<close>.
\<close>

primrec seg :: "(uint32 \<Rightarrow> uint32) \<Rightarrow> uint32 \<Rightarrow> uint32 list \<Rightarrow> uint32 \<Rightarrow> bool" where
  "seg nx s [] e \<longleftrightarrow> s = e"
| "seg nx s (x # xs) e \<longleftrightarrow> s = x \<and> seg nx (nx x) xs e"

lemma seg_append: "seg nx s (xs @ ys) e \<longleftrightarrow> (\<exists>m. seg nx s xs m \<and> seg nx m ys e)"
  by (induction xs arbitrary: s) auto

lemma seg_cong:
  assumes "\<And>x. x \<in> set xs \<Longrightarrow> nx x = nx' x"
  shows "seg nx s xs e \<longleftrightarrow> seg nx' s xs e"
  using assms by (induction xs arbitrary: s) auto

lemma seg_hd: "seg nx s xs e \<Longrightarrow> xs \<noteq> [] \<Longrightarrow> s = hd xs"
  by (cases xs) auto

lemma seg_upd [simp]: "u \<notin> set xs \<Longrightarrow> seg (nx(u := v)) s xs e \<longleftrightarrow> seg nx s xs e"
  by (rule seg_cong) auto

lemma seg_end_unique: "seg nx s xs e \<Longrightarrow> seg nx s xs e' \<Longrightarrow> e = e'"
  by (induction xs arbitrary: s) auto

section \<open>Counters\<close>

text \<open>A \<open>uint32\<close> counter that holds the length of a list of distinct pool indices.\<close>

lemma distinct_below_length:
  assumes "distinct xs" and "\<And>x. x \<in> set xs \<Longrightarrow> x < (n :: uint32)"
  shows "length xs \<le> unat n"
proof -
  have "inj_on unat (set xs)" by (simp add: inj_on_def)
  then have "card (unat ` set xs) = length xs"
    using assms(1) by (simp add: card_image distinct_card)
  moreover have "unat ` set xs \<subseteq> {..<unat n}"
    using assms(2) by (auto simp: word_less_nat_alt)
  then have "card (unat ` set xs) \<le> unat n"
    by (metis card_lessThan card_mono finite_lessThan)
  ultimately show ?thesis by simp
qed

lemma of_nat_eq_0_iff_small:
  assumes "k < 2 ^ 32"
  shows "(of_nat k :: uint32) = 0 \<longleftrightarrow> k = 0"
proof -
  have "unat (of_nat k :: uint32) = k" using assms by (simp add: unat_of_nat)
  then show ?thesis by (metis unat_eq_zero)
qed

lemma unat_less_2_32: "unat (n :: uint32) < 2 ^ 32"
  using unsigned_less[of n, where ?'a = nat] by simp

text \<open>The members of a family of lists after one list of it grew or shrank by one element.\<close>

lemma members_Cons_upd:
  "(\<exists>b. x \<in> set ((f(k := y # f k)) b)) \<longleftrightarrow> x = y \<or> (\<exists>b. x \<in> set (f b))"
proof -
  have "x \<in> set ((f(k := y # f k)) b) \<longleftrightarrow> b = k \<and> x = y \<or> x \<in> set (f b)" for b by (cases "b = k") simp_all
  then show ?thesis by (simp only: ex_disj_distrib) simp
qed

lemma members_remove1_upd:
  assumes "distinct (f k)" "\<And>b c. x \<in> set (f b) \<Longrightarrow> x \<in> set (f c) \<Longrightarrow> b = c" "x \<in> set (f k)"
  shows "(\<exists>b. y \<in> set ((f(k := remove1 x (f k))) b)) \<longleftrightarrow> y \<noteq> x \<and> (\<exists>b. y \<in> set (f b))"
proof -
  have "y \<in> set ((f(k := remove1 x (f k))) b) \<longleftrightarrow> y \<noteq> x \<and> y \<in> set (f b)" for b
  proof (cases "b = k")
    case True
    then show ?thesis using assms(1) by (simp add: conj_commute)
  next
    case False
    have "x \<notin> set (f b)" using assms(2)[OF _ assms(3), of b] False by blast
    then have "y \<in> set (f b) \<Longrightarrow> y \<noteq> x" by blast
    then show ?thesis unfolding fun_upd_other[OF False] by blast
  qed
  then show ?thesis by (simp only: ex_simps)
qed

end
