(* ===== verification/Drc_Pool.thy ===== *)
theory Drc_Pool
  imports Drc_Prelude
begin

text \<open>
  The resource item pool of \<open>dtc_drc_util.c\<close>: a fixed array of items whose free items are
  chained through their first field. Every item type of the DRC starts with
  \<open>uint32 next\<close>, which aliases \<open>drc_res_block_header_t.next\<close>; here every item record
  extends \<open>drc_block_header\<close>, so the alias is the field \<open>nxt\<close> itself. The array is a function
  of the index, and an access at \<open>item_num\<close> or beyond is \<open>None\<close>.

  Theorems: the constructor links all items into the free list, an allocation hands out an
  item that is not in use, a free returns it, the batch operations are iterations of the
  single ones, and over every sequence of allocations and frees no item is handed out twice.
\<close>

record drc_block_header =
  nxt :: uint32

record 'r drc_res_pool =
  pool_inited :: bool
  free_list :: uint32
  item_num :: uint32
  used_num :: uint32
  item_size :: uint64
  items :: "uint32 \<Rightarrow> 'r"
  recycle_pos :: uint32

section \<open>Operations\<close>

definition DRC_GET_RES_ADDR_BY_ID :: "'r drc_res_pool \<Rightarrow> uint32 \<Rightarrow> 'r option" where
  "DRC_GET_RES_ADDR_BY_ID pool i = (if i < item_num pool then Some (items pool i) else None)"

definition drc_res_put :: "'r drc_res_pool \<Rightarrow> uint32 \<Rightarrow> 'r \<Rightarrow> 'r drc_res_pool option" where
  "drc_res_put pool i v =
     (if i < item_num pool then Some (pool\<lparr>items := (items pool)(i := v)\<rparr>) else None)"

text \<open>The linking loop of the constructor: \<open>k\<close> iterations are left, \<open>i\<close> is the current block.\<close>

fun drc_res_pool_link ::
  "nat \<Rightarrow> uint32 \<Rightarrow> ('r drc_block_header_scheme) drc_res_pool
     \<Rightarrow> ('r drc_block_header_scheme) drc_res_pool option" where
  "drc_res_pool_link 0 i pool =
     do { block \<leftarrow> DRC_GET_RES_ADDR_BY_ID pool i;
          drc_res_put pool i (block\<lparr>nxt := CT_INVALID_ID32\<rparr>) }"
| "drc_res_pool_link (Suc k) i pool =
     do { block \<leftarrow> DRC_GET_RES_ADDR_BY_ID pool i;
          pool \<leftarrow> drc_res_put pool i (block\<lparr>nxt := i + 1\<rparr>);
          drc_res_pool_link k (i + 1) pool }"

text \<open>
  \<open>malloc_ok\<close> is the result of \<open>malloc\<close>, \<open>zero\<close> the item of all zero bytes that
  \<open>memset\<close> leaves. \<open>item_num - 1\<close> wraps for an empty pool, and the loop then leaves the array.
\<close>

definition drc_res_pool_init ::
  "bool \<Rightarrow> 'r drc_block_header_scheme \<Rightarrow> ('r drc_block_header_scheme) drc_res_pool
     \<Rightarrow> uint64 \<Rightarrow> uint32 \<Rightarrow> (status_t \<times> ('r drc_block_header_scheme) drc_res_pool) option" where
  "drc_res_pool_init malloc_ok zero pool isize inum =
     (if pool_inited pool then Some (CT_ERROR, pool)
      else if isize < 4 then Some (CT_ERROR, pool)
      else if \<not> malloc_ok then Some (CT_ERROR, pool)
      else
        do { pool \<leftarrow> drc_res_pool_link (unat (inum - 1)) 0
               \<lparr>pool_inited = True, free_list = 0, item_num = inum, used_num = 0,
                item_size = isize, items = (\<lambda>_. zero), recycle_pos = 0\<rparr>;
             Some (CT_SUCCESS, pool) })"

definition drc_res_pool_destroy :: "'r drc_res_pool \<Rightarrow> 'r drc_res_pool" where
  "drc_res_pool_destroy pool =
     (if \<not> pool_inited pool then pool
      else pool\<lparr>free_list := 0, item_num := 0, item_size := 0, used_num := 0,
                pool_inited := False\<rparr>)"

definition drc_res_pool_alloc_item ::
  "('r drc_block_header_scheme) drc_res_pool
     \<Rightarrow> (uint32 \<times> ('r drc_block_header_scheme) drc_res_pool) option" where
  "drc_res_pool_alloc_item pool =
     (if \<not> pool_inited pool then Some (CT_INVALID_ID32, pool)
      else let i = free_list pool in
        if i = CT_INVALID_ID32 then Some (CT_INVALID_ID32, pool)
        else do { block \<leftarrow> DRC_GET_RES_ADDR_BY_ID pool (free_list pool);
                  Some (i, pool\<lparr>free_list := nxt block, used_num := used_num pool + 1\<rparr>) })"

text \<open>The loop of the batch allocation fills \<open>idx\<close> with \<open>num\<close> indices.\<close>

fun drc_res_pool_alloc_loop ::
  "nat \<Rightarrow> ('r drc_block_header_scheme) drc_res_pool
     \<Rightarrow> (uint32 list \<times> ('r drc_block_header_scheme) drc_res_pool) option" where
  "drc_res_pool_alloc_loop 0 pool = Some ([], pool)"
| "drc_res_pool_alloc_loop (Suc k) pool =
     do { block \<leftarrow> DRC_GET_RES_ADDR_BY_ID pool (free_list pool);
          (idx, pool') \<leftarrow> drc_res_pool_alloc_loop k
             (pool\<lparr>free_list := nxt block, used_num := used_num pool + 1\<rparr>);
          Some (free_list pool # idx, pool') }"

definition drc_res_pool_alloc_batch_item ::
  "('r drc_block_header_scheme) drc_res_pool \<Rightarrow> uint32
     \<Rightarrow> (status_t \<times> uint32 list \<times> ('r drc_block_header_scheme) drc_res_pool) option" where
  "drc_res_pool_alloc_batch_item pool num =
     (if \<not> pool_inited pool then Some (CT_ERROR, [], pool)
      else if num > item_num pool \<or> used_num pool + num > item_num pool
        then Some (CT_ERROR, [], pool)
      else if free_list pool = CT_INVALID_ID32 then Some (CT_ERROR, [], pool)
      else do { (idx, pool) \<leftarrow> drc_res_pool_alloc_loop (unat num) pool;
                Some (CT_SUCCESS, idx, pool) })"

definition drc_res_pool_free_item ::
  "('r drc_block_header_scheme) drc_res_pool \<Rightarrow> uint32
     \<Rightarrow> ('r drc_block_header_scheme) drc_res_pool option" where
  "drc_res_pool_free_item pool i =
     (if \<not> pool_inited pool then Some pool
      else do { block \<leftarrow> DRC_GET_RES_ADDR_BY_ID pool i;
                pool \<leftarrow> drc_res_put pool i (block\<lparr>nxt := free_list pool\<rparr>);
                Some (pool\<lparr>free_list := i, used_num := used_num pool - 1\<rparr>) })"

fun drc_res_pool_free_loop ::
  "uint32 list \<Rightarrow> ('r drc_block_header_scheme) drc_res_pool
     \<Rightarrow> ('r drc_block_header_scheme) drc_res_pool option" where
  "drc_res_pool_free_loop [] pool = Some pool"
| "drc_res_pool_free_loop (i # is) pool =
     (if i > item_num pool then Some pool
      else do { block \<leftarrow> DRC_GET_RES_ADDR_BY_ID pool i;
                pool \<leftarrow> drc_res_put pool i (block\<lparr>nxt := free_list pool\<rparr>);
                drc_res_pool_free_loop is
                  (pool\<lparr>free_list := i, used_num := used_num pool - 1\<rparr>) })"

text \<open>The array argument \<open>id\<close> with its length \<open>num\<close> is a list of that length.\<close>

definition drc_res_pool_free_batch_item ::
  "('r drc_block_header_scheme) drc_res_pool \<Rightarrow> uint32 list
     \<Rightarrow> ('r drc_block_header_scheme) drc_res_pool option" where
  "drc_res_pool_free_batch_item pool ids =
     (if \<not> pool_inited pool then Some pool
      else if of_nat (length ids) > used_num pool then Some pool
      else drc_res_pool_free_loop ids pool)"

section \<open>Invariant\<close>

text \<open>
  \<open>pool_inv pool fl\<close>: the free list visits exactly the distinct indices \<open>fl\<close> of the array,
  ends in the sentinel, and the rest of the array is counted by \<open>used_num\<close>.
\<close>

definition pool_inv :: "('r drc_block_header_scheme) drc_res_pool \<Rightarrow> uint32 list \<Rightarrow> bool" where
  "pool_inv pool fl \<longleftrightarrow>
     pool_inited pool \<and> seg (\<lambda>i. nxt (items pool i)) (free_list pool) fl CT_INVALID_ID32 \<and>
     distinct fl \<and> (\<forall>x \<in> set fl. x < item_num pool) \<and>
     unat (used_num pool) + length fl = unat (item_num pool)"

lemma below_neq_invalid: "(x :: uint32) < n \<Longrightarrow> x \<noteq> CT_INVALID_ID32"
  using unat_less_2_32[of n] by (auto simp: word_less_nat_alt)

lemma invalid_not_below [simp]: "\<not> CT_INVALID_ID32 < n"
  using below_neq_invalid[of CT_INVALID_ID32 n] by auto

lemma DRC_GET_eq_Some [simp]:
  "DRC_GET_RES_ADDR_BY_ID pool i = Some r \<longleftrightarrow> i < item_num pool \<and> r = items pool i"
  by (auto simp: DRC_GET_RES_ADDR_BY_ID_def)

lemma DRC_GET_in [simp]: "i < item_num pool \<Longrightarrow> DRC_GET_RES_ADDR_BY_ID pool i = Some (items pool i)"
  by simp

lemma drc_res_put_eq_Some [simp]:
  "drc_res_put pool i v = Some p \<longleftrightarrow>
     i < item_num pool \<and> p = pool\<lparr>items := (items pool)(i := v)\<rparr>"
  by (auto simp: drc_res_put_def)

lemma drc_res_put_in [simp]:
  "i < item_num pool \<Longrightarrow> drc_res_put pool i v = Some (pool\<lparr>items := (items pool)(i := v)\<rparr>)"
  by simp

lemma pool_inv_Nil_iff: "pool_inv pool fl \<Longrightarrow> free_list pool = CT_INVALID_ID32 \<longleftrightarrow> fl = []"
  by (cases fl) (auto simp: pool_inv_def)

lemma used_num_Suc:
  assumes "pool_inv pool (x # fl)"
  shows "unat (used_num pool + 1) = Suc (unat (used_num pool))"
proof -
  have "unat (used_num pool) + 1 \<le> unat (item_num pool)"
    using assms by (simp add: pool_inv_def)
  then have "unat (used_num pool) + 1 < 2 ^ 32"
    using unat_less_2_32[of "item_num pool"] by linarith
  then show ?thesis by (simp add: unat_word_ariths)
qed

lemma pool_inv_take:
  assumes "pool_inv pool (x # fl)"
  shows "pool_inv (pool\<lparr>free_list := nxt (items pool x), used_num := used_num pool + 1\<rparr>) fl"
  using assms used_num_Suc[OF assms] by (simp add: pool_inv_def)

lemma pool_inv_used_pos:
  assumes "pool_inv pool fl" and "i < item_num pool" and "i \<notin> set fl"
  shows "0 < unat (used_num pool)"
proof -
  have "distinct (i # fl)" and "\<And>x. x \<in> set (i # fl) \<Longrightarrow> x < item_num pool"
    using assms by (auto simp: pool_inv_def)
  then have "length (i # fl) \<le> unat (item_num pool)" by (rule distinct_below_length)
  then show ?thesis using assms(1) by (simp add: pool_inv_def)
qed

lemma unat_minus_1: "0 < unat (w :: uint32) \<Longrightarrow> unat (w - 1) = unat w - 1"
  by (metis Suc_pred' unat_minus_one unat_0 less_irrefl unat_eq_zero diff_Suc_1 One_nat_def)

lemma pool_inv_give:
  assumes "pool_inv pool fl" and "i < item_num pool" and "i \<notin> set fl"
  shows "pool_inv (pool\<lparr>items := (items pool)(i := r\<lparr>nxt := free_list pool\<rparr>),
                        free_list := i, used_num := used_num pool - 1\<rparr>) (i # fl)"
proof -
  have "seg (\<lambda>j. nxt (((items pool)(i := r\<lparr>nxt := free_list pool\<rparr>)) j)) (free_list pool) fl
          CT_INVALID_ID32"
    using assms by (subst seg_cong[of _ _ "\<lambda>j. nxt (items pool j)"]) (auto simp: pool_inv_def)
  then show ?thesis
    using assms pool_inv_used_pos[OF assms] by (simp add: pool_inv_def unat_minus_1)
qed

text \<open>The invariant only reads the links of free items.\<close>

lemma pool_inv_items_cong:
  assumes "\<And>x. x \<in> set fl \<Longrightarrow> nxt (its x) = nxt (items pool x)"
  shows "pool_inv (pool\<lparr>items := its\<rparr>) fl \<longleftrightarrow> pool_inv pool fl"
  using assms by (simp add: pool_inv_def seg_cong[of fl "\<lambda>i. nxt (its i)" "\<lambda>i. nxt (items pool i)"])

lemma pool_inv_upd_used [inv_simps]:
  "i \<notin> set fl \<Longrightarrow> pool_inv (pool\<lparr>items := (items pool)(i := r)\<rparr>) fl \<longleftrightarrow> pool_inv pool fl"
  by (rule pool_inv_items_cong) auto

lemma pool_inv_recycle_pos [simp]: "pool_inv (pool\<lparr>recycle_pos := n\<rparr>) fl \<longleftrightarrow> pool_inv pool fl"
  by (simp add: pool_inv_def)

section \<open>What the operations do to the invariant\<close>

lemma alloc_item_Cons:
  assumes "pool_inv pool (x # fl)"
  shows "drc_res_pool_alloc_item pool =
           Some (x, pool\<lparr>free_list := nxt (items pool x), used_num := used_num pool + 1\<rparr>)"
  using assms below_neq_invalid[of x "item_num pool"]
  by (simp add: drc_res_pool_alloc_item_def pool_inv_def Let_def)

lemma alloc_item_Nil:
  "pool_inv pool [] \<Longrightarrow> drc_res_pool_alloc_item pool = Some (CT_INVALID_ID32, pool)"
  by (simp add: drc_res_pool_alloc_item_def pool_inv_def)

lemma free_item_eq:
  assumes "pool_inv pool fl" and "i < item_num pool"
  shows "drc_res_pool_free_item pool i =
           Some (pool\<lparr>items := (items pool)(i := (items pool i)\<lparr>nxt := free_list pool\<rparr>),
                      free_list := i, used_num := used_num pool - 1\<rparr>)"
  using assms by (simp add: drc_res_pool_free_item_def pool_inv_def)

lemma drc_res_pool_link_spec:
  assumes "unat i + k < unat (item_num pool)"
  shows "\<exists>its. drc_res_pool_link k i pool = Some (pool\<lparr>items := its\<rparr>) \<and>
           (\<forall>j < k. nxt (its (i + of_nat j)) = i + of_nat j + 1) \<and>
           nxt (its (i + of_nat k)) = CT_INVALID_ID32 \<and>
           (\<forall>x. unat x < unat i \<longrightarrow> its x = items pool x)"
  using assms
proof (induction k arbitrary: i pool)
  case 0
  then show ?case
    by (intro exI[of _ "(items pool)(i := (items pool i)\<lparr>nxt := CT_INVALID_ID32\<rparr>)"])
      (auto simp: word_less_nat_alt fun_upd_def)
next
  case (Suc k)
  let ?p = "pool\<lparr>items := (items pool)(i := (items pool i)\<lparr>nxt := i + 1\<rparr>)\<rparr>"
  have i: "unat (i + 1) = Suc (unat i)"
    using Suc.prems unat_less_2_32[of "item_num pool"] by (simp add: unat_word_ariths)
  then have "unat (i + 1) + k < unat (item_num ?p)" using Suc.prems by simp
  from Suc.IH[OF this] obtain its where its:
    "drc_res_pool_link k (i + 1) ?p = Some (?p\<lparr>items := its\<rparr>)"
    "\<forall>j < k. nxt (its (i + 1 + of_nat j)) = i + 1 + of_nat j + 1"
    "nxt (its (i + 1 + of_nat k)) = CT_INVALID_ID32"
    "\<forall>x. unat x < unat (i + 1) \<longrightarrow> its x = items ?p x"
    by blast
  have "nxt (its (i + of_nat j)) = i + of_nat j + 1" if "j < Suc k" for j
  proof (cases j)
    case 0
    then show ?thesis using its(4) i by simp
  next
    case (Suc j')
    then show ?thesis using that its(2)[rule_format, of j'] by (simp add: add.assoc)
  qed
  moreover have "its x = items pool x" if "unat x < unat i" for x
    using its(4)[rule_format, of x] that i by auto
  moreover have "i < item_num pool" using Suc.prems by (simp add: word_less_nat_alt)
  ultimately show ?case using its(1,3) by (auto simp: add.assoc)
qed

lemma seg_upto:
  assumes "\<And>j. j < k \<Longrightarrow> nx (s + of_nat j) = s + of_nat j + 1"
    and "nx (s + of_nat k) = e"
  shows "seg nx s (map (\<lambda>j. s + of_nat j) [0..<Suc k]) e"
  using assms
proof (induction k arbitrary: s)
  case 0
  then show ?case by simp
next
  case (Suc k)
  have "seg nx (s + 1) (map (\<lambda>j. s + 1 + of_nat j) [0..<Suc k]) e"
  proof (rule Suc.IH)
    show "nx (s + 1 + of_nat j) = s + 1 + of_nat j + 1" if "j < k" for j
      using Suc.prems(1)[of "Suc j"] that by (simp add: add.assoc)
    show "nx (s + 1 + of_nat k) = e" using Suc.prems(2) by (simp add: add.assoc)
  qed
  moreover have "map (\<lambda>j. s + of_nat j) [0..<Suc (Suc k)]
                   = s # map (\<lambda>j. s + 1 + of_nat j) [0..<Suc k]"
    by (subst upt_conv_Cons) (simp_all add: map_Suc_upt[symmetric] add.assoc del: upt_Suc)
  moreover have "nx s = s + 1" using Suc.prems(1)[of 0] by simp
  ultimately show ?case by (simp del: upt_Suc)
qed

lemma pool_init_inv:
  assumes "\<not> pool_inited pool" and "4 \<le> isize" and "0 < inum"
  shows "\<exists>p. drc_res_pool_init True zero pool isize inum = Some (CT_SUCCESS, p) \<and>
             pool_inv p (map of_nat [0..<unat inum]) \<and> item_num p = inum \<and> used_num p = 0"
proof -
  let ?p0 = "\<lparr>pool_inited = True, free_list = 0, item_num = inum, used_num = 0,
              item_size = isize, items = (\<lambda>_. zero), recycle_pos = 0\<rparr>"
  have n: "0 < unat inum" using assms(3) by (simp add: word_less_nat_alt)
  let ?k = "unat inum - 1"
  from drc_res_pool_link_spec[of 0 ?k ?p0] n obtain its where its:
    "drc_res_pool_link ?k 0 ?p0 = Some (?p0\<lparr>items := its\<rparr>)"
    "\<forall>j < ?k. nxt (its (of_nat j)) = of_nat j + 1"
    "nxt (its (of_nat ?k)) = CT_INVALID_ID32"
    by auto
  have "seg (\<lambda>i. nxt (its i)) 0 (map (\<lambda>j. 0 + of_nat j) [0..<Suc ?k]) CT_INVALID_ID32"
    using its by (intro seg_upto) auto
  then have "seg (\<lambda>i. nxt (its i)) 0 (map of_nat [0..<unat inum]) CT_INVALID_ID32"
    using n by simp
  moreover have u: "unat (of_nat j :: uint32) = j" if "j < unat inum" for j
    using that unat_less_2_32[of inum] by (simp add: unat_of_nat)
  have "distinct (map (of_nat :: nat \<Rightarrow> uint32) [0..<unat inum])"
    using u by (auto simp: distinct_map inj_on_def) (metis u)
  moreover have "\<forall>x \<in> set (map (of_nat :: nat \<Rightarrow> uint32) [0..<unat inum]). x < inum"
    using u by (auto simp: word_less_nat_alt)
  ultimately have "pool_inv (?p0\<lparr>items := its\<rparr>) (map of_nat [0..<unat inum])"
    by (simp add: pool_inv_def)
  moreover have "drc_res_pool_init True zero pool isize inum
                   = Some (CT_SUCCESS, ?p0\<lparr>items := its\<rparr>)"
    using assms its(1) n by (simp add: drc_res_pool_init_def unat_minus_1)
  ultimately show ?thesis by auto
qed

section \<open>Batches\<close>

lemma alloc_loop_spec:
  assumes "pool_inv pool fl" and "k \<le> length fl"
  shows "\<exists>p. drc_res_pool_alloc_loop k pool = Some (take k fl, p) \<and> pool_inv p (drop k fl) \<and>
             item_num p = item_num pool \<and> items p = items pool"
  using assms
proof (induction k arbitrary: pool fl)
  case 0
  then show ?case by simp
next
  case (Suc k)
  then obtain x fl' where fl: "fl = x # fl'" by (cases fl) auto
  let ?p = "pool\<lparr>free_list := nxt (items pool x), used_num := used_num pool + 1\<rparr>"
  have "pool_inv ?p fl'" using Suc.prems(1) fl pool_inv_take by blast
  with Suc.IH[of ?p fl'] Suc.prems(2) fl obtain p where p:
    "drc_res_pool_alloc_loop k ?p = Some (take k fl', p)" "pool_inv p (drop k fl')"
    "item_num p = item_num pool" "items p = items pool"
    by auto
  have "free_list pool = x" and "x < item_num pool"
    using Suc.prems(1) fl by (auto simp: pool_inv_def)
  then show ?case using p fl by simp
qed

lemma free_loop_spec:
  assumes "pool_inv pool fl" and "distinct ids" and "set ids \<inter> set fl = {}"
    and "\<And>i. i \<in> set ids \<Longrightarrow> i < item_num pool"
  shows "\<exists>p. drc_res_pool_free_loop ids pool = Some p \<and> pool_inv p (rev ids @ fl) \<and>
             item_num p = item_num pool \<and> (\<forall>x. x \<notin> set ids \<longrightarrow> items p x = items pool x)"
  using assms
proof (induction ids arbitrary: pool fl)
  case Nil
  then show ?case by simp
next
  case (Cons i ids)
  let ?p = "pool\<lparr>items := (items pool)(i := (items pool i)\<lparr>nxt := free_list pool\<rparr>),
                 free_list := i, used_num := used_num pool - 1\<rparr>"
  have i: "i < item_num pool" "i \<notin> set fl" using Cons.prems by auto
  have "pool_inv ?p (i # fl)" using pool_inv_give[OF Cons.prems(1) i] by simp
  moreover have "set ids \<inter> set (i # fl) = {}" using Cons.prems(2,3) by auto
  ultimately obtain p where p: "drc_res_pool_free_loop ids ?p = Some p"
    "pool_inv p (rev ids @ i # fl)" "item_num p = item_num ?p"
    "\<forall>x. x \<notin> set ids \<longrightarrow> items p x = items ?p x"
    using Cons.IH[of ?p "i # fl"] Cons.prems(2,4) by auto
  have "\<not> i > item_num pool" using i(1) by simp
  then show ?case using p i(1) by auto
qed

lemma batch_guard:
  assumes "pool_inv pool fl" and "item_num pool < 2 ^ 31" and "num \<le> item_num pool"
  shows "used_num pool + num \<le> item_num pool \<longleftrightarrow> unat num \<le> length fl"
proof -
  have b: "unat (item_num pool) < 2 ^ 31" using assms(2) by (simp add: word_less_nat_alt)
  have u: "unat (used_num pool) + length fl = unat (item_num pool)"
    using assms(1) by (simp add: pool_inv_def)
  have "unat (used_num pool) + unat num < 2 ^ 32"
    using b u assms(3) by (simp add: word_le_nat_alt)
  then have "unat (used_num pool + num) = unat (used_num pool) + unat num"
    by (simp add: unat_word_ariths)
  then show ?thesis using u by (auto simp: word_le_nat_alt)
qed

text \<open>A small pool for the witnesses: two items, both free.\<close>

definition demo_pool :: "drc_block_header drc_res_pool" where
  "demo_pool = \<lparr>pool_inited = True, free_list = 0, item_num = 2, used_num = 0, item_size = 8,
                items = (\<lambda>i. \<lparr>nxt = (if i = 0 then 1 else CT_INVALID_ID32)\<rparr>), recycle_pos = 0\<rparr>"

lemma demo_pool_inv: "pool_inv demo_pool [0, 1]" and demo_pool_num: "item_num demo_pool = 2"
  by (simp_all add: pool_inv_def demo_pool_def)

text \<open>
  C24: A batch allocation either hands out exactly the first \<open>num\<close> items of the free list
  (pairwise distinct, in range, none of them in use) or fails and leaves the pool as it was,
  and it fails exactly when fewer than \<open>num\<close> items are free or none is. The bound keeps
  \<open>used_num + num\<close> from wrapping.
\<close>

theorem alloc_batch_all_or_nothing:
  assumes "pool_inv pool fl" and "item_num pool < 2 ^ 31"
  shows "(unat num \<le> length fl \<and> fl \<noteq> [] \<and>
           (\<exists>p. drc_res_pool_alloc_batch_item pool num = Some (CT_SUCCESS, take (unat num) fl, p) \<and>
                pool_inv p (drop (unat num) fl))) \<or>
         ((length fl < unat num \<or> fl = []) \<and>
           drc_res_pool_alloc_batch_item pool num = Some (CT_ERROR, [], pool))"
proof (cases "num \<le> item_num pool \<and> unat num \<le> length fl \<and> fl \<noteq> []")
  case True
  from alloc_loop_spec[OF assms(1), of "unat num"] True obtain p where
    "drc_res_pool_alloc_loop (unat num) pool = Some (take (unat num) fl, p)"
    "pool_inv p (drop (unat num) fl)" by auto
  then show ?thesis
    using True assms(1) batch_guard[OF assms, of num] pool_inv_Nil_iff[OF assms(1)]
    by (auto simp: drc_res_pool_alloc_batch_item_def pool_inv_def not_less)
next
  case False
  have "length fl \<le> unat (item_num pool)" using assms(1) by (simp add: pool_inv_def)
  then have "length fl < unat num \<or> fl = []" using False by (auto simp: word_le_nat_alt)
  then show ?thesis
    using False assms(1) batch_guard[OF assms, of num] pool_inv_Nil_iff[OF assms(1)]
    by (auto simp: drc_res_pool_alloc_batch_item_def pool_inv_def not_less not_le)
qed

lemma alloc_batch_all_or_nothing_witness:
  "\<exists>p. drc_res_pool_alloc_batch_item demo_pool 1 = Some (CT_SUCCESS, [0], p) \<and> pool_inv p [1]"
  using alloc_batch_all_or_nothing[OF demo_pool_inv, of 1] by (simp add: demo_pool_num)

text \<open>
  C25: Freeing in a batch what a batch allocation returned succeeds, puts every item back on
  the free list and restores the usage counter.
\<close>

theorem alloc_free_batch_roundtrip:
  assumes "pool_inv pool fl" and "item_num pool < 2 ^ 31"
    and "drc_res_pool_alloc_batch_item pool num = Some (CT_SUCCESS, idx, p)"
  shows "\<exists>q. drc_res_pool_free_batch_item p idx = Some q \<and>
             pool_inv q (rev idx @ drop (unat num) fl) \<and> set (rev idx @ drop (unat num) fl) = set fl \<and>
             used_num q = used_num pool"
proof -
  have len: "unat num \<le> length fl" "fl \<noteq> []" and p:
    "drc_res_pool_alloc_loop (unat num) pool = Some (idx, p)"
    using assms batch_guard[OF assms(1,2), of num] pool_inv_Nil_iff[OF assms(1)]
    by (auto simp: drc_res_pool_alloc_batch_item_def pool_inv_def not_less
        split: if_splits elim!: bind_eq_SomeE)
  from alloc_loop_spec[OF assms(1) len(1)] p have idx: "idx = take (unat num) fl"
    and pinv: "pool_inv p (drop (unat num) fl)" and n: "item_num p = item_num pool" by auto
  have d: "distinct fl" "\<forall>x \<in> set fl. x < item_num pool" using assms(1) by (auto simp: pool_inv_def)
  have "set idx \<inter> set (drop (unat num) fl) = {}"
    unfolding idx using d(1) by (metis set_take_disj_set_drop_if_distinct order_refl)
  moreover have "distinct idx" "\<And>i. i \<in> set idx \<Longrightarrow> i < item_num p"
    unfolding idx n using d by (auto dest: in_set_takeD)
  ultimately obtain q where q: "drc_res_pool_free_loop idx p = Some q"
    "pool_inv q (rev idx @ drop (unat num) fl)" "item_num q = item_num p"
    using free_loop_spec[OF pinv] by blast
  have u: "unat (used_num p) + length (drop (unat num) fl) = unat (item_num pool)"
    "unat (used_num pool) + length fl = unat (item_num pool)" "pool_inited p"
    using pinv assms(1) n by (auto simp: pool_inv_def)
  then have "length idx \<le> unat (used_num p)" using len(1) idx by simp
  then have "\<not> of_nat (length idx) > used_num p"
    using unat_less_2_32[of "used_num p"] by (simp add: word_less_nat_alt unat_of_nat)
  then have "drc_res_pool_free_batch_item p idx = Some q"
    using q(1) u(3) by (simp add: drc_res_pool_free_batch_item_def)
  moreover have s: "set (rev idx @ drop (unat num) fl) = set fl"
    unfolding idx by (metis set_append set_rev append_take_drop_id)
  moreover have "unat (used_num q) + length fl = unat (used_num pool) + length fl"
    using q(2,3) n u(2) len(1) unfolding idx by (simp add: pool_inv_def)
  then have "used_num q = used_num pool" by simp
  ultimately show ?thesis using q(2) by blast
qed

lemma alloc_free_batch_roundtrip_witness:
  "\<exists>p q. drc_res_pool_alloc_batch_item demo_pool 1 = Some (CT_SUCCESS, [0], p) \<and>
         drc_res_pool_free_batch_item p [0] = Some q \<and> pool_inv q [0, 1] \<and> used_num q = 0"
proof -
  have a: "drc_res_pool_alloc_batch_item demo_pool 1 =
      Some (CT_SUCCESS, [0], demo_pool\<lparr>free_list := 1, used_num := 1\<rparr>)"
    by (simp add: drc_res_pool_alloc_batch_item_def demo_pool_def)
  have n: "item_num demo_pool < 2 ^ 31" by (simp add: demo_pool_num)
  have u: "used_num demo_pool = 0" by (simp add: demo_pool_def)
  show ?thesis
    using a alloc_free_batch_roundtrip[OF demo_pool_inv n a] by (auto simp: u)
qed

text \<open>
  C26: The range check of the batch free is off by one: an index equal to \<open>item_num\<close>, one past
  the array, passes it, and the free then writes outside the pool.
\<close>

theorem free_batch_accepts_one_past_end:
  assumes "pool_inv pool fl" and "0 < used_num pool"
  shows "drc_res_pool_free_batch_item pool [item_num pool] = None"
proof -
  have "\<not> (1 :: uint32) > used_num pool"
    using assms(2) by (simp add: word_less_nat_alt)
  then show ?thesis
    using assms(1)
    by (simp add: drc_res_pool_free_batch_item_def pool_inv_def DRC_GET_RES_ADDR_BY_ID_def)
qed

lemma free_batch_accepts_one_past_end_witness:
  "drc_res_pool_free_batch_item (demo_pool\<lparr>free_list := 1, used_num := 1\<rparr>) [2] = None"
proof -
  have "pool_inv (demo_pool\<lparr>free_list := 1, used_num := 1\<rparr>) [1]"
    by (simp add: pool_inv_def demo_pool_def)
  then show ?thesis
    using free_batch_accepts_one_past_end[of "demo_pool\<lparr>free_list := 1, used_num := 1\<rparr>" "[1]"]
    by (simp add: demo_pool_num)
qed

section \<open>The interface of a pool\<close>

text \<open>
  What the clients of a pool rely on, whatever the item type: an allocation returns the head
  of the free list or the sentinel when it is empty, a free puts an item in use back.
\<close>

locale item_pool =
  fixes alloc :: "'p \<Rightarrow> (uint32 \<times> 'p) option"
    and free :: "'p \<Rightarrow> uint32 \<Rightarrow> 'p option"
    and inv :: "'p \<Rightarrow> uint32 list \<Rightarrow> bool"
    and cap :: "'p \<Rightarrow> uint32"
  assumes alloc_some:
      "inv p (x # fl) \<Longrightarrow> \<exists>q. alloc p = Some (x, q) \<and> inv q fl \<and> cap q = cap p"
    and alloc_none: "inv p [] \<Longrightarrow> alloc p = Some (CT_INVALID_ID32, p)"
    and free_some:
      "inv p fl \<Longrightarrow> i < cap p \<Longrightarrow> i \<notin> set fl \<Longrightarrow>
         \<exists>q. free p i = Some q \<and> inv q (i # fl) \<and> cap q = cap p"
    and inv_distinct: "inv p fl \<Longrightarrow> distinct fl"
    and inv_below: "inv p fl \<Longrightarrow> x \<in> set fl \<Longrightarrow> x < cap p"

text \<open>
  The states of a pool and the set of items its clients hold, over every sequence of
  allocations and of frees of held items.
\<close>

inductive pool_reach ::
  "('p \<Rightarrow> (uint32 \<times> 'p) option) \<Rightarrow> ('p \<Rightarrow> uint32 \<Rightarrow> 'p option) \<Rightarrow> 'p \<Rightarrow> 'p \<Rightarrow> uint32 set \<Rightarrow> bool"
  for alloc free p0 where
  reach_start: "pool_reach alloc free p0 p0 {}"
| reach_alloc: "pool_reach alloc free p0 p H \<Longrightarrow> alloc p = Some (i, q) \<Longrightarrow> i \<noteq> CT_INVALID_ID32 \<Longrightarrow>
    pool_reach alloc free p0 q (insert i H)"
| reach_full: "pool_reach alloc free p0 p H \<Longrightarrow> alloc p = Some (CT_INVALID_ID32, q) \<Longrightarrow>
    pool_reach alloc free p0 q H"
| reach_free: "pool_reach alloc free p0 p H \<Longrightarrow> i \<in> H \<Longrightarrow> free p i = Some q \<Longrightarrow>
    pool_reach alloc free p0 q (H - {i})"

context item_pool
begin

lemma alloc_cases:
  assumes "inv p fl" and "alloc p = Some (i, q)"
  obtains (full) "fl = []" "i = CT_INVALID_ID32" "q = p"
  | (item) fl' where "fl = i # fl'" "inv q fl'" "cap q = cap p" "i < cap p"
proof (cases fl)
  case Nil
  then show ?thesis using assms alloc_none[of p] full by auto
next
  case (Cons x fl')
  then show ?thesis using assms alloc_some[of p x fl'] inv_below[of p fl] item by fastforce
qed

lemma reach_inv:
  assumes "pool_reach alloc free p0 p H"
    and "inv p0 fl0" and "set fl0 = {x. x < cap p0}"
  shows "cap p = cap p0 \<and> (\<exists>fl. inv p fl \<and> set fl = {x. x < cap p0} - H) \<and> H \<subseteq> {x. x < cap p0}"
  using assms(1)
proof (induction rule: pool_reach.induct)
  case reach_start
  then show ?case using assms(2,3) by auto
next
  case (reach_alloc p H i q)
  then obtain fl where fl: "inv p fl" "set fl = {x. x < cap p0} - H" "cap p = cap p0"
    "H \<subseteq> {x. x < cap p0}" by blast
  from fl(1) reach_alloc.hyps(2) show ?case
  proof (cases rule: alloc_cases)
    case full
    then show ?thesis using reach_alloc.hyps(3) by simp
  next
    case (item fl')
    have "set fl' = set fl - {i}" using item(1) inv_distinct[OF fl(1)] by auto
    then show ?thesis using item fl by auto
  qed
next
  case (reach_full p H q)
  then show ?case
    by (metis alloc_cases below_neq_invalid)
next
  case (reach_free p H i q)
  then obtain fl where fl: "inv p fl" "set fl = {x. x < cap p0} - H" "cap p = cap p0"
    "H \<subseteq> {x. x < cap p0}" by blast
  with reach_free.hyps(2) have "i < cap p" "i \<notin> set fl" by auto
  from free_some[OF fl(1) this] reach_free.hyps(3) have "inv q (i # fl)" "cap q = cap p" by auto
  moreover have "set (i # fl) = {x. x < cap p0} - (H - {i})"
    using fl reach_free.hyps(2) by auto
  ultimately show ?case using fl(3,4) by (metis Diff_subset dual_order.trans)
qed

lemma reach_alloc_fresh:
  assumes "pool_reach alloc free p0 p H" and "inv p0 fl0" and "set fl0 = {x. x < cap p0}"
  shows "\<exists>i q. alloc p = Some (i, q) \<and>
           (if H = {x. x < cap p0} then i = CT_INVALID_ID32 else i < cap p0 \<and> i \<notin> H)"
proof -
  from reach_inv[OF assms] obtain fl where fl: "inv p fl" "set fl = {x. x < cap p0} - H"
    "cap p = cap p0" "H \<subseteq> {x. x < cap p0}" by blast
  show ?thesis
  proof (cases fl)
    case Nil
    then show ?thesis using fl alloc_none[of p] by auto
  next
    case (Cons x fl')
    then have "x \<in> {y. y < cap p0} - H" using fl(2) by auto
    then show ?thesis using alloc_some[of p x fl'] fl(1) Cons by auto
  qed
qed

end

interpretation rp: item_pool drc_res_pool_alloc_item drc_res_pool_free_item pool_inv item_num
proof
  fix p :: "('r drc_block_header_scheme) drc_res_pool" and x fl i
  show "pool_inv p (x # fl) \<Longrightarrow>
      \<exists>q. drc_res_pool_alloc_item p = Some (x, q) \<and> pool_inv q fl \<and> item_num q = item_num p"
    using alloc_item_Cons pool_inv_take by fastforce
  show "pool_inv p [] \<Longrightarrow> drc_res_pool_alloc_item p = Some (CT_INVALID_ID32, p)"
    by (rule alloc_item_Nil)
  show "\<exists>q. drc_res_pool_free_item p i = Some q \<and> pool_inv q (i # fl) \<and> item_num q = item_num p"
    if "pool_inv p fl" "i < item_num p" "i \<notin> set fl"
    using free_item_eq[OF that(1,2)] pool_inv_give[OF that] by simp
qed (auto simp: pool_inv_def)

text \<open>
  C23: From a freshly initialised pool, over every sequence of allocations and frees of held
  items, an allocation terminates without leaving the array and returns an item nobody
  holds; it returns the sentinel exactly when all \<open>item_num\<close> items are held.
\<close>

theorem pool_never_double_allocates:
  assumes "drc_res_pool_init True zero pool isize inum = Some (CT_SUCCESS, p0)"
    and "0 < inum"
    and "pool_reach drc_res_pool_alloc_item drc_res_pool_free_item p0 p H"
  shows "\<exists>i q. drc_res_pool_alloc_item p = Some (i, q) \<and>
           (if H = {x. x < inum} then i = CT_INVALID_ID32 else i < inum \<and> i \<notin> H)"
proof -
  have "\<not> pool_inited pool" "4 \<le> isize"
    using assms(1) by (auto simp: drc_res_pool_init_def not_less split: if_splits)
  from pool_init_inv[OF this assms(2), of zero] assms(1) have
    inv: "pool_inv p0 (map of_nat [0..<unat inum])" "item_num p0 = inum" by auto
  have "x \<in> of_nat ` {0..<unat inum}" if "x < inum" for x :: uint32
    using that by (intro image_eqI[of _ _ "unat x"]) (auto simp: word_less_nat_alt)
  then have "set (map of_nat [0..<unat inum]) = {x. x < item_num p0}"
    using inv by (auto simp: pool_inv_def)
  from rp.reach_alloc_fresh[OF assms(3) inv(1) this, unfolded inv(2)] show ?thesis .
qed

lemma pool_never_double_allocates_witness:
  "\<exists>p0 p q. drc_res_pool_init True \<lparr>nxt = 0\<rparr> (demo_pool\<lparr>pool_inited := False\<rparr>) 8 2
               = Some (CT_SUCCESS, p0) \<and>
     drc_res_pool_alloc_item p0 = Some (0, p) \<and> (\<exists>i. drc_res_pool_alloc_item p = Some (i, q) \<and> i \<noteq> 0)"
proof -
  have "\<not> pool_inited (demo_pool\<lparr>pool_inited := False\<rparr>)" "(4 :: uint64) \<le> 8" "(0 :: uint32) < 2"
    by simp_all
  from pool_init_inv[OF this, of "\<lparr>nxt = 0\<rparr>"] obtain p0 where
    i: "drc_res_pool_init True \<lparr>nxt = 0\<rparr> (demo_pool\<lparr>pool_inited := False\<rparr>) 8 2 = Some (CT_SUCCESS, p0)"
    and inv: "pool_inv p0 [0, 1]" by (auto simp: upt_rec)
  from rp.alloc_some[OF inv] obtain p where p: "drc_res_pool_alloc_item p0 = Some (0, p)" by blast
  then have "pool_reach drc_res_pool_alloc_item drc_res_pool_free_item p0 p {0}"
    using reach_alloc[OF reach_start, of drc_res_pool_alloc_item p0 0 p] by simp
  from pool_never_double_allocates[OF i _ this] obtain i q where
    "drc_res_pool_alloc_item p = Some (i, q)"
    "if {0} = {x. x < (2 :: uint32)} then i = CT_INVALID_ID32 else i < 2 \<and> i \<notin> {0}" by auto
  then show ?thesis using i p by (auto split: if_splits)
qed

end
