(* ===== verification/Drc_List.thy ===== *)
theory Drc_List
  imports Drc_Prelude
begin

text \<open>
  The doubly linked resource list of \<open>dtc_drc_util.c\<close>. A list head keeps the index of its
  first and last node and a count; a node keeps the indices of its neighbours and its own.
  \<open>drc_add_list_node\<close> and \<open>drc_delete_list_node\<close> are given the neighbours by pointer; the
  model passes the nodes they point to (\<open>None\<close> for a null pointer) and returns them updated.

  Theorems: over a heap of nodes, adding conses to the abstract list and deleting removes
  the node from any position, with first, last and count kept exact.
\<close>

record drc_list =
  list_first :: uint32
  list_last :: uint32
  list_count :: uint32

record drc_list_node =
  node_prev :: uint32
  node_next :: uint32
  node_idx :: uint32

definition DRC_LIST_INIT :: drc_list where
  "DRC_LIST_INIT = \<lparr>list_first = CT_INVALID_ID32, list_last = CT_INVALID_ID32, list_count = 0\<rparr>"

definition drc_add_list_node ::
  "drc_list \<Rightarrow> drc_list_node \<Rightarrow> drc_list_node option
     \<Rightarrow> (drc_list \<times> drc_list_node \<times> drc_list_node option) option" where
  "drc_add_list_node list node head =
     (if list_count list = 0
      then Some (list\<lparr>list_first := node_idx node, list_last := node_idx node,
                      list_count := list_count list + 1\<rparr>,
                 node\<lparr>node_next := CT_INVALID_ID32, node_prev := CT_INVALID_ID32\<rparr>, head)
      else case head of
        None \<Rightarrow> None
      | Some h \<Rightarrow>
          Some (list\<lparr>list_first := node_idx node, list_count := list_count list + 1\<rparr>,
                node\<lparr>node_prev := CT_INVALID_ID32, node_next := list_first list\<rparr>,
                Some (h\<lparr>node_prev := node_idx node\<rparr>)))"

definition drc_delete_list_node ::
  "drc_list \<Rightarrow> drc_list_node \<Rightarrow> drc_list_node option \<Rightarrow> drc_list_node option
     \<Rightarrow> drc_list \<times> drc_list_node option \<times> drc_list_node option" where
  "drc_delete_list_node list del_node prev_node next_node =
     (let (list, prev_node, next_node) =
        (case prev_node of
           Some p \<Rightarrow>
             (case next_node of
                Some n \<Rightarrow> (list, Some (p\<lparr>node_next := node_next del_node\<rparr>),
                                Some (n\<lparr>node_prev := node_prev del_node\<rparr>))
              | None \<Rightarrow> (list\<lparr>list_last := node_idx p\<rparr>,
                         Some (p\<lparr>node_next := CT_INVALID_ID32\<rparr>), None))
         | None \<Rightarrow>
             (case next_node of
                Some n \<Rightarrow> (list\<lparr>list_first := node_next del_node\<rparr>, None,
                           Some (n\<lparr>node_prev := CT_INVALID_ID32\<rparr>))
              | None \<Rightarrow> (list\<lparr>list_first := CT_INVALID_ID32, list_last := CT_INVALID_ID32\<rparr>,
                         None, None)))
      in (list\<lparr>list_count := list_count list - 1\<rparr>, prev_node, next_node))"

section \<open>The abstract list\<close>

text \<open>
  \<open>dseg nd p s xs q t\<close>: coming from \<open>p\<close>, the nodes from \<open>s\<close> on are \<open>xs\<close>, each naming its
  predecessor and itself; the walk ends at the last node \<open>q\<close> with the link \<open>t\<close>.
\<close>

primrec dseg ::
  "(uint32 \<Rightarrow> drc_list_node) \<Rightarrow> uint32 \<Rightarrow> uint32 \<Rightarrow> uint32 list \<Rightarrow> uint32 \<Rightarrow> uint32 \<Rightarrow> bool" where
  "dseg nd p s [] q t \<longleftrightarrow> p = q \<and> s = t"
| "dseg nd p s (x # xs) q t \<longleftrightarrow>
     s = x \<and> node_idx (nd x) = x \<and> node_prev (nd x) = p \<and> dseg nd x (node_next (nd x)) xs q t"

definition dll :: "(uint32 \<Rightarrow> drc_list_node) \<Rightarrow> drc_list \<Rightarrow> uint32 list \<Rightarrow> bool" where
  "dll nd l xs \<longleftrightarrow>
     dseg nd CT_INVALID_ID32 (list_first l) xs (list_last l) CT_INVALID_ID32 \<and>
     list_count l = of_nat (length xs) \<and> length xs < 2 ^ 32 \<and>
     distinct xs \<and> CT_INVALID_ID32 \<notin> set xs"

lemma dseg_append:
  "dseg nd p s (xs @ ys) q t \<longleftrightarrow> (\<exists>m n. dseg nd p s xs m n \<and> dseg nd m n ys q t)"
  by (induction xs arbitrary: p s) auto

lemma dseg_cong:
  assumes "\<And>x. x \<in> set xs \<Longrightarrow> nd x = nd' x"
  shows "dseg nd p s xs q t \<longleftrightarrow> dseg nd' p s xs q t"
  using assms by (induction xs arbitrary: p s) auto

lemma dseg_upd [simp]: "u \<notin> set xs \<Longrightarrow> dseg (nd(u := v)) p s xs q t \<longleftrightarrow> dseg nd p s xs q t"
  by (rule dseg_cong) auto

lemma dseg_last: "dseg nd p s xs q t \<Longrightarrow> q = (if xs = [] then p else last xs)"
  by (induction xs arbitrary: p s) auto

lemma dseg_first: "dseg nd p s xs q t \<Longrightarrow> s = (if xs = [] then t else hd xs)"
  by (cases xs) auto

lemma dseg_relink_next:
  assumes "dseg nd p s (xs @ [y]) q t" and "y \<notin> set xs"
  shows "dseg (nd(y := (nd y)\<lparr>node_next := t'\<rparr>)) p s (xs @ [y]) q t'"
  using assms by (auto simp: dseg_append)

lemma dseg_relink_prev:
  assumes "dseg nd p s (y # ys) q t" and "y \<notin> set ys"
  shows "dseg (nd(y := (nd y)\<lparr>node_prev := p'\<rparr>)) p' s (y # ys) q t"
  using assms by auto

lemma dll_cong:
  assumes "\<And>x. x \<in> set xs \<Longrightarrow> nd x = nd' x"
  shows "dll nd l xs \<longleftrightarrow> dll nd' l xs"
  using assms dseg_cong[of xs nd nd'] by (simp add: dll_def)

lemma dll_count_0: "dll nd l xs \<Longrightarrow> list_count l = 0 \<longleftrightarrow> xs = []"
  by (simp add: dll_def of_nat_eq_0_iff_small)

lemma dll_init: "dll nd DRC_LIST_INIT []"
  by (simp add: dll_def DRC_LIST_INIT_def)

lemma dll_first: "dll nd l xs \<Longrightarrow> xs \<noteq> [] \<Longrightarrow> list_first l = hd xs"
  using dseg_first by (fastforce simp: dll_def)

section \<open>Adding and deleting\<close>

text \<open>Writing back the node a call was given by pointer.\<close>

definition put_node ::
  "uint32 \<Rightarrow> drc_list_node option \<Rightarrow> (uint32 \<Rightarrow> drc_list_node) \<Rightarrow> (uint32 \<Rightarrow> drc_list_node)" where
  "put_node i n nd = (case n of None \<Rightarrow> nd | Some v \<Rightarrow> nd(i := v))"

lemma put_node_simps [simp]: "put_node i None nd = nd" "put_node i (Some v) nd = nd(i := v)"
  by (simp_all add: put_node_def)

text \<open>
  Adding a node puts it in front: with the head node of a non-empty list passed as the
  code's callers do, the call cannot fail, and the nodes then form the list with the new
  index first, the count one higher.
\<close>

lemma dll_add_node:
  assumes "dll nd l xs" and "i \<notin> set xs" and "i \<noteq> CT_INVALID_ID32" and "node_idx n = i"
    and "Suc (length xs) < 2 ^ 32"
    and "head = (if list_count l = 0 then None else Some (nd (list_first l)))"
  shows "\<exists>l' n' head'. drc_add_list_node l n head = Some (l', n', head') \<and>
           dll (put_node i (Some n') (put_node (list_first l) head' nd)) l' (i # xs)"
proof (cases xs)
  case Nil
  then show ?thesis
    using assms dll_count_0[OF assms(1)]
    by (auto simp: drc_add_list_node_def dll_def)
next
  case (Cons y ys)
  have c: "list_count l \<noteq> 0" using dll_count_0[OF assms(1)] Cons by simp
  have f: "list_first l = y" using dll_first[OF assms(1)] Cons by simp
  have d: "dseg nd CT_INVALID_ID32 y (y # ys) (list_last l) CT_INVALID_ID32" "y \<notin> set ys"
    using assms(1) Cons f by (auto simp: dll_def)
  from dseg_relink_prev[OF this, of i]
  have "dseg ((nd(y := (nd y)\<lparr>node_prev := i\<rparr>))(i := n\<lparr>node_prev := CT_INVALID_ID32, node_next := y\<rparr>))
          i y (y # ys) (list_last l) CT_INVALID_ID32"
    using assms(2) Cons by (subst dseg_upd) auto
  then show ?thesis
    using assms c f Cons by (auto simp: drc_add_list_node_def dll_def)
qed

text \<open>
  Deleting a node from any position of the list, with its neighbours passed as the
  code's callers do, leaves the list of the other nodes in their order: both neighbours,
  first, last and the count are right afterwards.
\<close>

lemma dll_delete_node:
  assumes "dll nd l (xs @ i # ys)"
    and "prev = (if node_prev (nd i) = CT_INVALID_ID32 then None else Some (nd (node_prev (nd i))))"
    and "next = (if node_next (nd i) = CT_INVALID_ID32 then None else Some (nd (node_next (nd i))))"
    and "drc_delete_list_node l (nd i) prev next = (l', prev', next')"
  shows "dll (put_node (node_next (nd i)) next' (put_node (node_prev (nd i)) prev' nd)) l' (xs @ ys)"
proof -
  have d: "dseg nd CT_INVALID_ID32 (list_first l) xs (node_prev (nd i)) i" "node_idx (nd i) = i"
    "dseg nd i (node_next (nd i)) ys (list_last l) CT_INVALID_ID32"
    and dist: "distinct (xs @ i # ys)" "CT_INVALID_ID32 \<notin> set (xs @ i # ys)"
    and len: "length (xs @ i # ys) < 2 ^ 32" "list_count l = of_nat (length (xs @ i # ys))"
    using assms(1) by (auto simp: dll_def dseg_append)
  have p: "node_prev (nd i) = (if xs = [] then CT_INVALID_ID32 else last xs)" using dseg_last[OF d(1)] .
  have n: "node_next (nd i) = (if ys = [] then CT_INVALID_ID32 else hd ys)" using dseg_first[OF d(3)] .
  consider (one) "xs = []" "ys = []" | (first) z zs where "xs = []" "ys = z # zs"
    | (last) ws w where "xs = ws @ [w]" "ys = []"
    | (middle) ws w z zs where "xs = ws @ [w]" "ys = z # zs"
    by (metis neq_Nil_conv rev_exhaust)
  then show ?thesis
  proof cases
    case one
    then show ?thesis using assms(2-4) p n len by (auto simp: drc_delete_list_node_def dll_def)
  next
    case first
    have "dseg (nd(z := (nd z)\<lparr>node_prev := CT_INVALID_ID32\<rparr>)) CT_INVALID_ID32 z (z # zs)
            (list_last l) CT_INVALID_ID32"
      using dseg_relink_prev[of nd i z z zs] d(3) dist first n by auto
    then show ?thesis
      using assms(2-4) p n len dist first
      by (auto simp: drc_delete_list_node_def dll_def)
  next
    case last
    have w: "node_idx (nd w) = w" using d(1) last by (auto simp: dseg_append)
    have "dseg (nd(w := (nd w)\<lparr>node_next := CT_INVALID_ID32\<rparr>)) CT_INVALID_ID32 (list_first l)
            (ws @ [w]) w CT_INVALID_ID32"
      using dseg_relink_next[of nd _ _ ws w] d(1) dist last p by auto
    then show ?thesis
      using assms(2-4) p n len dist last w
      by (auto simp: drc_delete_list_node_def dll_def)
  next
    case middle
    let ?nd = "(nd(w := (nd w)\<lparr>node_next := z\<rparr>))(z := (nd z)\<lparr>node_prev := w\<rparr>)"
    have "dseg (nd(w := (nd w)\<lparr>node_next := z\<rparr>)) CT_INVALID_ID32 (list_first l) (ws @ [w]) w z"
      using dseg_relink_next[of nd _ _ ws w] d(1) dist middle p by auto
    then have a: "dseg ?nd CT_INVALID_ID32 (list_first l) (ws @ [w]) w z"
      using dist middle by (subst dseg_upd) auto
    have "dseg (nd(z := (nd z)\<lparr>node_prev := w\<rparr>)) w z (z # zs) (list_last l) CT_INVALID_ID32"
      using dseg_relink_prev[of nd i z z zs] d(3) dist middle n by auto
    then have "dseg ?nd w z (z # zs) (list_last l) CT_INVALID_ID32"
      using dist middle by (subst fun_upd_twist) (auto simp del: dseg.simps)
    with a have "dseg ?nd CT_INVALID_ID32 (list_first l) ((ws @ [w]) @ z # zs) (list_last l) CT_INVALID_ID32"
      unfolding dseg_append by blast
    then show ?thesis
      using assms(2-4) p n len dist middle
      by (auto simp: drc_delete_list_node_def dll_def)
  qed
qed

end
