(* ===== verification/Drc_Map.thy ===== *)
theory Drc_Map
  imports Drc_Pool Drc_List
begin

text \<open>
  The resource hash map and the global resource of \<open>dtc_drc_util.c\<close>. A map is a pool of items
  and an array of buckets; a bucket keeps the index of its first item and a count, and its
  items are chained through \<open>nxt\<close>. A global resource adds one doubly linked list per
  partition. A bucket pointer of the code is the bucket's index, a resource pointer the
  item's index; a null result is \<open>None\<close> under \<open>Some\<close>.

  Theorems: under the invariant a lookup finds exactly the item with the key, an added item
  is found, a removed one is not, every other key is unaffected, and the partition lists
  hold exactly the items of their partition.
\<close>

record drc_res_bucket =
  bkt_count :: uint32
  bkt_first :: uint32

record ('k, 'r) drc_res_map =
  map_inited :: bool
  res_pool :: "'r drc_res_pool"
  bucket_num :: uint32
  buckets :: "uint32 \<Rightarrow> drc_res_bucket"
  res_cmp_func :: "'k \<Rightarrow> 'r \<Rightarrow> bool"

record ('k, 'r) drc_global_res =
  res_map :: "('k, 'r) drc_res_map"
  res_parts :: "uint16 \<Rightarrow> drc_list"

text \<open>What page and lock resources have in common beyond the link: own index, partition, list node.\<close>

record drc_part_res = drc_block_header +
  res_idx :: uint32
  part_id :: uint16
  node :: drc_list_node

section \<open>Hashing\<close>

abbreviation HASH_SEED :: uint32 where "HASH_SEED \<equiv> 0x811c9dc5"

definition cm_hash_uint32 :: "uint32 \<Rightarrow> uint32 \<Rightarrow> uint32" where
  "cm_hash_uint32 i32_input rng =
     (let i32 = i32_input * HASH_SEED in if rng > 0 then i32 mod rng else i32)"

text \<open>A modulus of zero traps.\<close>

definition drc_page_id_hash :: "uint16 \<Rightarrow> uint32 \<Rightarrow> uint32 \<Rightarrow> uint32 option" where
  "drc_page_id_hash file page rng =
     (if rng = 0 then None
      else Some ((HASH_SEED * ucast file + HASH_SEED * page) mod rng))"

text \<open>The BKDR hash over the bytes of an identifier; the build sets \<open>-fsigned-char\<close>.\<close>

fun drc_resource_id_hash_loop :: "uint32 \<Rightarrow> uint8 list \<Rightarrow> uint32" where
  "drc_resource_id_hash_loop hash [] = hash"
| "drc_resource_id_hash_loop hash (c # cs) = drc_resource_id_hash_loop (hash * 131 + scast c) cs"

definition drc_resource_id_hash :: "uint8 list \<Rightarrow> uint32 \<Rightarrow> uint32 option" where
  "drc_resource_id_hash bytes rng =
     (if rng = 0 then None else Some (drc_resource_id_hash_loop 0 bytes mod rng))"

definition drc_get_buf_map_bucket :: "('k, 'r) drc_res_map \<Rightarrow> uint16 \<Rightarrow> uint32 \<Rightarrow> uint32 option" where
  "drc_get_buf_map_bucket m file page = drc_page_id_hash file page (bucket_num m)"

definition drc_get_res_map_bucket :: "('k, 'r) drc_res_map \<Rightarrow> uint8 list \<Rightarrow> uint32 option" where
  "drc_get_res_map_bucket m bytes = drc_resource_id_hash bytes (bucket_num m)"

lemma drc_page_id_hash_less: "drc_page_id_hash f p r = Some b \<Longrightarrow> b < r"
  by (auto simp: drc_page_id_hash_def word_mod_less_divisor word_greater_zero_iff split: if_splits)

lemma drc_resource_id_hash_less: "drc_resource_id_hash bs r = Some b \<Longrightarrow> b < r"
  by (auto simp: drc_resource_id_hash_def word_mod_less_divisor word_greater_zero_iff split: if_splits)

lemma cm_hash_uint32_less: "0 < rng \<Longrightarrow> cm_hash_uint32 i rng < rng"
  by (simp add: cm_hash_uint32_def word_mod_less_divisor)

section \<open>Map operations\<close>

definition drc_res_map_init ::
  "bool \<Rightarrow> bool \<Rightarrow> 'r drc_block_header_scheme \<Rightarrow> ('k, 'r drc_block_header_scheme) drc_res_map
     \<Rightarrow> uint32 \<Rightarrow> uint64 \<Rightarrow> ('k \<Rightarrow> 'r drc_block_header_scheme \<Rightarrow> bool)
     \<Rightarrow> (status_t \<times> ('k, 'r drc_block_header_scheme) drc_res_map) option" where
  "drc_res_map_init malloc_buckets malloc_items zero m pool_size isize cmp =
     (if map_inited m then Some (CT_ERROR, m)
      else let m = m\<lparr>bucket_num := pool_size * 2 + 1\<rparr> in
        if \<not> malloc_buckets then Some (CT_ERROR, m)
        else
          do { let m = m\<lparr>buckets := (\<lambda>_. \<lparr>bkt_count = 0, bkt_first = 0\<rparr>)\<rparr>;
               (ret, pool) \<leftarrow> drc_res_pool_init malloc_items zero (res_pool m) isize pool_size;
               if ret \<noteq> CT_SUCCESS then Some (CT_ERROR, m\<lparr>res_pool := pool\<rparr>)
               else Some (CT_SUCCESS, m\<lparr>res_pool := pool, res_cmp_func := cmp, map_inited := True\<rparr>) })"

definition drc_res_map_destroy :: "('k, 'r) drc_res_map \<Rightarrow> ('k, 'r) drc_res_map" where
  "drc_res_map_destroy m =
     (if \<not> map_inited m then m
      else m\<lparr>res_pool := drc_res_pool_destroy (res_pool m), bucket_num := 0, map_inited := False\<rparr>)"

text \<open>The partition lists are an array of \<open>DRC_MAX_PART_NUM\<close> lists; the loop initialises every one.\<close>

definition drc_global_res_init ::
  "bool \<Rightarrow> bool \<Rightarrow> 'r drc_block_header_scheme \<Rightarrow> ('k, 'r drc_block_header_scheme) drc_global_res
     \<Rightarrow> uint32 \<Rightarrow> uint64 \<Rightarrow> ('k \<Rightarrow> 'r drc_block_header_scheme \<Rightarrow> bool)
     \<Rightarrow> (status_t \<times> ('k, 'r drc_block_header_scheme) drc_global_res) option" where
  "drc_global_res_init malloc_buckets malloc_items zero g pool_size isize cmp =
     do { let g = g\<lparr>res_parts := (\<lambda>_. DRC_LIST_INIT)\<rparr>;
          (ret, m) \<leftarrow> drc_res_map_init malloc_buckets malloc_items zero (res_map g) pool_size isize cmp;
          Some (ret, g\<lparr>res_map := m\<rparr>) }"

definition drc_global_res_destroy :: "('k, 'r) drc_global_res \<Rightarrow> ('k, 'r) drc_global_res" where
  "drc_global_res_destroy g =
     g\<lparr>res_parts := (\<lambda>_. DRC_LIST_INIT), res_map := drc_res_map_destroy (res_map g)\<rparr>"

text \<open>The two effects of \<open>drc_res_map_add\<close>: the new item's link, and the bucket.\<close>

definition drc_res_map_add :: "drc_res_bucket \<Rightarrow> uint32 \<Rightarrow> uint32 \<times> drc_res_bucket" where
  "drc_res_map_add bucket add_idx =
     ((if bkt_count bucket = 0 then CT_INVALID_ID32 else bkt_first bucket),
      bucket\<lparr>bkt_first := add_idx, bkt_count := bkt_count bucket + 1\<rparr>)"

fun drc_res_map_lookup_loop ::
  "nat \<Rightarrow> ('k, 'r drc_block_header_scheme) drc_res_map \<Rightarrow> 'k \<Rightarrow> uint32 \<Rightarrow> uint32 option option" where
  "drc_res_map_lookup_loop 0 m res_id idx = Some None"
| "drc_res_map_lookup_loop (Suc k) m res_id idx =
     do { res \<leftarrow> DRC_GET_RES_ADDR_BY_ID (res_pool m) idx;
          if res_cmp_func m res_id res then Some (Some idx)
          else drc_res_map_lookup_loop k m res_id (nxt res) }"

definition drc_res_map_lookup ::
  "('k, 'r drc_block_header_scheme) drc_res_map \<Rightarrow> uint32 \<Rightarrow> 'k \<Rightarrow> uint32 option option" where
  "drc_res_map_lookup m bucket res_id =
     (if bkt_count (buckets m bucket) = 0 then Some None
      else drc_res_map_lookup_loop (unat (bkt_count (buckets m bucket))) m res_id
             (bkt_first (buckets m bucket)))"

fun drc_res_map_remove_loop ::
  "nat \<Rightarrow> ('k, 'r drc_block_header_scheme) drc_res_map \<Rightarrow> uint32 \<Rightarrow> 'k \<Rightarrow> uint32 option \<Rightarrow> uint32
     \<Rightarrow> ('k, 'r drc_block_header_scheme) drc_res_map option" where
  "drc_res_map_remove_loop 0 m bucket res_id pre idx = Some m"
| "drc_res_map_remove_loop (Suc k) m bucket res_id pre idx =
     do { res \<leftarrow> DRC_GET_RES_ADDR_BY_ID (res_pool m) idx;
          if res_cmp_func m res_id res then
            (let bkt = buckets m bucket in
             case pre of
               None \<Rightarrow> Some (m\<lparr>buckets := (buckets m)(bucket :=
                         bkt\<lparr>bkt_first := nxt res, bkt_count := bkt_count bkt - 1\<rparr>)\<rparr>)
             | Some p \<Rightarrow>
                 do { pre_res \<leftarrow> DRC_GET_RES_ADDR_BY_ID (res_pool m) p;
                      pool \<leftarrow> drc_res_put (res_pool m) p (pre_res\<lparr>nxt := nxt res\<rparr>);
                      Some (m\<lparr>res_pool := pool, buckets := (buckets m)(bucket :=
                               bkt\<lparr>bkt_count := bkt_count bkt - 1\<rparr>)\<rparr>) })
          else drc_res_map_remove_loop k m bucket res_id (Some idx) (nxt res) }"

definition drc_res_map_remove ::
  "('k, 'r drc_block_header_scheme) drc_res_map \<Rightarrow> uint32 \<Rightarrow> 'k
     \<Rightarrow> ('k, 'r drc_block_header_scheme) drc_res_map option" where
  "drc_res_map_remove m bucket res_id =
     (if bkt_count (buckets m bucket) = 0 then Some m
      else drc_res_map_remove_loop (unat (bkt_count (buckets m bucket))) m bucket res_id None
             (bkt_first (buckets m bucket)))"

section \<open>Partition lists\<close>

text \<open>
  Linking an item into the list of its partition (\<open>drc_request_page_owner\<close>,
  \<open>drc_create_lock_res\<close>): the head's node is passed when the list is not empty.
\<close>

definition drc_part_link ::
  "('k, 'r drc_part_res_scheme) drc_global_res \<Rightarrow> uint32
     \<Rightarrow> ('k, 'r drc_part_res_scheme) drc_global_res option" where
  "drc_part_link g idx =
     do { let pool = res_pool (res_map g);
          res \<leftarrow> DRC_GET_RES_ADDR_BY_ID pool idx;
          let list = res_parts g (part_id res);
          head \<leftarrow> (if list_count list \<noteq> 0
                  then map_option Some (DRC_GET_RES_ADDR_BY_ID pool (list_first list))
                  else Some None);
          (list', n', head') \<leftarrow> drc_add_list_node list (node res) (map_option node head);
          pool \<leftarrow> (case (head, head') of
                    (Some h, Some hn) \<Rightarrow> drc_res_put pool (list_first list) (h\<lparr>node := hn\<rparr>)
                  | _ \<Rightarrow> Some pool);
          pool \<leftarrow> drc_res_put pool idx (res\<lparr>node := n'\<rparr>);
          Some (g\<lparr>res_map := (res_map g)\<lparr>res_pool := pool\<rparr>,
                  res_parts := (res_parts g)(part_id res := list')\<rparr>) }"

text \<open>Unlinking: \<open>drc_clean_page_from_res_part\<close>, and the same lines in \<open>drc_release_lock_res\<close>.\<close>

definition drc_part_unlink ::
  "('k, 'r drc_part_res_scheme) drc_global_res \<Rightarrow> uint32
     \<Rightarrow> ('k, 'r drc_part_res_scheme) drc_global_res option" where
  "drc_part_unlink g idx =
     do { let pool = res_pool (res_map g);
          res \<leftarrow> DRC_GET_RES_ADDR_BY_ID pool idx;
          let list = res_parts g (part_id res);
          prev_res \<leftarrow> (if node_prev (node res) \<noteq> CT_INVALID_ID32
                      then map_option Some (DRC_GET_RES_ADDR_BY_ID pool (node_prev (node res)))
                      else Some None);
          next_res \<leftarrow> (if node_next (node res) \<noteq> CT_INVALID_ID32
                      then map_option Some (DRC_GET_RES_ADDR_BY_ID pool (node_next (node res)))
                      else Some None);
          let (list', prev', next') =
            drc_delete_list_node list (node res) (map_option node prev_res) (map_option node next_res);
          pool \<leftarrow> (case (prev_res, prev') of
                    (Some r, Some n) \<Rightarrow> drc_res_put pool (node_prev (node res)) (r\<lparr>node := n\<rparr>)
                  | _ \<Rightarrow> Some pool);
          pool \<leftarrow> (case (next_res, next') of
                    (Some r, Some n) \<Rightarrow> drc_res_put pool (node_next (node res)) (r\<lparr>node := n\<rparr>)
                  | _ \<Rightarrow> Some pool);
          Some (g\<lparr>res_map := (res_map g)\<lparr>res_pool := pool\<rparr>,
                  res_parts := (res_parts g)(part_id res := list')\<rparr>) }"

section \<open>The invariant of a map\<close>

text \<open>
  \<open>map_inv key h m fl bl\<close>: \<open>fl\<close> is the free list of the pool and \<open>bl b\<close> the chain of bucket
  \<open>b\<close>. Chains are disjoint from the free list, an item sits in the bucket its key hashes to,
  and no two items of a bucket have the same key.
\<close>

abbreviation link :: "('k, 'r drc_block_header_scheme) drc_res_map \<Rightarrow> uint32 \<Rightarrow> uint32" where
  "link m i \<equiv> nxt (items (res_pool m) i)"

abbreviation item :: "('k, 'r) drc_res_map \<Rightarrow> uint32 \<Rightarrow> 'r" where
  "item m i \<equiv> items (res_pool m) i"

definition chain_inv ::
  "('r drc_block_header_scheme \<Rightarrow> 'k) \<Rightarrow> ('k \<Rightarrow> uint32) \<Rightarrow> ('k, 'r drc_block_header_scheme) drc_res_map
     \<Rightarrow> uint32 list \<Rightarrow> uint32 \<Rightarrow> uint32 list \<Rightarrow> bool" where
  "chain_inv key h m fl b xs \<longleftrightarrow>
     (\<exists>e. seg (link m) (bkt_first (buckets m b)) xs e) \<and>
     bkt_count (buckets m b) = of_nat (length xs) \<and> distinct xs \<and>
     (\<forall>x \<in> set xs. x < item_num (res_pool m) \<and> x \<notin> set fl \<and> h (key (item m x)) = b) \<and>
     inj_on (\<lambda>x. key (item m x)) (set xs)"

definition map_inv ::
  "('r drc_block_header_scheme \<Rightarrow> 'k) \<Rightarrow> ('k \<Rightarrow> uint32) \<Rightarrow> ('k, 'r drc_block_header_scheme) drc_res_map
     \<Rightarrow> uint32 list \<Rightarrow> (uint32 \<Rightarrow> uint32 list) \<Rightarrow> bool" where
  "map_inv key h m fl bl \<longleftrightarrow>
     pool_inv (res_pool m) fl \<and> (\<forall>k r. res_cmp_func m k r \<longleftrightarrow> key r = k) \<and>
     (\<forall>b. chain_inv key h m fl b (bl b))"

lemma map_invD:
  assumes "map_inv key h m fl bl"
  shows "pool_inv (res_pool m) fl" "res_cmp_func m k r \<longleftrightarrow> key r = k" "chain_inv key h m fl b (bl b)"
  using assms by (auto simp: map_inv_def)

lemma chain_inv_length:
  assumes "chain_inv key h m fl b xs"
  shows "length xs \<le> unat (item_num (res_pool m))"
  using assms by (intro distinct_below_length) (auto simp: chain_inv_def)

lemma chain_inv_count:
  assumes "chain_inv key h m fl b xs"
  shows "unat (bkt_count (buckets m b)) = length xs" "bkt_count (buckets m b) = 0 \<longleftrightarrow> xs = []"
proof -
  have "length xs < 2 ^ 32"
    using chain_inv_length[OF assms] unat_less_2_32[of "item_num (res_pool m)"] by linarith
  then show "unat (bkt_count (buckets m b)) = length xs" "bkt_count (buckets m b) = 0 \<longleftrightarrow> xs = []"
    using assms by (simp_all add: chain_inv_def unat_of_nat of_nat_eq_0_iff_small)
qed

lemma chain_inv_cong:
  assumes "chain_inv key h m fl b xs"
    and "item_num (res_pool m') = item_num (res_pool m)" and "buckets m' b = buckets m b"
    and "\<And>x. x \<in> set xs \<Longrightarrow> link m' x = link m x \<and> key (item m' x) = key (item m x) \<and> x \<notin> set fl'"
  shows "chain_inv key h m' fl' b xs"
proof -
  have "seg (link m') s xs e = seg (link m) s xs e" for s e
    using assms(4) by (intro seg_cong) auto
  moreover have "inj_on (\<lambda>x. key (item m' x)) (set xs) = inj_on (\<lambda>x. key (item m x)) (set xs)"
    using assms(4) by (intro inj_on_cong) auto
  ultimately show ?thesis using assms by (auto simp: chain_inv_def)
qed

lemma map_inv_chain_disjoint:
  assumes "map_inv key h m fl bl" and "x \<in> set (bl b)" and "x \<in> set (bl c)"
  shows "b = c"
  using assms(2,3) map_invD(3)[OF assms(1), of b] map_invD(3)[OF assms(1), of c]
  by (auto simp: chain_inv_def)

section \<open>Lookup\<close>

text \<open>The item a chain holds for a key.\<close>

definition locate ::
  "('r \<Rightarrow> 'k) \<Rightarrow> ('k, 'r) drc_res_map \<Rightarrow> uint32 list \<Rightarrow> 'k \<Rightarrow> uint32 option" where
  "locate key m xs k = find (\<lambda>x. key (item m x) = k) xs"

lemma lookup_loop_locate:
  assumes "\<And>k r. res_cmp_func m k r \<longleftrightarrow> key r = k"
    and "seg (link m) s xs e" and "\<forall>x \<in> set xs. x < item_num (res_pool m)"
  shows "drc_res_map_lookup_loop (length xs) m k s = Some (locate key m xs k)"
  using assms(2,3)
proof (induction xs arbitrary: s)
  case Nil
  then show ?case by (simp add: locate_def)
next
  case (Cons x xs)
  then show ?case using assms(1) by (simp add: locate_def)
qed

lemma lookup_locate:
  assumes "map_inv key h m fl bl"
  shows "drc_res_map_lookup m b k = Some (locate key m (bl b) k)"
proof -
  note ch = map_invD(3)[OF assms, of b]
  obtain e where "seg (link m) (bkt_first (buckets m b)) (bl b) e" using ch by (auto simp: chain_inv_def)
  moreover have "\<forall>x \<in> set (bl b). x < item_num (res_pool m)" using ch by (simp add: chain_inv_def)
  ultimately show ?thesis
    using lookup_loop_locate[of m key _ "bl b" e k] map_invD(2)[OF assms] chain_inv_count[OF ch]
    by (simp add: drc_res_map_lookup_def locate_def)
qed

lemma locate_Some_iff:
  assumes "inj_on (\<lambda>x. key (item m x)) (set xs)"
  shows "locate key m xs k = Some x \<longleftrightarrow> x \<in> set xs \<and> key (item m x) = k"
  using assms by (induction xs) (auto simp: locate_def)

lemma locate_None_iff: "locate key m xs k = None \<longleftrightarrow> (\<forall>x \<in> set xs. key (item m x) \<noteq> k)"
  by (auto simp: locate_def find_None_iff)

lemma lookup_Some_iff:
  assumes "map_inv key h m fl bl"
  shows "drc_res_map_lookup m b k = Some (Some x) \<longleftrightarrow> x \<in> set (bl b) \<and> key (item m x) = k"
  using map_invD(3)[OF assms, of b]
  by (simp add: lookup_locate[OF assms] chain_inv_def locate_Some_iff)

lemma lookup_None_iff:
  assumes "map_inv key h m fl bl"
  shows "drc_res_map_lookup m b k = Some None \<longleftrightarrow> (\<forall>x \<in> set (bl b). key (item m x) \<noteq> k)"
  by (simp add: lookup_locate[OF assms] locate_None_iff)

section \<open>Adding and removing\<close>

text \<open>
  The interface between the map and its item types: a key does not depend on the link.
\<close>

locale keyed_res =
  fixes key :: "'r drc_block_header_scheme \<Rightarrow> 'k"
  assumes key_nxt [simp]: "key (r\<lparr>nxt := n\<rparr>) = key r"
begin

lemma map_add_inv:
  assumes inv: "map_inv key h m fl bl"
    and i: "i < item_num (res_pool m)" "i \<notin> set fl" "\<And>b. i \<notin> set (bl b)"
    and new: "drc_res_map_lookup m (h (key r)) (key r) = Some None"
    and add: "drc_res_map_add (buckets m (h (key r))) i = (n, bkt)"
  shows "map_inv key h
           (m\<lparr>res_pool := (res_pool m)\<lparr>items := (items (res_pool m))(i := r\<lparr>nxt := n\<rparr>)\<rparr>,
              buckets := (buckets m)(h (key r) := bkt)\<rparr>) fl (bl(h (key r) := i # bl (h (key r))))"
    (is "map_inv key h ?m fl ?bl")
proof -
  let ?b = "h (key r)"
  note ch = map_invD(3)[OF inv]
  have "chain_inv key h ?m fl b (?bl b)" for b
  proof (cases "b = ?b")
    case False
    have "\<forall>x \<in> set (bl b). x \<notin> set fl" using ch[of b] by (simp add: chain_inv_def)
    then have "chain_inv key h ?m fl b (bl b)"
      using False i(3)[of b] by (intro chain_inv_cong[OF ch[of b]]) auto
    then show ?thesis using False by simp
  next
    case True
    let ?xs = "bl ?b"
    obtain e where e: "seg (link m) (bkt_first (buckets m ?b)) ?xs e" using ch[of ?b] by (auto simp: chain_inv_def)
    have "seg (link ?m) (bkt_first (buckets m ?b)) ?xs e"
      using e i(3)[of ?b] by (subst seg_cong[of _ _ "link m"]) auto
    then have "\<exists>e. seg (link ?m) n ?xs e"
      using add chain_inv_count(2)[OF ch[of ?b]] by (auto simp: drc_res_map_add_def split: if_splits)
    moreover have "\<forall>x \<in> set ?xs. key (item m x) \<noteq> key r"
      using new lookup_None_iff[OF inv] by blast
    moreover have "inj_on (\<lambda>x. key (item ?m x)) (set ?xs) = inj_on (\<lambda>x. key (item m x)) (set ?xs)"
      using i(3)[of ?b] by (intro inj_on_cong) auto
    moreover have "\<forall>x \<in> set ?xs. x \<noteq> i" using i(3)[of ?b] by auto
    ultimately show ?thesis
      using ch[of ?b] i(1,2) i(3)[of ?b] add True
      by (auto simp: chain_inv_def drc_res_map_add_def)
  qed
  moreover have "pool_inv (res_pool ?m) fl"
    using map_invD(1)[OF inv] i(2) by (simp add: inv_simps)
  ultimately show ?thesis using map_invD(2)[OF inv] by (simp add: map_inv_def)
qed

text \<open>Removal walks to the item, then bypasses it.\<close>

lemma remove_loop_eq:
  assumes cmp: "\<And>k r. res_cmp_func m k r \<longleftrightarrow> key r = k"
    and "seg (link m) s (xs @ x # ys) e" and "\<forall>y \<in> set (xs @ x # ys). y < item_num (res_pool m)"
    and "\<forall>y \<in> set xs. key (item m y) \<noteq> k" and "key (item m x) = k"
    and "length (xs @ x # ys) \<le> c"
  shows "drc_res_map_remove_loop c m b k pre s =
     (let bkt = buckets m b in
      case (if xs = [] then pre else Some (last xs)) of
        None \<Rightarrow> Some (m\<lparr>buckets := (buckets m)(b := bkt\<lparr>bkt_first := link m x, bkt_count := bkt_count bkt - 1\<rparr>)\<rparr>)
      | Some p \<Rightarrow>
          do { pre_res \<leftarrow> DRC_GET_RES_ADDR_BY_ID (res_pool m) p;
               pool \<leftarrow> drc_res_put (res_pool m) p (pre_res\<lparr>nxt := link m x\<rparr>);
               Some (m\<lparr>res_pool := pool, buckets := (buckets m)(b := bkt\<lparr>bkt_count := bkt_count bkt - 1\<rparr>)\<rparr>) })"
  using assms(2-6)
proof (induction xs arbitrary: s c pre)
  case Nil
  then obtain c' where "c = Suc c'" by (cases c) auto
  then show ?case using Nil cmp by (simp add: Let_def)
next
  case (Cons y xs)
  then obtain c' where c: "c = Suc c'" by (cases c) auto
  have "drc_res_map_remove_loop c m b k pre s = drc_res_map_remove_loop c' m b k (Some y) (link m y)"
    using Cons.prems c cmp by simp
  also have "\<dots> = (let bkt = buckets m b in
      case (if xs = [] then Some y else Some (last xs)) of
        None \<Rightarrow> Some (m\<lparr>buckets := (buckets m)(b := bkt\<lparr>bkt_first := link m x, bkt_count := bkt_count bkt - 1\<rparr>)\<rparr>)
      | Some p \<Rightarrow>
          do { pre_res \<leftarrow> DRC_GET_RES_ADDR_BY_ID (res_pool m) p;
               pool \<leftarrow> drc_res_put (res_pool m) p (pre_res\<lparr>nxt := link m x\<rparr>);
               Some (m\<lparr>res_pool := pool, buckets := (buckets m)(b := bkt\<lparr>bkt_count := bkt_count bkt - 1\<rparr>)\<rparr>) })"
    using Cons.prems c by (intro Cons.IH) auto
  finally show ?case by (simp add: Let_def)
qed

lemma map_remove_inv:
  assumes inv: "map_inv key h m fl bl"
    and look: "drc_res_map_lookup m b k = Some (Some x)"
  shows "\<exists>nx bks. drc_res_map_remove m b k =
             Some (m\<lparr>res_pool := (res_pool m)\<lparr>items := (\<lambda>i. (item m i)\<lparr>nxt := nx i\<rparr>)\<rparr>, buckets := bks\<rparr>) \<and>
           map_inv key h (m\<lparr>res_pool := (res_pool m)\<lparr>items := (\<lambda>i. (item m i)\<lparr>nxt := nx i\<rparr>)\<rparr>, buckets := bks\<rparr>)
             fl (bl(b := remove1 x (bl b)))"
proof -
  note ch = map_invD(3)[OF inv]
  have x: "x \<in> set (bl b)" "key (item m x) = k" using look lookup_Some_iff[OF inv] by auto
  then obtain xs ys where bl: "bl b = xs @ x # ys" by (auto simp: in_set_conv_decomp)
  have d: "distinct (xs @ x # ys)" and low: "\<forall>y \<in> set (xs @ x # ys). y < item_num (res_pool m) \<and> y \<notin> set fl \<and> h (key (item m y)) = b"
    and inj: "inj_on (\<lambda>x. key (item m x)) (set (xs @ x # ys))"
    and cnt: "bkt_count (buckets m b) = of_nat (length (xs @ x # ys))"
    using ch[of b] bl by (auto simp: chain_inv_def)
  have rm: "remove1 x (bl b) = xs @ ys" using d bl by (simp add: remove1_append)
  have xk: "\<forall>y \<in> set xs. key (item m y) \<noteq> k"
    using inj d x(2) by (auto simp: inj_on_def)
  obtain e q where sg: "seg (link m) (bkt_first (buckets m b)) (xs @ x # ys) e"
    and sx: "seg (link m) (bkt_first (buckets m b)) xs x" and sy: "seg (link m) (link m x) ys e"
    using ch[of b] bl by (auto simp: chain_inv_def seg_append)
  have eq: "drc_res_map_remove m b k =
     (let bkt = buckets m b in
      case (if xs = [] then None else Some (last xs)) of
        None \<Rightarrow> Some (m\<lparr>buckets := (buckets m)(b := bkt\<lparr>bkt_first := link m x, bkt_count := bkt_count bkt - 1\<rparr>)\<rparr>)
      | Some p \<Rightarrow>
          do { pre_res \<leftarrow> DRC_GET_RES_ADDR_BY_ID (res_pool m) p;
               pool \<leftarrow> drc_res_put (res_pool m) p (pre_res\<lparr>nxt := link m x\<rparr>);
               Some (m\<lparr>res_pool := pool, buckets := (buckets m)(b := bkt\<lparr>bkt_count := bkt_count bkt - 1\<rparr>)\<rparr>) })"
    using chain_inv_count[OF ch[of b]] bl low
      remove_loop_eq[OF map_invD(2)[OF inv] sg _ xk x(2) order_refl, of b None]
    unfolding drc_res_map_remove_def by (simp del: drc_res_map_remove_loop.simps)
  define nx where "nx = (if xs = [] then link m else (link m)(last xs := link m x))"
  define bks where "bks = (buckets m)(b := (buckets m b)
      \<lparr>bkt_first := if xs = [] then link m x else bkt_first (buckets m b),
       bkt_count := bkt_count (buckets m b) - 1\<rparr>)"
  let ?m = "m\<lparr>res_pool := (res_pool m)\<lparr>items := (\<lambda>i. (item m i)\<lparr>nxt := nx i\<rparr>)\<rparr>, buckets := bks\<rparr>"
  have "drc_res_map_remove m b k = Some ?m"
  proof (cases "xs = []")
    case True
    then show ?thesis unfolding eq nx_def bks_def by (simp add: Let_def)
  next
    case False
    then have "last xs < item_num (res_pool m)" using low by simp
    moreover have "(items (res_pool m))(last xs := (item m (last xs))\<lparr>nxt := link m x\<rparr>)
        = (\<lambda>i. (item m i)\<lparr>nxt := nx i\<rparr>)"
      using False by (auto simp: nx_def fun_eq_iff)
    ultimately show ?thesis using False unfolding eq bks_def by (simp add: Let_def)
  qed
  moreover have "map_inv key h ?m fl (bl(b := xs @ ys))"
  proof -
    have lk: "link ?m = nx" by (auto simp: fun_eq_iff)
    have "chain_inv key h ?m fl c ((bl(b := xs @ ys)) c)" for c
    proof (cases "c = b")
      case False
      then have "last xs \<notin> set (bl c)" if "xs \<noteq> []"
        using map_inv_chain_disjoint[OF inv, of "last xs" b c] bl that by auto
      then show ?thesis
        using False by (auto intro!: chain_inv_cong[OF ch[of c]] simp: nx_def bks_def)
          (use ch[of c] in \<open>auto simp: chain_inv_def\<close>)
    next
      case True
      have "\<exists>e. seg nx (bkt_first (bks b)) (xs @ ys) e"
      proof (cases xs rule: rev_cases)
        case Nil
        then show ?thesis using sy by (auto simp: nx_def bks_def)
      next
        case (snoc ws w)
        have "seg nx (bkt_first (buckets m b)) ws w"
          using sx snoc d by (subst seg_cong[of _ _ "link m"]) (auto simp: nx_def seg_append)
        moreover have "seg nx (link m x) ys e"
          using sy snoc d by (subst seg_cong[of _ _ "link m"]) (auto simp: nx_def)
        ultimately show ?thesis using snoc by (auto simp: nx_def bks_def seg_append)
      qed
      moreover have "inj_on (\<lambda>x. key (item ?m x)) (set (xs @ ys))"
        using inj by (auto simp: inj_on_def)
      ultimately show ?thesis
        using True d low cnt lk by (auto simp: chain_inv_def bks_def)
    qed
    moreover have "pool_inv ((res_pool m)\<lparr>items := (\<lambda>i. (item m i)\<lparr>nxt := nx i\<rparr>)\<rparr>) fl"
      using map_invD(1)[OF inv] low
      by (subst pool_inv_items_cong) (auto simp: nx_def)
    ultimately show ?thesis using map_invD(2)[OF inv] by (simp add: map_inv_def)
  qed
  ultimately show ?thesis unfolding rm by (intro exI[of _ nx] exI[of _ bks]) simp
qed

end

section \<open>Partition lists\<close>

definition parts_inv ::
  "('k, 'r drc_part_res_scheme) drc_global_res \<Rightarrow> (uint16 \<Rightarrow> uint32 list) \<Rightarrow> bool" where
  "parts_inv g pl \<longleftrightarrow>
     (\<forall>p. dll (\<lambda>i. node (item (res_map g) i)) (res_parts g p) (pl p) \<and>
          (\<forall>x \<in> set (pl p). x < item_num (res_pool (res_map g)) \<and> part_id (item (res_map g) x) = p))"

abbreviation set_items ::
  "('k, 'r) drc_global_res \<Rightarrow> (uint32 \<Rightarrow> 'r) \<Rightarrow> ('k, 'r) drc_global_res" where
  "set_items g its \<equiv> g\<lparr>res_map := (res_map g)\<lparr>res_pool := (res_pool (res_map g))\<lparr>items := its\<rparr>\<rparr>\<rparr>"

lemma parts_invD:
  assumes "parts_inv g pl"
  shows "dll (\<lambda>i. node (item (res_map g) i)) (res_parts g p) (pl p)"
    and "x \<in> set (pl p) \<Longrightarrow> x < item_num (res_pool (res_map g)) \<and> part_id (item (res_map g) x) = p"
  using assms by (auto simp: parts_inv_def)

lemma parts_inv_disjoint: "parts_inv g pl \<Longrightarrow> x \<in> set (pl p) \<Longrightarrow> x \<in> set (pl q) \<Longrightarrow> p = q"
  by (metis parts_invD(2))

text \<open>The partition lists read only the nodes and the partition of the linked items.\<close>

lemma parts_inv_cong:
  assumes "parts_inv g pl"
    and "item_num (res_pool (res_map g')) = item_num (res_pool (res_map g))"
    and "res_parts g' = res_parts g"
    and "\<And>p x. x \<in> set (pl p) \<Longrightarrow> node (item (res_map g') x) = node (item (res_map g) x) \<and>
            part_id (item (res_map g') x) = part_id (item (res_map g) x)"
  shows "parts_inv g' pl"
  unfolding parts_inv_def
proof (intro allI conjI ballI)
  fix p
  have "dll (\<lambda>i. node (item (res_map g') i)) (res_parts g' p) (pl p)
          = dll (\<lambda>i. node (item (res_map g) i)) (res_parts g p) (pl p)"
    unfolding assms(3) by (rule dll_cong) (use assms(4) in blast)
  then show "dll (\<lambda>i. node (item (res_map g') i)) (res_parts g' p) (pl p)"
    using parts_invD(1)[OF assms(1)] by simp
  fix x
  assume x: "x \<in> set (pl p)"
  then show "x < item_num (res_pool (res_map g'))" "part_id (item (res_map g') x) = p"
    using parts_invD(2)[OF assms(1) x] assms(2) assms(4)[OF x] by auto
qed

lemma part_link_inv:
  assumes inv: "parts_inv g pl" and i: "i < item_num (res_pool (res_map g))"
    and new: "\<And>p. i \<notin> set (pl p)" and idx: "node_idx (node (item (res_map g) i)) = i"
  shows "\<exists>nd ps. drc_part_link g i =
             Some (set_items g (\<lambda>j. (item (res_map g) j)\<lparr>node := nd j\<rparr>)\<lparr>res_parts := ps\<rparr>) \<and>
           parts_inv (set_items g (\<lambda>j. (item (res_map g) j)\<lparr>node := nd j\<rparr>)\<lparr>res_parts := ps\<rparr>)
             (pl(part_id (item (res_map g) i) := i # pl (part_id (item (res_map g) i))))"
proof -
  let ?nd = "\<lambda>i. node (item (res_map g) i)"
  define p where "p = part_id (item (res_map g) i)"
  define l where "l = res_parts g p"
  have d: "dll ?nd l (pl p)" using parts_invD(1)[OF inv] l_def by blast
  have "distinct (i # pl p)" using d new by (auto simp: dll_def)
  then have "length (i # pl p) \<le> unat (item_num (res_pool (res_map g)))"
    using i parts_invD(2)[OF inv] by (intro distinct_below_length) auto
  then have len: "Suc (length (pl p)) < 2 ^ 32"
    using unat_less_2_32[of "item_num (res_pool (res_map g))"] by simp
  define head where "head = (if list_count l = 0 then None else Some (?nd (list_first l)))"
  from dll_add_node[OF d new below_neq_invalid[OF i] idx len head_def]
  obtain l' n' head' where a: "drc_add_list_node l (?nd i) head = Some (l', n', head')"
    and dl: "dll (put_node i (Some n') (put_node (list_first l) head' ?nd)) l' (i # pl p)" by blast
  have h: "head = None \<longleftrightarrow> head' = None" and c: "list_count l = 0 \<longleftrightarrow> head = None"
    using a by (auto simp: head_def drc_add_list_node_def split: if_splits)
  have first: "list_first l < item_num (res_pool (res_map g)) \<and> list_first l \<in> set (pl p)"
    if "head' \<noteq> None"
  proof -
    have "pl p \<noteq> []" using that h c dll_count_0[OF d] by auto
    then have "list_first l \<in> set (pl p)" using dll_first[OF d] by simp
    then show ?thesis using parts_invD(2)[OF inv] by blast
  qed
  define nd where "nd = put_node i (Some n') (put_node (list_first l) head' ?nd)"
  define ps where "ps = (res_parts g)(p := l')"
  let ?g = "set_items g (\<lambda>j. (item (res_map g) j)\<lparr>node := nd j\<rparr>)\<lparr>res_parts := ps\<rparr>"
  have "drc_part_link g i = Some ?g"
  proof (cases head')
    case None
    then have "head = None" "list_count l = 0" using h c by auto
    moreover have "(items (res_pool (res_map g)))(i := (item (res_map g) i)\<lparr>node := n'\<rparr>)
        = (\<lambda>j. (item (res_map g) j)\<lparr>node := nd j\<rparr>)"
      by (auto simp: nd_def None fun_eq_iff)
    ultimately show ?thesis
      using a i unfolding None
      by (simp add: drc_part_link_def Let_def l_def[symmetric] p_def[symmetric] ps_def)
  next
    case (Some hn)
    then have cnt: "list_count l \<noteq> 0" using h c by simp
    then have hd: "head = Some (?nd (list_first l))" by (simp add: head_def)
    have f: "list_first l < item_num (res_pool (res_map g))" "list_first l \<in> set (pl p)"
      using first Some by auto
    then have "list_first l \<noteq> i" using new by blast
    then have "(items (res_pool (res_map g)))(list_first l := (item (res_map g) (list_first l))\<lparr>node := hn\<rparr>,
          i := (item (res_map g) i)\<lparr>node := n'\<rparr>) = (\<lambda>j. (item (res_map g) j)\<lparr>node := nd j\<rparr>)"
      by (auto simp: nd_def Some fun_eq_iff)
    then show ?thesis
      using a i f(1) cnt hd unfolding Some
      by (simp add: drc_part_link_def Let_def l_def[symmetric] p_def[symmetric] ps_def)
  qed
  moreover have "parts_inv ?g (pl(p := i # pl p))"
    unfolding parts_inv_def
  proof (intro allI conjI ballI)
    fix q
    show "dll (\<lambda>i. node (item (res_map ?g) i)) (res_parts ?g q) ((pl(p := i # pl p)) q)"
    proof (cases "q = p")
      case True
      then show ?thesis using dl[folded nd_def] by (simp add: ps_def)
    next
      case False
      have "nd x = ?nd x" if "x \<in> set (pl q)" for x
      proof -
        have "x \<noteq> i" using that new by auto
        moreover have "x \<noteq> list_first l" if "head' \<noteq> None"
          using first[OF that] \<open>x \<in> set (pl q)\<close> parts_inv_disjoint[OF inv] False by blast
        ultimately show ?thesis by (cases head') (auto simp: nd_def)
      qed
      then have "dll nd (res_parts g q) (pl q) = dll ?nd (res_parts g q) (pl q)" by (rule dll_cong)
      then show ?thesis using parts_invD(1)[OF inv, of q] False by (simp add: ps_def)
    qed
    fix x
    assume "x \<in> set ((pl(p := i # pl p)) q)"
    then show "x < item_num (res_pool (res_map ?g))" "part_id (item (res_map ?g) x) = q"
      using i parts_invD(2)[OF inv] p_def by (auto split: if_splits)
  qed
  ultimately show ?thesis unfolding p_def by blast
qed

lemma part_unlink_inv:
  assumes inv: "parts_inv g pl" and i: "i \<in> set (pl p)"
  shows "\<exists>nd ps. drc_part_unlink g i =
             Some (set_items g (\<lambda>j. (item (res_map g) j)\<lparr>node := nd j\<rparr>)\<lparr>res_parts := ps\<rparr>) \<and>
           parts_inv (set_items g (\<lambda>j. (item (res_map g) j)\<lparr>node := nd j\<rparr>)\<lparr>res_parts := ps\<rparr>)
             (pl(p := remove1 i (pl p)))"
proof -
  let ?nd = "\<lambda>i. node (item (res_map g) i)"
  let ?N = "item_num (res_pool (res_map g))"
  define l where "l = res_parts g p"
  obtain xs ys where pl: "pl p = xs @ i # ys" using i by (auto simp: in_set_conv_decomp)
  have d: "dll ?nd l (xs @ i # ys)" using parts_invD(1)[OF inv, of p] l_def pl by simp
  have ip: "i < ?N" "part_id (item (res_map g) i) = p" using parts_invD(2)[OF inv i] by auto
  have rm: "remove1 i (pl p) = xs @ ys" using d pl by (auto simp: dll_def remove1_append)
  let ?P = "node_prev (?nd i)" and ?Q = "node_next (?nd i)"
  have pq: "?P = (if xs = [] then CT_INVALID_ID32 else last xs)"
    "?Q = (if ys = [] then CT_INVALID_ID32 else hd ys)"
    using d dseg_last dseg_first unfolding dll_def dseg_append by fastforce+
  have P: "?P < ?N \<and> ?P \<in> set (pl p)" if "?P \<noteq> CT_INVALID_ID32"
  proof -
    have "?P \<in> set (pl p)" using that pq(1) pl by (auto split: if_splits)
    then show ?thesis using parts_invD(2)[OF inv] by blast
  qed
  have Q: "?Q < ?N \<and> ?Q \<in> set (pl p)" if "?Q \<noteq> CT_INVALID_ID32"
  proof -
    have "?Q \<in> set (pl p)" using that pq(2) pl by (cases ys) auto
    then show ?thesis using parts_invD(2)[OF inv] by blast
  qed
  have PQ: "?P \<noteq> ?Q" if "?P \<noteq> CT_INVALID_ID32"
  proof -
    have "?P \<in> set xs" using that pq(1) by (auto split: if_splits)
    moreover have "?Q \<in> set ys \<or> ?Q = CT_INVALID_ID32" using pq(2) by auto
    moreover have "set xs \<inter> set ys = {}" using d by (auto simp: dll_def)
    ultimately show ?thesis using that by auto
  qed
  define prev where "prev = (if ?P = CT_INVALID_ID32 then None else Some (?nd ?P))"
  define nex where "nex = (if ?Q = CT_INVALID_ID32 then None else Some (?nd ?Q))"
  obtain l' prev' nex' where del: "drc_delete_list_node l (?nd i) prev nex = (l', prev', nex')"
    by (metis prod_cases3)
  note dl = dll_delete_node[OF d prev_def nex_def del]
  have iff: "prev = None \<longleftrightarrow> prev' = None" "nex = None \<longleftrightarrow> nex' = None"
    using del by (auto simp: drc_delete_list_node_def split: option.splits)
  define nd where "nd = put_node ?Q nex' (put_node ?P prev' ?nd)"
  define ps where "ps = (res_parts g)(p := l')"
  let ?g = "set_items g (\<lambda>j. (item (res_map g) j)\<lparr>node := nd j\<rparr>)\<lparr>res_parts := ps\<rparr>"
  have "drc_part_unlink g i = Some ?g"
  proof -
    let ?it = "items (res_pool (res_map g))"
    have upd: "(case (prev', nex') of
          (None, None) \<Rightarrow> ?it
        | (Some a, None) \<Rightarrow> ?it(?P := (?it ?P)\<lparr>node := a\<rparr>)
        | (None, Some b) \<Rightarrow> ?it(?Q := (?it ?Q)\<lparr>node := b\<rparr>)
        | (Some a, Some b) \<Rightarrow> ?it(?P := (?it ?P)\<lparr>node := a\<rparr>, ?Q := (?it ?Q)\<lparr>node := b\<rparr>))
        = (\<lambda>j. (item (res_map g) j)\<lparr>node := nd j\<rparr>)"
      by (auto simp: nd_def fun_eq_iff split: option.splits)
    consider "?P = CT_INVALID_ID32" "?Q = CT_INVALID_ID32" "prev' = None" "nex' = None"
      | b where "?P = CT_INVALID_ID32" "?Q \<noteq> CT_INVALID_ID32" "prev' = None" "nex' = Some b"
      | a where "?P \<noteq> CT_INVALID_ID32" "?Q = CT_INVALID_ID32" "prev' = Some a" "nex' = None"
      | a b where "?P \<noteq> CT_INVALID_ID32" "?Q \<noteq> CT_INVALID_ID32" "prev' = Some a" "nex' = Some b"
      using iff unfolding prev_def nex_def by (cases prev'; cases nex') (auto split: if_splits)
    then show ?thesis
    proof cases
      case 1
      then show ?thesis
        using upd ip del unfolding drc_part_unlink_def prev_def nex_def
        by (simp add: Let_def ps_def l_def[symmetric])
    next
      case (2 b)
      then show ?thesis
        using upd ip del Q unfolding drc_part_unlink_def prev_def nex_def
        by (simp add: Let_def ps_def l_def[symmetric])
    next
      case (3 a)
      then show ?thesis
        using upd ip del P unfolding drc_part_unlink_def prev_def nex_def
        by (simp add: Let_def ps_def l_def[symmetric])
    next
      case (4 a b)
      then show ?thesis
        using upd ip del P Q PQ unfolding drc_part_unlink_def prev_def nex_def
        by (simp add: Let_def ps_def l_def[symmetric])
    qed
  qed
  moreover have "parts_inv ?g (pl(p := xs @ ys))"
    unfolding parts_inv_def
  proof (intro allI conjI ballI)
    fix q
    show "dll (\<lambda>i. node (item (res_map ?g) i)) (res_parts ?g q) ((pl(p := xs @ ys)) q)"
    proof (cases "q = p")
      case True
      then show ?thesis using dl[folded nd_def] by (simp add: ps_def)
    next
      case False
      have "nd x = ?nd x" if x: "x \<in> set (pl q)" for x
      proof -
        have "x \<noteq> ?P" if "prev' \<noteq> None"
          using that iff(1) P x parts_inv_disjoint[OF inv] False
          unfolding prev_def by (metis (full_types))
        moreover have "x \<noteq> ?Q" if "nex' \<noteq> None"
          using that iff(2) Q x parts_inv_disjoint[OF inv] False
          unfolding nex_def by (metis (full_types))
        ultimately show ?thesis by (cases prev'; cases nex') (auto simp: nd_def)
      qed
      then have "dll nd (res_parts g q) (pl q) = dll ?nd (res_parts g q) (pl q)" by (rule dll_cong)
      then show ?thesis using parts_invD(1)[OF inv, of q] False by (simp add: ps_def)
    qed
    fix x
    assume "x \<in> set ((pl(p := xs @ ys)) q)"
    then have "x \<in> set (pl q)" using pl by (auto split: if_splits)
    then show "x < item_num (res_pool (res_map ?g))" "part_id (item (res_map ?g) x) = q"
      using parts_invD(2)[OF inv] by auto
  qed
  ultimately show ?thesis unfolding rm by blast
qed

section \<open>The global resource\<close>

text \<open>
  Map and partition lists hold the same items, and a linked item knows its own index.
\<close>

definition gres_inv ::
  "('r drc_part_res_scheme \<Rightarrow> 'k) \<Rightarrow> ('k \<Rightarrow> uint32) \<Rightarrow> ('k, 'r drc_part_res_scheme) drc_global_res
     \<Rightarrow> uint32 list \<Rightarrow> (uint32 \<Rightarrow> uint32 list) \<Rightarrow> (uint16 \<Rightarrow> uint32 list) \<Rightarrow> bool" where
  "gres_inv key h g fl bl pl \<longleftrightarrow>
     map_inv key h (res_map g) fl bl \<and> parts_inv g pl \<and>
     (\<forall>x. (\<exists>b. x \<in> set (bl b)) \<longleftrightarrow> (\<exists>p. x \<in> set (pl p))) \<and>
     (\<forall>b. \<forall>x \<in> set (bl b). res_idx (item (res_map g) x) = x)"

lemma gres_invD:
  assumes "gres_inv key h g fl bl pl"
  shows "map_inv key h (res_map g) fl bl" "parts_inv g pl"
    "(\<exists>b. x \<in> set (bl b)) \<longleftrightarrow> (\<exists>p. x \<in> set (pl p))"
    "x \<in> set (bl b) \<Longrightarrow> res_idx (item (res_map g) x) = x"
  using assms unfolding gres_inv_def by blast+

text \<open>Attaching an initialised item to its bucket (\<open>drc_res_map_add (bucket, idx, &res->next)\<close>).\<close>

definition drc_res_attach ::
  "('k, 'r drc_part_res_scheme) drc_global_res \<Rightarrow> uint32 \<Rightarrow> uint32 \<Rightarrow> 'r drc_part_res_scheme
     \<Rightarrow> ('k, 'r drc_part_res_scheme) drc_global_res option" where
  "drc_res_attach g b idx r =
     do { let (n, bkt) = drc_res_map_add (buckets (res_map g) b) idx;
          pool \<leftarrow> drc_res_put (res_pool (res_map g)) idx (r\<lparr>nxt := n\<rparr>);
          Some (g\<lparr>res_map := (res_map g)\<lparr>res_pool := pool,
                                       buckets := (buckets (res_map g))(b := bkt)\<rparr>\<rparr>) }"

text \<open>The interface of an item type with a partition node.\<close>

locale keyed_part_res = keyed_res key for key :: "'r drc_part_res_scheme \<Rightarrow> 'k" +
  assumes key_node [simp]: "key (r\<lparr>node := n\<rparr>) = key r"
begin

lemma map_inv_node [inv_simps]:
  "map_inv key h ((m :: ('k, 'r drc_part_res_scheme) drc_res_map)
      \<lparr>res_pool := (res_pool m)\<lparr>items := (\<lambda>j. (item m j)\<lparr>node := nd j\<rparr>)\<rparr>\<rparr>) fl bl
     \<longleftrightarrow> map_inv key h m fl bl"
  by (simp add: map_inv_def chain_inv_def pool_inv_def)

lemma parts_inv_nxt [inv_simps]:
  "parts_inv ((g :: ('k, 'r drc_part_res_scheme) drc_global_res)
      \<lparr>res_map := (res_map g)\<lparr>res_pool := (res_pool (res_map g))
         \<lparr>items := (\<lambda>j. (item (res_map g) j)\<lparr>nxt := nx j\<rparr>)\<rparr>, buckets := bks\<rparr>\<rparr>) pl
     \<longleftrightarrow> parts_inv g pl"
  by (simp add: parts_inv_def)

text \<open>Attaching an item puts it in the map and leaves the partition lists alone.\<close>

lemma attach_inv:
  assumes inv: "gres_inv key h g fl bl pl"
    and i: "i < item_num (res_pool (res_map g))" "i \<notin> set fl" "\<And>b. i \<notin> set (bl b)"
    and new: "drc_res_map_lookup (res_map g) (h (key r)) (key r) = Some None"
  shows "\<exists>n bks. let g1 = g\<lparr>res_map := (res_map g)\<lparr>res_pool := (res_pool (res_map g))
      \<lparr>items := (items (res_pool (res_map g)))(i := r\<lparr>nxt := n\<rparr>)\<rparr>, buckets := bks\<rparr>\<rparr> in
    drc_res_attach g (h (key r)) i r = Some g1 \<and>
    map_inv key h (res_map g1) fl (bl(h (key r) := i # bl (h (key r)))) \<and> parts_inv g1 pl"
proof -
  obtain n bkt where add: "drc_res_map_add (buckets (res_map g) (h (key r))) i = (n, bkt)" by fastforce
  let ?bks = "(buckets (res_map g))(h (key r) := bkt)"
  let ?g1 = "g\<lparr>res_map := (res_map g)\<lparr>res_pool := (res_pool (res_map g))
      \<lparr>items := (items (res_pool (res_map g)))(i := r\<lparr>nxt := n\<rparr>)\<rparr>, buckets := ?bks\<rparr>\<rparr>"
  have "drc_res_attach g (h (key r)) i r = Some ?g1"
    using add i(1) by (simp add: drc_res_attach_def)
  moreover have "map_inv key h (res_map ?g1) fl (bl(h (key r) := i # bl (h (key r))))"
    using map_add_inv[OF gres_invD(1)[OF inv] i new add] by simp
  moreover have "parts_inv ?g1 pl"
    using gres_invD(3)[OF inv] i(3) by (intro parts_inv_cong[OF gres_invD(2)[OF inv]]) auto
  ultimately show ?thesis unfolding Let_def by blast
qed

text \<open>Attach and link together insert a new key.\<close>

lemma create_inv:
  assumes inv: "gres_inv key h g fl bl pl"
    and i: "i < item_num (res_pool (res_map g))" "i \<notin> set fl" "\<And>b. i \<notin> set (bl b)"
    and new: "drc_res_map_lookup (res_map g) (h (key r)) (key r) = Some None"
    and r: "res_idx r = i" "node_idx (node r) = i"
  shows "\<exists>g1 g2 n nd. drc_res_attach g (h (key r)) i r = Some g1 \<and> drc_part_link g1 i = Some g2 \<and>
           gres_inv key h g2 fl (bl(h (key r) := i # bl (h (key r)))) (pl(part_id r := i # pl (part_id r))) \<and>
           item (res_map g2) = (\<lambda>j. (if j = i then r\<lparr>nxt := n\<rparr> else item (res_map g) j)\<lparr>node := nd j\<rparr>) \<and>
           item_num (res_pool (res_map g2)) = item_num (res_pool (res_map g)) \<and>
           bucket_num (res_map g2) = bucket_num (res_map g)"
proof -
  let ?bl = "bl(h (key r) := i # bl (h (key r)))"
  from attach_inv[OF inv i new] obtain n bks g1 where g1: "g1 = g\<lparr>res_map := (res_map g)\<lparr>res_pool := (res_pool (res_map g))
      \<lparr>items := (items (res_pool (res_map g)))(i := r\<lparr>nxt := n\<rparr>)\<rparr>, buckets := bks\<rparr>\<rparr>"
    and a: "drc_res_attach g (h (key r)) i r = Some g1" and m1: "map_inv key h (res_map g1) fl ?bl"
    and p1: "parts_inv g1 pl" unfolding Let_def by blast
  have npl: "i \<notin> set (pl p)" for p using gres_invD(3)[OF inv] i(3) by blast
  have it: "item (res_map g1) i = r\<lparr>nxt := n\<rparr>" "item_num (res_pool (res_map g1)) = item_num (res_pool (res_map g))"
    by (simp_all add: g1)
  from part_link_inv[OF p1, of i] npl i(1) r(2) obtain nd ps where
    lk: "drc_part_link g1 i = Some (set_items g1 (\<lambda>j. (item (res_map g1) j)\<lparr>node := nd j\<rparr>)\<lparr>res_parts := ps\<rparr>)"
    and p2: "parts_inv (set_items g1 (\<lambda>j. (item (res_map g1) j)\<lparr>node := nd j\<rparr>)\<lparr>res_parts := ps\<rparr>)
               (pl(part_id r := i # pl (part_id r)))"
    by (auto simp: it)
  let ?g2 = "set_items g1 (\<lambda>j. (item (res_map g1) j)\<lparr>node := nd j\<rparr>)\<lparr>res_parts := ps\<rparr>"
  have "gres_inv key h ?g2 fl ?bl (pl(part_id r := i # pl (part_id r)))"
    unfolding gres_inv_def
  proof (intro conjI allI ballI)
    show "map_inv key h (res_map ?g2) fl ?bl" using m1 by (simp add: inv_simps)
    show "parts_inv ?g2 (pl(part_id r := i # pl (part_id r)))" by (rule p2)
    fix x
    show "(\<exists>b. x \<in> set (?bl b)) \<longleftrightarrow> (\<exists>p. x \<in> set ((pl(part_id r := i # pl (part_id r))) p))"
      unfolding members_Cons_upd using gres_invD(3)[OF inv, of x] by simp
    fix b
    assume "x \<in> set (?bl b)"
    then show "res_idx (item (res_map ?g2) x) = x"
      using gres_invD(4)[OF inv] r(1) by (auto simp: g1 split: if_splits)
  qed
  moreover have "item (res_map ?g2) = (\<lambda>j. (if j = i then r\<lparr>nxt := n\<rparr> else item (res_map g) j)\<lparr>node := nd j\<rparr>)"
    by (simp add: g1 fun_eq_iff)
  moreover have "item_num (res_pool (res_map ?g2)) = item_num (res_pool (res_map g))"
    "bucket_num (res_map ?g2) = bucket_num (res_map g)" by (simp_all add: g1)
  ultimately show ?thesis
    using a lk by (intro exI[of _ g1] exI[of _ ?g2] exI[of _ n] exI[of _ nd] conjI)
qed

text \<open>Removing from the map and unlinking, in either order, deletes the key.\<close>

lemma remove_unlink_inv:
  assumes inv: "gres_inv key h g fl bl pl"
    and look: "drc_res_map_lookup (res_map g) (h k) k = Some (Some x)"
  shows "\<exists>m g2 f p. drc_res_map_remove (res_map g) (h k) k = Some m \<and>
           drc_part_unlink (g\<lparr>res_map := m\<rparr>) x = Some g2 \<and>
           gres_inv key h g2 fl (bl(h k := remove1 x (bl (h k)))) (pl(p := remove1 x (pl p))) \<and>
           item (res_map g2) = (\<lambda>j. (item (res_map g) j)\<lparr>nxt := fst (f j), node := snd (f j)\<rparr>) \<and>
           item_num (res_pool (res_map g2)) = item_num (res_pool (res_map g)) \<and>
           bucket_num (res_map g2) = bucket_num (res_map g) \<and>
           item m = (\<lambda>j. (item (res_map g) j)\<lparr>nxt := fst (f j)\<rparr>) \<and> item_num (res_pool m) = item_num (res_pool (res_map g))"
proof -
  let ?bl = "bl(h k := remove1 x (bl (h k)))"
  have x: "x \<in> set (bl (h k))" using look lookup_Some_iff[OF gres_invD(1)[OF inv]] by blast
  then obtain p where p: "x \<in> set (pl p)" using gres_invD(3)[OF inv] by blast
  from map_remove_inv[OF gres_invD(1)[OF inv] look] obtain nx bks where
    rm: "drc_res_map_remove (res_map g) (h k) k = Some ((res_map g)\<lparr>res_pool := (res_pool (res_map g))
        \<lparr>items := (\<lambda>i. (item (res_map g) i)\<lparr>nxt := nx i\<rparr>)\<rparr>, buckets := bks\<rparr>)"
    and mi: "map_inv key h ((res_map g)\<lparr>res_pool := (res_pool (res_map g))
        \<lparr>items := (\<lambda>i. (item (res_map g) i)\<lparr>nxt := nx i\<rparr>)\<rparr>, buckets := bks\<rparr>) fl ?bl"
    by blast
  define m where "m = (res_map g)\<lparr>res_pool := (res_pool (res_map g))
        \<lparr>items := (\<lambda>i. (item (res_map g) i)\<lparr>nxt := nx i\<rparr>)\<rparr>, buckets := bks\<rparr>"
  have "parts_inv (g\<lparr>res_map := m\<rparr>) pl"
    using gres_invD(2)[OF inv] by (simp add: m_def inv_simps)
  from part_unlink_inv[OF this p] obtain nd ps where
    ul: "drc_part_unlink (g\<lparr>res_map := m\<rparr>) x = Some (set_items (g\<lparr>res_map := m\<rparr>)
        (\<lambda>j. (item m j)\<lparr>node := nd j\<rparr>)\<lparr>res_parts := ps\<rparr>)"
    and p2: "parts_inv (set_items (g\<lparr>res_map := m\<rparr>) (\<lambda>j. (item m j)\<lparr>node := nd j\<rparr>)\<lparr>res_parts := ps\<rparr>)
        (pl(p := remove1 x (pl p)))" by auto
  let ?g2 = "set_items (g\<lparr>res_map := m\<rparr>) (\<lambda>j. (item m j)\<lparr>node := nd j\<rparr>)\<lparr>res_parts := ps\<rparr>"
  have "gres_inv key h ?g2 fl ?bl (pl(p := remove1 x (pl p)))"
    unfolding gres_inv_def
  proof (intro conjI allI ballI)
    show "map_inv key h (res_map ?g2) fl ?bl" using mi by (simp add: m_def[symmetric] inv_simps)
    show "parts_inv ?g2 (pl(p := remove1 x (pl p)))" by (rule p2)
    have d: "distinct (bl (h k))" "distinct (pl p)"
      using map_invD(3)[OF gres_invD(1)[OF inv], of "h k"] parts_invD(1)[OF gres_invD(2)[OF inv], of p]
      by (auto simp: chain_inv_def dll_def)
    have dj: "\<And>b c. x \<in> set (bl b) \<Longrightarrow> x \<in> set (bl c) \<Longrightarrow> b = c"
      "\<And>b c. x \<in> set (pl b) \<Longrightarrow> x \<in> set (pl c) \<Longrightarrow> b = c"
      using map_inv_chain_disjoint[OF gres_invD(1)[OF inv]] parts_inv_disjoint[OF gres_invD(2)[OF inv]]
      by blast+
    fix y
    show "(\<exists>b. y \<in> set (?bl b)) \<longleftrightarrow> (\<exists>q. y \<in> set ((pl(p := remove1 x (pl p))) q))"
      using members_remove1_upd[of bl, OF d(1) dj(1) x] members_remove1_upd[of pl, OF d(2) dj(2) p]
        gres_invD(3)[OF inv, of y] by blast
    fix b
    assume "y \<in> set (?bl b)"
    then have "y \<in> set (bl b)" using set_remove1_subset[of x "bl (h k)"] by (auto split: if_splits)
    then show "res_idx (item (res_map ?g2) y) = y"
      using gres_invD(4)[OF inv] by (simp add: m_def)
  qed
  moreover have "item (res_map ?g2) = (\<lambda>j. (item (res_map g) j)\<lparr>nxt := fst (nx j, nd j), node := snd (nx j, nd j)\<rparr>)"
    by (simp add: m_def fun_eq_iff)
  moreover have "item_num (res_pool (res_map ?g2)) = item_num (res_pool (res_map g))"
    "bucket_num (res_map ?g2) = bucket_num (res_map g)" by (simp_all add: m_def)
  moreover have "item m = (\<lambda>j. (item (res_map g) j)\<lparr>nxt := fst (nx j, nd j)\<rparr>)"
    "item_num (res_pool m) = item_num (res_pool (res_map g))" by (simp_all add: m_def)
  ultimately show ?thesis
    using rm ul unfolding m_def[symmetric]
    by (intro exI[of _ m] exI[of _ ?g2] exI[of _ "\<lambda>j. (nx j, nd j)"] exI[of _ p] conjI)
qed

end

section \<open>The global resource seen from its clients\<close>

text \<open>
  \<open>gres_at key h g fl L pl\<close>: the free items are \<open>fl\<close>, the items in the map are the set \<open>L\<close>,
  the list of partition \<open>p\<close> is \<open>pl p\<close>; \<open>gres_rep\<close> leaves the partition lists open.
\<close>

definition gres_at ::
  "('r drc_part_res_scheme \<Rightarrow> 'k) \<Rightarrow> ('k \<Rightarrow> uint32) \<Rightarrow> ('k, 'r drc_part_res_scheme) drc_global_res
     \<Rightarrow> uint32 list \<Rightarrow> uint32 set \<Rightarrow> (uint16 \<Rightarrow> uint32 list) \<Rightarrow> bool" where
  "gres_at key h g fl L pl \<longleftrightarrow>
     (\<exists>bl. gres_inv key h g fl bl pl \<and> L = {x. \<exists>b. x \<in> set (bl b)})"

definition gres_rep ::
  "('r drc_part_res_scheme \<Rightarrow> 'k) \<Rightarrow> ('k \<Rightarrow> uint32) \<Rightarrow> ('k, 'r drc_part_res_scheme) drc_global_res
     \<Rightarrow> uint32 list \<Rightarrow> uint32 set \<Rightarrow> bool" where
  "gres_rep key h g fl L \<longleftrightarrow>
     (\<exists>bl pl. gres_inv key h g fl bl pl \<and> L = {x. \<exists>b. x \<in> set (bl b)})"

lemma gres_rep_at: "gres_rep key h g fl L \<longleftrightarrow> (\<exists>pl. gres_at key h g fl L pl)"
  unfolding gres_rep_def gres_at_def by blast

lemma gres_at_rep: "gres_at key h g fl L pl \<Longrightarrow> gres_rep key h g fl L"
  unfolding gres_rep_at by blast

lemma gres_atD:
  assumes "gres_at key h g fl L pl"
  shows "dll (\<lambda>i. node (item (res_map g) i)) (res_parts g p) (pl p)" "x \<in> L \<longleftrightarrow> (\<exists>p. x \<in> set (pl p))"
    "x \<in> set (pl p) \<Longrightarrow> part_id (item (res_map g) x) = p"
proof -
  obtain bl where i: "gres_inv key h g fl bl pl" "L = {x. \<exists>b. x \<in> set (bl b)}" using assms by (auto simp: gres_at_def)
  note q = gres_invD(2)[OF i(1)]
  show "dll (\<lambda>i. node (item (res_map g) i)) (res_parts g p) (pl p)" by (rule parts_invD(1)[OF q])
  show "x \<in> L \<longleftrightarrow> (\<exists>p. x \<in> set (pl p))" using gres_invD(3)[OF i(1)] i(2) by simp
  show "x \<in> set (pl p) \<Longrightarrow> part_id (item (res_map g) x) = p" using parts_invD(2)[OF q] by blast
qed

text \<open>A freshly initialised resource map: every item is free, the map and the partition lists are empty.\<close>

lemma map_init_inv:
  assumes "\<not> map_inited m" "\<not> pool_inited (res_pool m)" "4 \<le> isize" "0 < num" "\<And>k r. cmp k r \<longleftrightarrow> key r = k"
  shows "\<exists>m'. drc_res_map_init True True zero m num isize cmp = Some (CT_SUCCESS, m') \<and>
           map_inv key h m' (map of_nat [0..<unat num]) (\<lambda>_. []) \<and> item_num (res_pool m') = num \<and> bucket_num m' = num * 2 + 1"
proof -
  obtain p where p: "drc_res_pool_init True zero (res_pool m) isize num = Some (CT_SUCCESS, p)"
    "pool_inv p (map of_nat [0..<unat num])" "item_num p = num" using pool_init_inv[OF assms(2-4)] by blast
  then show ?thesis using assms(1,5) by (simp add: drc_res_map_init_def map_inv_def chain_inv_def)
qed

lemma global_res_init_rep:
  assumes "\<not> map_inited (res_map g)" "\<not> pool_inited (res_pool (res_map g))" "4 \<le> isize" "0 < num"
    "\<And>k r. cmp k r \<longleftrightarrow> key r = k"
  shows "\<exists>g'. drc_global_res_init True True zero g num isize cmp = Some (CT_SUCCESS, g') \<and>
           gres_rep key h g' (map of_nat [0..<unat num]) {} \<and>
           item_num (res_pool (res_map g')) = num \<and> bucket_num (res_map g') = num * 2 + 1"
proof -
  obtain m' where m: "drc_res_map_init True True zero (res_map g) num isize cmp = Some (CT_SUCCESS, m')"
    "map_inv key h m' (map of_nat [0..<unat num]) (\<lambda>_. [])" "item_num (res_pool m') = num" "bucket_num m' = num * 2 + 1"
    using map_init_inv[OF assms(1-4), where cmp = cmp and key = key and h = h and zero = zero] assms(5) by blast
  let ?g = "g\<lparr>res_parts := (\<lambda>_. DRC_LIST_INIT), res_map := m'\<rparr>"
  have "parts_inv ?g (\<lambda>_. [])" by (simp add: parts_inv_def dll_init)
  then have "gres_inv key h ?g (map of_nat [0..<unat num]) (\<lambda>_. []) (\<lambda>_. [])" using m(2) by (simp add: gres_inv_def)
  then have "gres_rep key h ?g (map of_nat [0..<unat num]) {}" by (auto simp: gres_rep_def)
  then show ?thesis using m by (simp add: drc_global_res_init_def)
qed

text \<open>Equal up to the links of the map and of the partition list.\<close>

definition body_eq :: "'r drc_part_res_scheme \<Rightarrow> 'r drc_part_res_scheme \<Rightarrow> bool" where
  "body_eq r r' \<longleftrightarrow> (\<exists>n nd. r' = r\<lparr>nxt := n, node := nd\<rparr>)"

lemma body_eq_refl [simp]: "body_eq r r"
  unfolding body_eq_def by (rule exI[of _ "nxt r"], rule exI[of _ "node r"]) simp

lemma body_eqI [simp]: "body_eq r (r\<lparr>nxt := n, node := nd\<rparr>)" "body_eq r (r\<lparr>nxt := n\<rparr>)" "body_eq r (r\<lparr>node := nd\<rparr>)"
proof -
  show "body_eq r (r\<lparr>nxt := n, node := nd\<rparr>)" unfolding body_eq_def by blast
  have "r\<lparr>nxt := n\<rparr> = r\<lparr>nxt := n, node := node r\<rparr>" "r\<lparr>node := nd\<rparr> = r\<lparr>nxt := nxt r, node := nd\<rparr>" by simp_all
  then show "body_eq r (r\<lparr>nxt := n\<rparr>)" "body_eq r (r\<lparr>node := nd\<rparr>)" unfolding body_eq_def by metis+
qed

lemma gres_repD:
  assumes "gres_rep key h g fl L"
  shows "pool_inv (res_pool (res_map g)) fl" "x \<in> L \<Longrightarrow> x < item_num (res_pool (res_map g))"
    "x \<in> L \<Longrightarrow> x \<notin> set fl" "x \<in> L \<Longrightarrow> res_idx (item (res_map g) x) = x"
proof -
  obtain bl pl where i: "gres_inv key h g fl bl pl" "L = {x. \<exists>b. x \<in> set (bl b)}"
    using assms by (auto simp: gres_rep_def)
  note m = gres_invD(1)[OF i(1)]
  show "pool_inv (res_pool (res_map g)) fl" by (rule map_invD(1)[OF m])
  show "x \<in> L \<Longrightarrow> x < item_num (res_pool (res_map g))" "x \<in> L \<Longrightarrow> x \<notin> set fl"
    using map_invD(3)[OF m] unfolding i(2) chain_inv_def by blast+
  show "x \<in> L \<Longrightarrow> res_idx (item (res_map g) x) = x" using gres_invD(4)[OF i(1)] unfolding i(2) by blast
qed

context keyed_part_res
begin

lemma rep_lookup:
  assumes "gres_rep key h g fl L"
  shows "drc_res_map_lookup (res_map g) (h k) k = Some None \<longleftrightarrow> (\<forall>x \<in> L. key (item (res_map g) x) \<noteq> k)"
    "drc_res_map_lookup (res_map g) b k = Some (Some x) \<longleftrightarrow> x \<in> L \<and> key (item (res_map g) x) = k \<and> h k = b"
    "\<exists>r. drc_res_map_lookup (res_map g) b k = Some r"
proof -
  obtain bl pl where i: "gres_inv key h g fl bl pl" "L = {x. \<exists>b. x \<in> set (bl b)}"
    using assms by (auto simp: gres_rep_def)
  note m = gres_invD(1)[OF i(1)]
  have hb: "x \<in> set (bl b) \<Longrightarrow> h (key (item (res_map g) x)) = b" for x b
    using map_invD(3)[OF m, of b] by (auto simp: chain_inv_def)
  show "drc_res_map_lookup (res_map g) (h k) k = Some None \<longleftrightarrow> (\<forall>x \<in> L. key (item (res_map g) x) \<noteq> k)"
    unfolding lookup_None_iff[OF m] i(2) using hb by blast
  show "drc_res_map_lookup (res_map g) b k = Some (Some x) \<longleftrightarrow> x \<in> L \<and> key (item (res_map g) x) = k \<and> h k = b"
    unfolding lookup_Some_iff[OF m] i(2) using hb by blast
  show "\<exists>r. drc_res_map_lookup (res_map g) b k = Some r" using lookup_locate[OF m] by blast
qed

lemma gres_inv_items:
  assumes "gres_inv key h g fl bl pl"
    and eq: "\<And>b x. x \<in> set (bl b) \<Longrightarrow> nxt (its x) = nxt (item (res_map g) x) \<and> node (its x) = node (item (res_map g) x) \<and>
        key (its x) = key (item (res_map g) x) \<and> part_id (its x) = part_id (item (res_map g) x) \<and>
        res_idx (its x) = res_idx (item (res_map g) x)"
    and pool: "pool_inv p fl" "items p = its" "item_num p = item_num (res_pool (res_map g))"
  shows "gres_inv key h (g\<lparr>res_map := (res_map g)\<lparr>res_pool := p\<rparr>\<rparr>) fl bl pl"
proof -
  note m = gres_invD(1)[OF assms(1)]
  let ?g = "g\<lparr>res_map := (res_map g)\<lparr>res_pool := p\<rparr>\<rparr>"
  have "chain_inv key h (res_map ?g) fl b (bl b)" for b
  proof (rule chain_inv_cong[OF map_invD(3)[OF m]])
    fix x
    assume "x \<in> set (bl b)"
    then show "link (res_map ?g) x = link (res_map g) x \<and> key (item (res_map ?g) x) = key (item (res_map g) x) \<and> x \<notin> set fl"
      using eq[of x b] pool map_invD(3)[OF m, of b] by (auto simp: chain_inv_def)
  qed (use pool in simp_all)
  then have "map_inv key h (res_map ?g) fl bl" using m pool(1) by (simp add: map_inv_def)
  moreover have "parts_inv ?g pl"
    using gres_invD(3)[OF assms(1)] eq pool by (intro parts_inv_cong[OF gres_invD(2)[OF assms(1)]]) auto
  ultimately show ?thesis
    using assms(1) eq pool unfolding gres_inv_def by auto
qed

text \<open>A change to the body of one item, linked or not.\<close>

lemma at_put:
  assumes "gres_at key h g fl L pl" "x \<notin> set fl"
    and "x \<in> L \<Longrightarrow> nxt r = nxt (item (res_map g) x) \<and> node r = node (item (res_map g) x) \<and>
        key r = key (item (res_map g) x) \<and> part_id r = part_id (item (res_map g) x) \<and> res_idx r = x"
  shows "gres_at key h (g\<lparr>res_map := (res_map g)\<lparr>res_pool := (res_pool (res_map g))
           \<lparr>items := (items (res_pool (res_map g)))(x := r)\<rparr>\<rparr>\<rparr>) fl L pl"
proof -
  obtain bl where i: "gres_inv key h g fl bl pl" "L = {x. \<exists>b. x \<in> set (bl b)}"
    using assms(1) by (auto simp: gres_at_def)
  note rep = gres_at_rep[OF assms(1)]
  have "pool_inv ((res_pool (res_map g))\<lparr>items := (items (res_pool (res_map g)))(x := r)\<rparr>) fl"
    using pool_inv_upd_used[OF assms(2)] gres_repD(1)[OF rep] by blast
  moreover have "x \<in> set (bl b) \<Longrightarrow> nxt r = nxt (item (res_map g) x) \<and> node r = node (item (res_map g) x) \<and>
      key r = key (item (res_map g) x) \<and> part_id r = part_id (item (res_map g) x) \<and>
      res_idx r = res_idx (item (res_map g) x)" for b
    using assms(3) gres_repD(4)[OF rep, of x] unfolding i(2) by (simp add: exI[of _ b])
  ultimately show ?thesis
    unfolding gres_at_def
    by (intro exI[of _ bl] conjI i(2) gres_inv_items[OF i(1)]) auto
qed

lemma rep_put:
  assumes "gres_rep key h g fl L" "x \<notin> set fl"
    and "x \<in> L \<Longrightarrow> nxt r = nxt (item (res_map g) x) \<and> node r = node (item (res_map g) x) \<and>
        key r = key (item (res_map g) x) \<and> part_id r = part_id (item (res_map g) x) \<and> res_idx r = x"
  shows "gres_rep key h (g\<lparr>res_map := (res_map g)\<lparr>res_pool := (res_pool (res_map g))
           \<lparr>items := (items (res_pool (res_map g)))(x := r)\<rparr>\<rparr>\<rparr>) fl L"
  using assms at_put unfolding gres_rep_at by blast

lemma at_pool:
  assumes "gres_at key h g fl L pl" "pool_inv p fl'" "item_num p = item_num (res_pool (res_map g))"
    "\<And>x. x \<in> L \<Longrightarrow> items p x = item (res_map g) x \<and> x \<notin> set fl'"
  shows "gres_at key h (g\<lparr>res_map := (res_map g)\<lparr>res_pool := p\<rparr>\<rparr>) fl' L pl"
proof -
  obtain bl where i: "gres_inv key h g fl bl pl" "L = {x. \<exists>b. x \<in> set (bl b)}"
    using assms(1) by (auto simp: gres_at_def)
  note m = gres_invD(1)[OF i(1)]
  let ?g = "g\<lparr>res_map := (res_map g)\<lparr>res_pool := p\<rparr>\<rparr>"
  have inL: "x \<in> set (bl b) \<Longrightarrow> items p x = item (res_map g) x \<and> x \<notin> set fl'" for x b
    using assms(4) unfolding i(2) by blast
  then have "chain_inv key h (res_map ?g) fl' b (bl b)" for b
    using assms(3) by (intro chain_inv_cong[OF map_invD(3)[OF m]]) auto
  then have "map_inv key h (res_map ?g) fl' bl" using m assms(2) by (simp add: map_inv_def)
  moreover have "parts_inv ?g pl"
    using gres_invD(3)[OF i(1)] assms(3) inL by (intro parts_inv_cong[OF gres_invD(2)[OF i(1)]]) fastforce+
  ultimately have "gres_inv key h ?g fl' bl pl"
    using i inL unfolding gres_inv_def by auto
  then show ?thesis unfolding gres_at_def using i(2) by blast
qed

lemma rep_pool:
  assumes "gres_rep key h g fl L" "pool_inv p fl'" "item_num p = item_num (res_pool (res_map g))"
    "\<And>x. x \<in> L \<Longrightarrow> items p x = item (res_map g) x \<and> x \<notin> set fl'"
  shows "gres_rep key h (g\<lparr>res_map := (res_map g)\<lparr>res_pool := p\<rparr>\<rparr>) fl' L"
  using assms at_pool unfolding gres_rep_at by blast

lemma rep_alloc:
  assumes "gres_rep key h g (x # fl) L"
  shows "\<exists>p. drc_res_pool_alloc_item (res_pool (res_map g)) = Some (x, p) \<and> items p = items (res_pool (res_map g)) \<and>
           item_num p = item_num (res_pool (res_map g)) \<and> recycle_pos p = recycle_pos (res_pool (res_map g)) \<and>
           gres_rep key h (g\<lparr>res_map := (res_map g)\<lparr>res_pool := p\<rparr>\<rparr>) fl L"
proof -
  note p = gres_repD(1)[OF assms]
  let ?p = "(res_pool (res_map g))\<lparr>free_list := nxt (item (res_map g) x), used_num := used_num (res_pool (res_map g)) + 1\<rparr>"
  have "gres_rep key h (g\<lparr>res_map := (res_map g)\<lparr>res_pool := ?p\<rparr>\<rparr>) fl L"
    using gres_repD(3)[OF assms] by (intro rep_pool[OF assms pool_inv_take[OF p]]) auto
  then show ?thesis unfolding alloc_item_Cons[OF p] by (intro exI[of _ ?p]) simp
qed

lemma at_free:
  assumes "gres_at key h g fl L pl" "x < item_num (res_pool (res_map g))" "x \<notin> set fl" "x \<notin> L"
  shows "\<exists>p n. drc_res_pool_free_item (res_pool (res_map g)) x = Some p \<and>
           items p = (items (res_pool (res_map g)))(x := (item (res_map g) x)\<lparr>nxt := n\<rparr>) \<and>
           item_num p = item_num (res_pool (res_map g)) \<and>
           gres_at key h (g\<lparr>res_map := (res_map g)\<lparr>res_pool := p\<rparr>\<rparr>) (x # fl) L pl"
proof -
  note rep = gres_at_rep[OF assms(1)]
  note p = gres_repD(1)[OF rep]
  let ?n = "free_list (res_pool (res_map g))"
  let ?p = "(res_pool (res_map g))\<lparr>items := (items (res_pool (res_map g)))(x := (item (res_map g) x)\<lparr>nxt := ?n\<rparr>),
              free_list := x, used_num := used_num (res_pool (res_map g)) - 1\<rparr>"
  have "gres_at key h (g\<lparr>res_map := (res_map g)\<lparr>res_pool := ?p\<rparr>\<rparr>) (x # fl) L pl"
    using assms(4) gres_repD(3)[OF rep]
    by (intro at_pool[OF assms(1) pool_inv_give[OF p assms(2,3)]]) auto
  then show ?thesis unfolding free_item_eq[OF p assms(2)] by (intro exI[of _ ?p] exI[of _ ?n]) simp
qed

lemma rep_free:
  assumes "gres_rep key h g fl L" "x < item_num (res_pool (res_map g))" "x \<notin> set fl" "x \<notin> L"
  shows "\<exists>p n. drc_res_pool_free_item (res_pool (res_map g)) x = Some p \<and>
           items p = (items (res_pool (res_map g)))(x := (item (res_map g) x)\<lparr>nxt := n\<rparr>) \<and>
           item_num p = item_num (res_pool (res_map g)) \<and>
           gres_rep key h (g\<lparr>res_map := (res_map g)\<lparr>res_pool := p\<rparr>\<rparr>) (x # fl) L"
  using assms(1) at_free[OF _ assms(2-4)] unfolding gres_rep_at by blast

end

context keyed_part_res
begin

lemma rep_create:
  assumes "gres_rep key h g fl L" "i < item_num (res_pool (res_map g))" "i \<notin> set fl" "i \<notin> L"
    and "drc_res_map_lookup (res_map g) (h (key r)) (key r) = Some None"
    and "res_idx r = i" "node_idx (node r) = i"
  shows "\<exists>g1 g2. drc_res_attach g (h (key r)) i r = Some g1 \<and> drc_part_link g1 i = Some g2 \<and>
           gres_rep key h g2 fl (insert i L) \<and> body_eq r (item (res_map g2) i) \<and>
           (\<forall>j. j \<noteq> i \<longrightarrow> body_eq (item (res_map g) j) (item (res_map g2) j)) \<and>
           item_num (res_pool (res_map g2)) = item_num (res_pool (res_map g)) \<and>
           bucket_num (res_map g2) = bucket_num (res_map g)"
proof -
  obtain bl pl where inv: "gres_inv key h g fl bl pl" and L: "L = {x. \<exists>b. x \<in> set (bl b)}"
    using assms(1) by (auto simp: gres_rep_def)
  have "\<And>b. i \<notin> set (bl b)" using assms(4) L by blast
  from create_inv[OF inv assms(2,3) this assms(5-7)] obtain g1 g2 n nd where
    c: "drc_res_attach g (h (key r)) i r = Some g1" "drc_part_link g1 i = Some g2"
      "gres_inv key h g2 fl (bl(h (key r) := i # bl (h (key r)))) (pl(part_id r := i # pl (part_id r)))"
      "item (res_map g2) = (\<lambda>j. (if j = i then r\<lparr>nxt := n\<rparr> else item (res_map g) j)\<lparr>node := nd j\<rparr>)"
      "item_num (res_pool (res_map g2)) = item_num (res_pool (res_map g))"
      "bucket_num (res_map g2) = bucket_num (res_map g)" by blast
  have "insert i L = {x. \<exists>b. x \<in> set ((bl(h (key r) := i # bl (h (key r)))) b)}"
    unfolding members_Cons_upd L by blast
  then have "gres_rep key h g2 fl (insert i L)" unfolding gres_rep_def using c(3) by blast
  then show ?thesis using c by (intro exI[of _ g1] exI[of _ g2]) simp
qed

lemma rep_attach_remove:
  assumes "gres_rep key h g fl L" "i < item_num (res_pool (res_map g))" "i \<notin> set fl" "i \<notin> L"
    and "drc_res_map_lookup (res_map g) (h (key r)) (key r) = Some None"
  shows "\<exists>g1 m. drc_res_attach g (h (key r)) i r = Some g1 \<and>
           drc_res_map_remove (res_map g1) (h (key r)) (key r) = Some m \<and>
           gres_rep key h (g1\<lparr>res_map := m\<rparr>) fl L \<and>
           (\<forall>j. j \<noteq> i \<longrightarrow> body_eq (item (res_map g) j) (item m j)) \<and>
           item_num (res_pool m) = item_num (res_pool (res_map g)) \<and> bucket_num m = bucket_num (res_map g)"
proof -
  obtain bl pl where inv: "gres_inv key h g fl bl pl" and L: "L = {x. \<exists>b. x \<in> set (bl b)}"
    using assms(1) by (auto simp: gres_rep_def)
  have ni: "\<And>b. i \<notin> set (bl b)" using assms(4) L by blast
  let ?bl = "bl(h (key r) := i # bl (h (key r)))"
  from attach_inv[OF inv assms(2,3) ni assms(5)] obtain n bks g1 where
    g1: "g1 = g\<lparr>res_map := (res_map g)\<lparr>res_pool := (res_pool (res_map g))
      \<lparr>items := (items (res_pool (res_map g)))(i := r\<lparr>nxt := n\<rparr>)\<rparr>, buckets := bks\<rparr>\<rparr>"
    and a: "drc_res_attach g (h (key r)) i r = Some g1" and m1: "map_inv key h (res_map g1) fl ?bl"
    and p1: "parts_inv g1 pl" unfolding Let_def by blast
  have "drc_res_map_lookup (res_map g1) (h (key r)) (key r) = Some (Some i)"
    unfolding lookup_Some_iff[OF m1] by (simp add: g1)
  from map_remove_inv[OF m1 this] obtain nx bks' m where
    m: "m = (res_map g1)\<lparr>res_pool := (res_pool (res_map g1))\<lparr>items := (\<lambda>i. (item (res_map g1) i)\<lparr>nxt := nx i\<rparr>)\<rparr>, buckets := bks'\<rparr>"
    and rm: "drc_res_map_remove (res_map g1) (h (key r)) (key r) = Some m"
    and m2: "map_inv key h m fl (?bl(h (key r) := remove1 i (?bl (h (key r)))))" by blast
  have "?bl(h (key r) := remove1 i (?bl (h (key r)))) = bl" by auto
  then have m3: "map_inv key h m fl bl" using m2 by simp
  have "parts_inv (g1\<lparr>res_map := m\<rparr>) pl" unfolding m using p1 by (simp add: inv_simps)
  moreover have "res_idx (item m x) = x" if "x \<in> set (bl b)" for x b
    using that ni gres_invD(4)[OF inv, of x b] by (auto simp: m g1)
  ultimately have "gres_inv key h (g1\<lparr>res_map := m\<rparr>) fl bl pl"
    unfolding gres_inv_def using m3 gres_invD(3)[OF inv] by simp
  then have "gres_rep key h (g1\<lparr>res_map := m\<rparr>) fl L" unfolding gres_rep_def using L by blast
  then show ?thesis using a rm by (intro exI[of _ g1] exI[of _ m]) (simp add: m g1)
qed

lemma at_remove_unlink:
  assumes "gres_at key h g fl L pl" "x \<in> L"
  shows "\<exists>m g2. drc_res_map_remove (res_map g) (h (key (item (res_map g) x))) (key (item (res_map g) x)) = Some m \<and>
           drc_part_unlink (g\<lparr>res_map := m\<rparr>) x = Some g2 \<and> gres_at key h g2 fl (L - {x}) (\<lambda>q. remove1 x (pl q)) \<and>
           (\<forall>j. body_eq (item (res_map g) j) (item (res_map g2) j)) \<and>
           item_num (res_pool (res_map g2)) = item_num (res_pool (res_map g)) \<and>
           bucket_num (res_map g2) = bucket_num (res_map g) \<and>
           (\<forall>j. body_eq (item (res_map g) j) (item m j)) \<and> item_num (res_pool m) = item_num (res_pool (res_map g))"
proof -
  obtain bl where inv: "gres_inv key h g fl bl pl" and L: "L = {x. \<exists>b. x \<in> set (bl b)}"
    using assms(1) by (auto simp: gres_at_def)
  note rep = gres_at_rep[OF assms(1)]
  let ?k = "key (item (res_map g) x)"
  note m = gres_invD(1)[OF inv]
  have look: "drc_res_map_lookup (res_map g) (h ?k) ?k = Some (Some x)" using rep_lookup(2)[OF rep] assms(2) by simp
  from remove_unlink_inv[OF inv look] obtain m' g2 f p where
    c: "drc_res_map_remove (res_map g) (h ?k) ?k = Some m'" "drc_part_unlink (g\<lparr>res_map := m'\<rparr>) x = Some g2"
      "gres_inv key h g2 fl (bl(h ?k := remove1 x (bl (h ?k)))) (pl(p := remove1 x (pl p)))"
      "item (res_map g2) = (\<lambda>j. (item (res_map g) j)\<lparr>nxt := fst (f j), node := snd (f j)\<rparr>)"
      "item_num (res_pool (res_map g2)) = item_num (res_pool (res_map g))"
      "bucket_num (res_map g2) = bucket_num (res_map g)"
      "item m' = (\<lambda>j. (item (res_map g) j)\<lparr>nxt := fst (f j)\<rparr>)" "item_num (res_pool m') = item_num (res_pool (res_map g))" by blast
  have x: "x \<in> set (bl (h ?k))" using look lookup_Some_iff[OF m] by blast
  have d: "distinct (bl (h ?k))" using map_invD(3)[OF m] by (auto simp: chain_inv_def)
  have L': "L - {x} = {y. \<exists>b. y \<in> set ((bl(h ?k := remove1 x (bl (h ?k)))) b)}"
    using members_remove1_upd[of bl, OF d _ x] map_inv_chain_disjoint[OF m] unfolding L by blast
  have "x \<notin> set (pl q)" if "q \<noteq> p" for q
  proof
    assume "x \<in> set (pl q)"
    then have "x \<in> set ((pl(p := remove1 x (pl p))) q)" using that by simp
    then have "x \<in> L - {x}" using gres_invD(3)[OF c(3), of x] unfolding L' by blast
    then show False by simp
  qed
  then have "pl(p := remove1 x (pl p)) = (\<lambda>q. remove1 x (pl q))" by (auto simp: fun_eq_iff remove1_idem)
  then have "gres_at key h g2 fl (L - {x}) (\<lambda>q. remove1 x (pl q))"
    unfolding gres_at_def by (intro exI conjI) (use c(3) L' in \<open>simp_all only: \<close>)
  then show ?thesis using c by (intro exI[of _ m'] exI[of _ g2]) simp
qed

lemma rep_remove_unlink:
  assumes "gres_rep key h g fl L" "x \<in> L"
  shows "\<exists>m g2. drc_res_map_remove (res_map g) (h (key (item (res_map g) x))) (key (item (res_map g) x)) = Some m \<and>
           drc_part_unlink (g\<lparr>res_map := m\<rparr>) x = Some g2 \<and> gres_rep key h g2 fl (L - {x}) \<and>
           (\<forall>j. body_eq (item (res_map g) j) (item (res_map g2) j)) \<and>
           item_num (res_pool (res_map g2)) = item_num (res_pool (res_map g)) \<and>
           bucket_num (res_map g2) = bucket_num (res_map g)"
proof -
  obtain pl where "gres_at key h g fl L pl" using assms(1) by (auto simp: gres_rep_at)
  from at_remove_unlink[OF this assms(2)] show ?thesis unfolding gres_rep_at by blast
qed

lemma rep_unlink_remove:
  assumes "gres_rep key h g fl L" "x \<in> L"
  shows "\<exists>g1 m. drc_part_unlink g x = Some g1 \<and>
           drc_res_map_remove (res_map g1) (h (key (item (res_map g) x))) (key (item (res_map g) x)) = Some m \<and>
           gres_rep key h (g1\<lparr>res_map := m\<rparr>) fl (L - {x}) \<and>
           (\<forall>j. body_eq (item (res_map g) j) (item m j)) \<and>
           item_num (res_pool m) = item_num (res_pool (res_map g)) \<and> bucket_num m = bucket_num (res_map g) \<and>
           bucket_num (res_map g1) = bucket_num (res_map g)"
proof -
  obtain bl pl where inv: "gres_inv key h g fl bl pl" and L: "L = {x. \<exists>b. x \<in> set (bl b)}"
    using assms(1) by (auto simp: gres_rep_def)
  let ?k = "key (item (res_map g) x)"
  let ?bl = "bl(h ?k := remove1 x (bl (h ?k)))"
  note m = gres_invD(1)[OF inv]
  have "drc_res_map_lookup (res_map g) (h ?k) ?k = Some (Some x)" using rep_lookup(2)[OF assms(1)] assms(2) by simp
  then have x: "x \<in> set (bl (h ?k))" using lookup_Some_iff[OF m] by blast
  then obtain p where p: "x \<in> set (pl p)" using gres_invD(3)[OF inv] by blast
  from part_unlink_inv[OF gres_invD(2)[OF inv] p] obtain nd ps g1 where
    g1: "g1 = set_items g (\<lambda>j. (item (res_map g) j)\<lparr>node := nd j\<rparr>)\<lparr>res_parts := ps\<rparr>"
    and ul: "drc_part_unlink g x = Some g1" and p1: "parts_inv g1 (pl(p := remove1 x (pl p)))" by auto
  have m1: "map_inv key h (res_map g1) fl bl" using m by (simp add: g1 inv_simps)
  have "drc_res_map_lookup (res_map g1) (h ?k) ?k = Some (Some x)"
    using x unfolding lookup_Some_iff[OF m1] by (simp add: g1)
  from map_remove_inv[OF m1 this] obtain nx bks' m' where
    m': "m' = (res_map g1)\<lparr>res_pool := (res_pool (res_map g1))\<lparr>items := (\<lambda>i. (item (res_map g1) i)\<lparr>nxt := nx i\<rparr>)\<rparr>, buckets := bks'\<rparr>"
    and rm: "drc_res_map_remove (res_map g1) (h ?k) ?k = Some m'" and m2: "map_inv key h m' fl ?bl" by blast
  have d: "distinct (bl (h ?k))" "distinct (pl p)"
    using map_invD(3)[OF m, of "h ?k"] parts_invD(1)[OF gres_invD(2)[OF inv], of p] by (auto simp: chain_inv_def dll_def)
  have dj: "\<And>b c. x \<in> set (bl b) \<Longrightarrow> x \<in> set (bl c) \<Longrightarrow> b = c" "\<And>b c. x \<in> set (pl b) \<Longrightarrow> x \<in> set (pl c) \<Longrightarrow> b = c"
    using map_inv_chain_disjoint[OF m] parts_inv_disjoint[OF gres_invD(2)[OF inv]] by blast+
  note mem = members_remove1_upd[of bl, OF d(1) dj(1) x] members_remove1_upd[of pl, OF d(2) dj(2) p]
  have "gres_inv key h (g1\<lparr>res_map := m'\<rparr>) fl ?bl (pl(p := remove1 x (pl p)))"
    unfolding gres_inv_def
  proof (intro conjI allI ballI)
    show "map_inv key h (res_map (g1\<lparr>res_map := m'\<rparr>)) fl ?bl" using m2 by simp
    show "parts_inv (g1\<lparr>res_map := m'\<rparr>) (pl(p := remove1 x (pl p)))" unfolding m' using p1 by (simp add: inv_simps)
    fix y
    show "(\<exists>b. y \<in> set (?bl b)) \<longleftrightarrow> (\<exists>q. y \<in> set ((pl(p := remove1 x (pl p))) q))"
      using mem gres_invD(3)[OF inv, of y] by blast
    fix b
    assume "y \<in> set (?bl b)"
    then have "y \<in> set (bl b)" using set_remove1_subset[of x "bl (h ?k)"] by (auto split: if_splits)
    then show "res_idx (item (res_map (g1\<lparr>res_map := m'\<rparr>)) y) = y" using gres_invD(4)[OF inv] by (simp add: m' g1)
  qed
  moreover have "L - {x} = {y. \<exists>b. y \<in> set (?bl b)}" using mem(1) unfolding L by blast
  ultimately have "gres_rep key h (g1\<lparr>res_map := m'\<rparr>) fl (L - {x})" unfolding gres_rep_def by blast
  moreover have "body_eq (item (res_map g) j) (item m' j)" for j
    unfolding body_eq_def by (rule exI[of _ "nx j"], rule exI[of _ "nd j"]) (simp add: m' g1)
  ultimately show ?thesis using ul rm by (intro exI[of _ g1] exI[of _ m']) (simp add: m' g1)
qed

end

end
