(* ===== verification/Drc_Store.thy ===== *)
theory Drc_Store
  imports Drc_Map
begin

text \<open>
  A resource map as a store: the maps without partition lists (local locks, transactions) are
  used through lookup, create, update and remove only. What such a map means is the finite map
  \<open>contents\<close>, and every operation on the linked structure is the corresponding operation on it.
\<close>

definition contents ::
  "('k \<Rightarrow> uint32) \<Rightarrow> ('k, 'r drc_block_header_scheme) drc_res_map \<Rightarrow> 'k \<Rightarrow> 'r drc_block_header_scheme option" where
  "contents h m k = (case drc_res_map_lookup m (h k) k of Some (Some x) \<Rightarrow> Some ((item m x)\<lparr>nxt := 0\<rparr>) | _ \<Rightarrow> None)"

definition stored ::
  "('r drc_block_header_scheme \<Rightarrow> 'k) \<Rightarrow> ('k \<Rightarrow> uint32) \<Rightarrow> ('k, 'r drc_block_header_scheme) drc_res_map
     \<Rightarrow> uint32 list \<Rightarrow> uint32 set \<Rightarrow> bool" where
  "stored key h m fl L \<longleftrightarrow> (\<exists>bl. map_inv key h m fl bl \<and> L = {x. \<exists>b. x \<in> set (bl b)})"

lemma storedD:
  assumes "stored key h m fl L"
  shows "pool_inv (res_pool m) fl" "x \<in> L \<Longrightarrow> x < item_num (res_pool m)" "x \<in> L \<Longrightarrow> x \<notin> set fl"
    "x \<in> L \<Longrightarrow> y \<in> L \<Longrightarrow> key (item m x) = key (item m y) \<Longrightarrow> x = y" "finite L"
proof -
  obtain bl where i: "map_inv key h m fl bl" "L = {x. \<exists>b. x \<in> set (bl b)}" using assms by (auto simp: stored_def)
  have c: "y < item_num (res_pool m) \<and> y \<notin> set fl \<and> h (key (item m y)) = b" if "y \<in> set (bl b)" for y b
    using map_invD(3)[OF i(1), of b] that by (simp add: chain_inv_def)
  show "pool_inv (res_pool m) fl" by (rule map_invD(1)[OF i(1)])
  show b: "x < item_num (res_pool m)" if "x \<in> L" for x using c that i(2) by auto
  show "x \<notin> set fl" if "x \<in> L" using c that i(2) by auto
  show "x = y" if xy: "x \<in> L" "y \<in> L" "key (item m x) = key (item m y)"
  proof -
    obtain b where x: "x \<in> set (bl b)" using xy(1) i(2) by auto
    obtain b' where y: "y \<in> set (bl b')" using xy(2) i(2) by auto
    have "b' = b" using c[OF x] c[OF y] xy(3) by simp
    then show ?thesis using x y xy(3) map_invD(3)[OF i(1), of b] by (auto simp: chain_inv_def inj_on_def)
  qed
  show "finite L" using b by (intro finite_subset[OF _ finite[of "UNIV :: uint32 set"]]) auto
qed

lemma stored_lookup:
  assumes "stored key h m fl L"
  shows "drc_res_map_lookup m (h k) k = Some (Some x) \<longleftrightarrow> x \<in> L \<and> key (item m x) = k"
    "drc_res_map_lookup m (h k) k = Some None \<longleftrightarrow> (\<forall>x \<in> L. key (item m x) \<noteq> k)"
    "\<exists>f. drc_res_map_lookup m (h k) k = Some f"
proof -
  obtain bl where i: "map_inv key h m fl bl" "L = {x. \<exists>b. x \<in> set (bl b)}" using assms by (auto simp: stored_def)
  have "x \<in> set (bl (h k)) \<longleftrightarrow> x \<in> L" if "key (item m x) = k" for x
    using that i(2) map_invD(3)[OF i(1)] by (auto simp: chain_inv_def)
  then show "drc_res_map_lookup m (h k) k = Some (Some x) \<longleftrightarrow> x \<in> L \<and> key (item m x) = k"
    "drc_res_map_lookup m (h k) k = Some None \<longleftrightarrow> (\<forall>x \<in> L. key (item m x) \<noteq> k)"
    using lookup_Some_iff[OF i(1), of "h k" k x] lookup_None_iff[OF i(1), of "h k" k] by auto
  show "\<exists>f. drc_res_map_lookup m (h k) k = Some f" using lookup_locate[OF i(1)] by blast
qed

lemma stored_cases:
  assumes "stored key h m fl L"
  obtains (none) "drc_res_map_lookup m (h k) k = Some None" "contents h m k = None" "\<forall>x \<in> L. key (item m x) \<noteq> k"
  | (some) x where "drc_res_map_lookup m (h k) k = Some (Some x)" "contents h m k = Some ((item m x)\<lparr>nxt := 0\<rparr>)"
      "x \<in> L" "key (item m x) = k"
proof -
  obtain f where "drc_res_map_lookup m (h k) k = Some f" using stored_lookup(3)[OF assms] by blast
  then show thesis
  proof (cases f)
    case None
    then show thesis using \<open>drc_res_map_lookup m (h k) k = Some f\<close> stored_lookup(2)[OF assms, of k]
      by (intro none) (simp_all add: contents_def)
  next
    case (Some x)
    then show thesis using \<open>drc_res_map_lookup m (h k) k = Some f\<close> stored_lookup(1)[OF assms, of k x]
      by (intro some[of x]) (simp_all add: contents_def)
  qed
qed

lemma contents_Some:
  assumes "stored key h m fl L"
  shows "contents h m k = Some r \<longleftrightarrow> (\<exists>x \<in> L. key (item m x) = k \<and> r = (item m x)\<lparr>nxt := 0\<rparr>)"
proof (rule stored_cases[OF assms, of k])
  fix x assume "contents h m k = Some ((item m x)\<lparr>nxt := 0\<rparr>)" "x \<in> L" "key (item m x) = k"
  then show ?thesis using storedD(4)[OF assms] by auto
qed auto

text \<open>The contents of a map are determined by its linked items.\<close>

lemma contents_eqI:
  assumes "stored key h m' fl' L'"
    and "\<And>r. f k = Some r \<longleftrightarrow> (\<exists>x \<in> L'. key (item m' x) = k \<and> r = (item m' x)\<lparr>nxt := 0\<rparr>)"
  shows "contents h m' k = f k"
proof (cases "f k")
  case None
  then have "contents h m' k \<noteq> Some r" for r using assms(2)[of r] contents_Some[OF assms(1), of k r] by simp
  then show ?thesis using None by (cases "contents h m' k") auto
next
  case (Some r)
  then have "contents h m' k = Some r" using assms(2)[of r] contents_Some[OF assms(1), of k r] by blast
  then show ?thesis using Some by simp
qed

context keyed_res
begin

lemma store_put:
  assumes s: "stored key h m fl L" and x: "x \<in> L" and r: "key r = key (item m x)" "nxt r = nxt (item m x)"
  defines "m' \<equiv> m\<lparr>res_pool := (res_pool m)\<lparr>items := (items (res_pool m))(x := r)\<rparr>\<rparr>"
  shows "drc_res_put (res_pool m) x r = Some (res_pool m')" "stored key h m' fl L"
    "contents h m' = (contents h m)(key r \<mapsto> r\<lparr>nxt := 0\<rparr>)"
proof -
  obtain bl where i: "map_inv key h m fl bl" "L = {x. \<exists>b. x \<in> set (bl b)}" using s by (auto simp: stored_def)
  show "drc_res_put (res_pool m) x r = Some (res_pool m')" using storedD(2)[OF s x] by (simp add: m'_def)
  have "chain_inv key h m' fl b (bl b)" for b
  proof (rule chain_inv_cong[OF map_invD(3)[OF i(1), of b]])
    fix y assume "y \<in> set (bl b)"
    then show "link m' y = link m y \<and> key (item m' y) = key (item m y) \<and> y \<notin> set fl"
      using r map_invD(3)[OF i(1), of b] by (auto simp: m'_def chain_inv_def)
  qed (simp_all add: m'_def)
  moreover have "pool_inv (res_pool m') fl" using storedD(3)[OF s x] storedD(1)[OF s] by (simp add: m'_def inv_simps)
  ultimately have "map_inv key h m' fl bl" using map_invD(2)[OF i(1)] by (simp add: map_inv_def m'_def)
  then show s': "stored key h m' fl L" using i(2) by (auto simp: stored_def)
  show "contents h m' = (contents h m)(key r \<mapsto> r\<lparr>nxt := 0\<rparr>)"
  proof
    fix k
    show "contents h m' k = ((contents h m)(key r \<mapsto> r\<lparr>nxt := 0\<rparr>)) k"
    proof (rule contents_eqI[OF s'])
      fix r'
      show "((contents h m)(key r \<mapsto> r\<lparr>nxt := 0\<rparr>)) k = Some r' \<longleftrightarrow> (\<exists>y \<in> L. key (item m' y) = k \<and> r' = (item m' y)\<lparr>nxt := 0\<rparr>)"
      proof (cases "k = key r")
        case True
        have "(\<exists>y \<in> L. key (item m' y) = k \<and> r' = (item m' y)\<lparr>nxt := 0\<rparr>) \<longleftrightarrow> r' = r\<lparr>nxt := 0\<rparr>"
        proof
          assume "\<exists>y \<in> L. key (item m' y) = k \<and> r' = (item m' y)\<lparr>nxt := 0\<rparr>"
          then obtain y where y: "y \<in> L" "key (item m' y) = k" "r' = (item m' y)\<lparr>nxt := 0\<rparr>" by blast
          then have "y = x" using storedD(4)[OF s y(1) x] True r(1) by (cases "y = x") (simp_all add: m'_def)
          then show "r' = r\<lparr>nxt := 0\<rparr>" using y(3) by (simp add: m'_def)
        next
          assume "r' = r\<lparr>nxt := 0\<rparr>"
          then show "\<exists>y \<in> L. key (item m' y) = k \<and> r' = (item m' y)\<lparr>nxt := 0\<rparr>"
            using x True by (intro bexI[of _ x]) (simp_all add: m'_def)
        qed
        then show ?thesis using True by auto
      next
        case False
        have "key (item m' y) = k \<and> r' = (item m' y)\<lparr>nxt := 0\<rparr> \<longleftrightarrow> key (item m y) = k \<and> r' = (item m y)\<lparr>nxt := 0\<rparr>" for y
          using False r(1) by (cases "y = x") (simp_all add: m'_def)
        then show ?thesis using False contents_Some[OF s, of k r'] by simp
      qed
    qed
  qed
qed

lemma store_create:
  assumes s: "stored key h m (x # fl) L" and new: "contents h m (key r) = None"
  defines "p \<equiv> (res_pool m)\<lparr>free_list := nxt (item m x), used_num := used_num (res_pool m) + 1\<rparr>"
    and "a \<equiv> drc_res_map_add (buckets m (h (key r))) x"
  defines "m' \<equiv> m\<lparr>res_pool := p\<lparr>items := (items p)(x := r\<lparr>nxt := fst a\<rparr>)\<rparr>, buckets := (buckets m)(h (key r) := snd a)\<rparr>"
  shows "drc_res_pool_alloc_item (res_pool m) = Some (x, p)" "x < item_num p" "x \<notin> L" "stored key h m' fl (insert x L)"
    "contents h m' = (contents h m)(key r \<mapsto> r\<lparr>nxt := 0\<rparr>)"
proof -
  obtain bl where i: "map_inv key h m (x # fl) bl" "L = {x. \<exists>b. x \<in> set (bl b)}" using s by (auto simp: stored_def)
  note pi = storedD(1)[OF s]
  show "drc_res_pool_alloc_item (res_pool m) = Some (x, p)" unfolding p_def by (rule alloc_item_Cons[OF pi])
  show x: "x < item_num p" using pi by (simp add: p_def pool_inv_def)
  show xL: "x \<notin> L" using storedD(3)[OF s] by auto
  have pf: "pool_inv p fl" unfolding p_def by (rule pool_inv_take[OF pi])
  let ?m = "m\<lparr>res_pool := p\<rparr>"
  have "chain_inv key h ?m fl b (bl b)" for b
    by (rule chain_inv_cong[OF map_invD(3)[OF i(1), of b]]) (use map_invD(3)[OF i(1), of b] in \<open>auto simp: p_def chain_inv_def\<close>)
  then have inv: "map_inv key h ?m fl bl" using pf map_invD(2)[OF i(1)] by (simp add: map_inv_def)
  have "\<forall>y \<in> L. key (item m y) \<noteq> key r" by (rule stored_cases[OF s, of "key r"]) (use new in auto)
  then have look: "drc_res_map_lookup ?m (h (key r)) (key r) = Some None"
    using lookup_None_iff[OF inv] i(2) by (auto simp: p_def)
  have xf: "x \<notin> set fl" "x \<notin> set (bl b)" for b using pi xL i(2) by (auto simp: pool_inv_def)
  have ad: "drc_res_map_add (buckets ?m (h (key r))) x = (fst a, snd a)" by (simp add: a_def)
  have "map_inv key h m' fl (bl(h (key r) := x # bl (h (key r))))"
    using map_add_inv[OF inv _ xf(1) xf(2) look ad] x by (simp add: m'_def)
  then show s': "stored key h m' fl (insert x L)" unfolding stored_def i(2) by (intro exI[of _ "bl(h (key r) := x # bl (h (key r)))"]) (simp only: members_Cons_upd, auto)
  show "contents h m' = (contents h m)(key r \<mapsto> r\<lparr>nxt := 0\<rparr>)"
  proof
    fix k
    show "contents h m' k = ((contents h m)(key r \<mapsto> r\<lparr>nxt := 0\<rparr>)) k"
    proof (rule contents_eqI[OF s'])
      fix r'
      have o: "item m' y = item m y" if "y \<in> L" for y using that xL by (auto simp: m'_def p_def)
      show "((contents h m)(key r \<mapsto> r\<lparr>nxt := 0\<rparr>)) k = Some r' \<longleftrightarrow> (\<exists>y \<in> insert x L. key (item m' y) = k \<and> r' = (item m' y)\<lparr>nxt := 0\<rparr>)"
      proof (cases "k = key r")
        case True
        then have "\<not> (\<exists>y \<in> L. key (item m' y) = k \<and> r' = (item m' y)\<lparr>nxt := 0\<rparr>)" using \<open>\<forall>y \<in> L. key (item m y) \<noteq> key r\<close> o by auto
        then show ?thesis using True by (auto simp: m'_def)
      next
        case False
        have "(\<exists>y \<in> L. key (item m' y) = k \<and> r' = (item m' y)\<lparr>nxt := 0\<rparr>) \<longleftrightarrow> contents h m k = Some r'"
          unfolding contents_Some[OF s] using o by (intro bex_cong) simp_all
        then show ?thesis using False by (simp add: m'_def)
      qed
    qed
  qed
qed

lemma store_full:
  assumes "stored key h m [] L"
  shows "drc_res_pool_alloc_item (res_pool m) = Some (CT_INVALID_ID32, res_pool m)"
  by (rule alloc_item_Nil[OF storedD(1)[OF assms]])

lemma store_free:
  assumes s: "stored key h m fl L" and x: "x \<notin> L" "x \<notin> set fl" "x < item_num (res_pool m)"
  shows "\<exists>p. drc_res_pool_free_item ((res_pool m)\<lparr>items := (items (res_pool m))(x := z)\<rparr>) x = Some p \<and>
           stored key h (m\<lparr>res_pool := p\<rparr>) (x # fl) L \<and> contents h (m\<lparr>res_pool := p\<rparr>) = contents h m"
proof -
  obtain bl where i: "map_inv key h m fl bl" "L = {x. \<exists>b. x \<in> set (bl b)}" using s by (auto simp: stored_def)
  define q where "q = (res_pool m)\<lparr>items := (items (res_pool m))(x := z)\<rparr>"
  define p where "p = q\<lparr>items := (items q)(x := z\<lparr>nxt := free_list q\<rparr>), free_list := x, used_num := used_num q - 1\<rparr>"
  have qx: "items q x = z" "item_num q = item_num (res_pool m)" by (simp_all add: q_def)
  have q: "pool_inv q fl" using storedD(1)[OF s] pool_inv_upd_used[OF x(2), of "res_pool m" z] by (simp add: q_def)
  have e: "drc_res_pool_free_item q x = Some p" using free_item_eq[OF q, of x] x(3) qx by (simp add: p_def)
  have pp: "pool_inv p (x # fl)" using pool_inv_give[OF q _ x(2), of z] x(3) qx by (simp add: p_def)
  have it: "items p y = item m y" if "y \<noteq> x" for y using that by (simp add: p_def q_def)
  have itL: "items p y = item m y" if "y \<in> L" for y using that x(1) by (intro it) blast
  have n: "item_num p = item_num (res_pool m)" by (simp add: p_def q_def)
  have "chain_inv key h (m\<lparr>res_pool := p\<rparr>) (x # fl) b (bl b)" for b
  proof (rule chain_inv_cong[OF map_invD(3)[OF i(1), of b]])
    fix y assume y: "y \<in> set (bl b)"
    then have "y \<noteq> x" "y \<notin> set fl" using x(1) i(2) map_invD(3)[OF i(1), of b] by (auto simp: chain_inv_def)
    then show "link (m\<lparr>res_pool := p\<rparr>) y = link m y \<and> key (item (m\<lparr>res_pool := p\<rparr>) y) = key (item m y) \<and> y \<notin> set (x # fl)" by (simp add: it)
  qed (simp_all add: n)
  then have "map_inv key h (m\<lparr>res_pool := p\<rparr>) (x # fl) bl" using pp map_invD(2)[OF i(1)] by (simp add: map_inv_def)
  then have s': "stored key h (m\<lparr>res_pool := p\<rparr>) (x # fl) L" using i(2) by (auto simp: stored_def)
  have "contents h (m\<lparr>res_pool := p\<rparr>) k = contents h m k" for k
  proof (rule contents_eqI[OF s'])
    fix r
    show "contents h m k = Some r \<longleftrightarrow> (\<exists>y \<in> L. key (item (m\<lparr>res_pool := p\<rparr>) y) = k \<and> r = (item (m\<lparr>res_pool := p\<rparr>) y)\<lparr>nxt := 0\<rparr>)"
      unfolding contents_Some[OF s] by (intro bex_cong) (simp_all add: itL)
  qed
  then show ?thesis using e s' unfolding q_def[symmetric] by blast
qed

lemma store_remove:
  assumes s: "stored key h m fl L" and x: "x \<in> L"
  shows "\<exists>m'. drc_res_map_remove m (h (key (item m x))) (key (item m x)) = Some m' \<and>
           bucket_num m' = bucket_num m \<and> x < item_num (res_pool m') \<and> x \<notin> set fl \<and>
           (\<forall>y. (item m' y)\<lparr>nxt := 0\<rparr> = (item m y)\<lparr>nxt := 0\<rparr>) \<and>
           stored key h m' fl (L - {x}) \<and> contents h m' = (contents h m)(key (item m x) := None)"
proof -
  let ?k = "key (item m x)"
  obtain bl where i: "map_inv key h m fl bl" "L = {x. \<exists>b. x \<in> set (bl b)}" using s by (auto simp: stored_def)
  have look: "drc_res_map_lookup m (h ?k) ?k = Some (Some x)" using stored_lookup(1)[OF s] x by simp
  from map_remove_inv[OF i(1) look] obtain nx bks m' where
    m': "m' = m\<lparr>res_pool := (res_pool m)\<lparr>items := (\<lambda>i. (item m i)\<lparr>nxt := nx i\<rparr>)\<rparr>, buckets := bks\<rparr>" and
    d: "drc_res_map_remove m (h ?k) ?k = Some m'" "map_inv key h m' fl (bl(h ?k := remove1 x (bl (h ?k))))" by blast
  let ?bl = "bl(h ?k := remove1 x (bl (h ?k)))"
  have it: "item m' y = (item m y)\<lparr>nxt := nx y\<rparr>" for y by (simp add: m')
  have xl: "x < item_num (res_pool m)" "x \<notin> set fl" using storedD(2,3)[OF s x] by simp_all
  have dist: "distinct (bl b)" for b using map_invD(3)[OF i(1), of b] by (simp add: chain_inv_def)
  have xb: "x \<in> set (bl b) \<longleftrightarrow> b = h ?k" for b
  proof -
    have hb: "h ?k = c" if "x \<in> set (bl c)" for c using map_invD(3)[OF i(1), of c] that by (simp add: chain_inv_def)
    obtain c where "x \<in> set (bl c)" using x i(2) by blast
    then show ?thesis using hb by auto
  qed
  have "(\<exists>b. y \<in> set (?bl b)) \<longleftrightarrow> y \<noteq> x \<and> (\<exists>b. y \<in> set (bl b))" for y
    using xb dist by (intro members_remove1_upd) simp_all
  then have "L - {x} = {y. \<exists>b. y \<in> set (?bl b)}" unfolding i(2) by (simp only:) auto
  then have s': "stored key h m' fl (L - {x})" using d(2) unfolding stored_def by blast
  have "contents h m' k = ((contents h m)(?k := None)) k" for k
  proof (rule contents_eqI[OF s'])
    fix r
    have "(\<exists>y \<in> L - {x}. key (item m' y) = k \<and> r = (item m' y)\<lparr>nxt := 0\<rparr>) \<longleftrightarrow> (\<exists>y \<in> L - {x}. key (item m y) = k \<and> r = (item m y)\<lparr>nxt := 0\<rparr>)"
      by (simp add: it)
    also have "\<dots> \<longleftrightarrow> k \<noteq> ?k \<and> contents h m k = Some r"
      unfolding contents_Some[OF s] using storedD(4)[OF s _ x] by auto
    finally show "((contents h m)(?k := None)) k = Some r \<longleftrightarrow> (\<exists>y \<in> L - {x}. key (item m' y) = k \<and> r = (item m' y)\<lparr>nxt := 0\<rparr>)" by auto
  qed
  then show ?thesis using d(1) s' xl by (intro exI[of _ m']) (auto simp: it, auto simp: m')
qed

end

end
