(* ===== verification/Drc_Txn.thy ===== *)
theory Drc_Txn
  imports Drc_Env Drc_Store
begin

text \<open>
  Waiting for a transaction of another instance (\<open>dtc_drc.c\<close> and the end of \<open>dtc_dls.c\<close>). The
  instance that runs a transaction keeps in \<open>txn_res_map\<close>, per transaction, the bitmap of the
  instances that wait for it; when the transaction ends it sends each of them a wake-up and forgets
  the transaction. An instance that waits keeps in \<open>local_txn_map\<close> the condition its session
  sleeps on. What the transaction manager answers (\<open>tx_get_info\<close>, \<open>tx_get_snapshot\<close>), what a message
  exchange returns and whether a condition was signalled in time are arguments; the messages and
  signals an operation sends are returned by it.
\<close>

section \<open>Data\<close>

type_synonym xid_t = uint64

definition xid_seg_id :: "xid_t \<Rightarrow> uint16" where
  "xid_seg_id xid = ucast xid"

definition xid_slot :: "xid_t \<Rightarrow> uint16" where
  "xid_slot xid = ucast (drop_bit 16 xid)"

definition xid_xnum :: "xid_t \<Rightarrow> uint32" where
  "xid_xnum xid = ucast (drop_bit 32 xid)"

definition xid_bytes :: "xid_t \<Rightarrow> uint8 list" where
  "xid_bytes xid = map (\<lambda>n. ucast (drop_bit (8 * n) xid)) [0..<8]"

record drc_txn_res_t = drc_block_header +
  txn_idx :: uint32
  txn_res_id :: xid_t
  ins_map :: uint64
  is_cond_inited :: bool

type_synonym txn_map_t = "(xid_t, drc_txn_res_t) drc_res_map"

definition zero_txn_res :: drc_txn_res_t where
  "zero_txn_res = \<lparr>nxt = 0, txn_idx = 0, txn_res_id = 0, ins_map = 0, is_cond_inited = False\<rparr>"

definition is_same_txn :: "xid_t \<Rightarrow> drc_txn_res_t \<Rightarrow> bool" where
  "is_same_txn xid txn \<longleftrightarrow> txn_res_id txn = xid"

record drc_txn_ctx =
  txn_res_map :: txn_map_t
  local_txn_map :: txn_map_t
  deposit_id :: "uint8 \<Rightarrow> uint32"

datatype drc_res_type_e =
  DRC_RES_INVALID_TYPE | DRC_RES_PAGE_TYPE | DRC_RES_LOCK_TYPE | DRC_RES_LOCAL_LOCK_TYPE
| DRC_RES_TXN_TYPE | DRC_RES_LOCAL_TXN_TYPE | DRC_RES_LOCK_ITEM_TYPE

section \<open>The instance that runs a transaction\<close>

text \<open>An index of the map of \<open>CT_MAX_INSTANCES\<close> entries past its end is undefined.\<close>

definition drc_deposit_map_init :: "'c drc_txn_ctx_scheme \<Rightarrow> 'c drc_txn_ctx_scheme" where
  "drc_deposit_map_init ctx = ctx\<lparr>deposit_id := (\<lambda>i. if i < CT_MAX_INSTANCES then ucast i else deposit_id ctx i)\<rparr>"

definition drc_get_deposit_id :: "'c drc_txn_ctx_scheme \<Rightarrow> uint8 \<Rightarrow> uint8 option" where
  "drc_get_deposit_id ctx inst =
     (if inst > CT_MAX_INSTANCES then Some CT_INVALID_ID8
      else if inst = CT_MAX_INSTANCES then None
      else Some (ucast (deposit_id ctx inst)))"

definition drc_set_deposit_id :: "'c drc_txn_ctx_scheme \<Rightarrow> uint8 \<Rightarrow> uint8 \<Rightarrow> 'c drc_txn_ctx_scheme option" where
  "drc_set_deposit_id ctx inst deposit =
     (if inst < CT_MAX_INSTANCES then Some (ctx\<lparr>deposit_id := (deposit_id ctx)(inst := ucast deposit)\<rparr>) else None)"

fun drc_set_deposit_ids :: "'c drc_txn_ctx_scheme \<Rightarrow> uint8 list \<Rightarrow> (uint8 \<Rightarrow> uint8) \<Rightarrow> 'c drc_txn_ctx_scheme option" where
  "drc_set_deposit_ids ctx [] f = Some ctx"
| "drc_set_deposit_ids ctx (i # is) f = do { ctx \<leftarrow> drc_set_deposit_id ctx i (f i); drc_set_deposit_ids ctx is f }"

record reform_info_t =
  reform_master_id :: uint8
  list_leave :: "uint8 list"
  list_abort :: "uint8 list"
  list_join :: "uint8 list"
  list_fail :: "uint8 list"

definition drc_remaster_inst_list :: "'c drc_txn_ctx_scheme \<Rightarrow> reform_info_t \<Rightarrow> 'c drc_txn_ctx_scheme option" where
  "drc_remaster_inst_list ctx info =
     do { ctx \<leftarrow> drc_set_deposit_ids ctx (list_leave info) (\<lambda>_. reform_master_id info);
          ctx \<leftarrow> drc_set_deposit_ids ctx (list_abort info) (\<lambda>_. reform_master_id info);
          ctx \<leftarrow> drc_set_deposit_ids ctx (list_join info) (\<lambda>i. i);
          drc_set_deposit_ids ctx (list_fail info) (\<lambda>_. reform_master_id info) }"

abbreviation CT_MAX_UNDO_SEGMENT :: uint32 where "CT_MAX_UNDO_SEGMENT \<equiv> 1024"

definition XID_INST_ID :: "xid_t \<Rightarrow> uint8" where
  "XID_INST_ID xid = ucast ((ucast (xid_seg_id xid) :: uint32) div CT_MAX_UNDO_SEGMENT)"

definition xid_get_inst_id :: "uint8 \<Rightarrow> 'c drc_txn_ctx_scheme \<Rightarrow> xid_t \<Rightarrow> uint8 option" where
  "xid_get_inst_id self ctx xid =
     (let inst = XID_INST_ID xid in if inst = self then Some inst else drc_get_deposit_id ctx inst)"

section \<open>Transaction resources\<close>

definition drc_txn_map :: "'c drc_txn_ctx_scheme \<Rightarrow> drc_res_type_e \<Rightarrow> txn_map_t" where
  "drc_txn_map ctx type = (if type = DRC_RES_LOCAL_TXN_TYPE then local_txn_map ctx else txn_res_map ctx)"

definition drc_set_txn_map :: "'c drc_txn_ctx_scheme \<Rightarrow> drc_res_type_e \<Rightarrow> txn_map_t \<Rightarrow> 'c drc_txn_ctx_scheme" where
  "drc_set_txn_map ctx type m =
     (if type = DRC_RES_LOCAL_TXN_TYPE then ctx\<lparr>local_txn_map := m\<rparr> else ctx\<lparr>txn_res_map := m\<rparr>)"

text \<open>The result is the index of the new resource, or \<open>None\<close> for the null pointer.\<close>

definition drc_create_txn_res ::
  "'c drc_txn_ctx_scheme \<Rightarrow> xid_t \<Rightarrow> drc_res_type_e \<Rightarrow> (uint32 option \<times> 'c drc_txn_ctx_scheme) option" where
  "drc_create_txn_res ctx xid type =
     (let m = drc_txn_map ctx type in
      do { (item_idx, pool) \<leftarrow> drc_res_pool_alloc_item (res_pool m);
           let m = m\<lparr>res_pool := pool\<rparr>;
           if item_idx = CT_INVALID_ID32 then Some (None, drc_set_txn_map ctx type m)
           else do {
             r \<leftarrow> DRC_GET_RES_ADDR_BY_ID (res_pool m) item_idx;
             let r = r\<lparr>txn_idx := item_idx, txn_res_id := xid, ins_map := 0, is_cond_inited := True\<rparr>;
             bucket \<leftarrow> drc_get_res_map_bucket m (xid_bytes xid);
             let (n, bkt) = drc_res_map_add (buckets m bucket) item_idx;
             pool \<leftarrow> drc_res_put (res_pool m) item_idx (r\<lparr>nxt := n\<rparr>);
             Some (Some item_idx, drc_set_txn_map ctx type (m\<lparr>res_pool := pool, buckets := (buckets m)(bucket := bkt)\<rparr>)) } })"

definition drc_release_txn_res :: "'c drc_txn_ctx_scheme \<Rightarrow> uint32 \<Rightarrow> (status_t \<times> 'c drc_txn_ctx_scheme) option" where
  "drc_release_txn_res ctx x =
     (let m = txn_res_map ctx in
      do { r \<leftarrow> DRC_GET_RES_ADDR_BY_ID (res_pool m) x;
           pool \<leftarrow> drc_res_put (res_pool m) x zero_txn_res;
           pool \<leftarrow> drc_res_pool_free_item pool (txn_idx r);
           Some (CT_SUCCESS, ctx\<lparr>txn_res_map := m\<lparr>res_pool := pool\<rparr>\<rparr>) })"

definition drc_release_local_txn_res :: "'c drc_txn_ctx_scheme \<Rightarrow> uint32 \<Rightarrow> (status_t \<times> 'c drc_txn_ctx_scheme) option" where
  "drc_release_local_txn_res ctx x =
     (let m = local_txn_map ctx in
      do { r \<leftarrow> DRC_GET_RES_ADDR_BY_ID (res_pool m) x;
           pool \<leftarrow> drc_res_put (res_pool m) x (r\<lparr>ins_map := 0\<rparr>);
           pool \<leftarrow> drc_res_pool_free_item pool (txn_idx r);
           Some (CT_SUCCESS, ctx\<lparr>local_txn_map := m\<lparr>res_pool := pool\<rparr>\<rparr>) })"

text \<open>The lookup all handlers begin with; \<open>None\<close> inside is the null pointer.\<close>

definition txn_lookup :: "txn_map_t \<Rightarrow> xid_t \<Rightarrow> (uint32 \<times> uint32 option) option" where
  "txn_lookup m xid =
     do { bucket \<leftarrow> drc_get_res_map_bucket m (xid_bytes xid);
          found \<leftarrow> drc_res_map_lookup m bucket xid;
          Some (bucket, found) }"

definition drc_enqueue_txn :: "'c drc_txn_ctx_scheme \<Rightarrow> xid_t \<Rightarrow> uint8 \<Rightarrow> 'c drc_txn_ctx_scheme option" where
  "drc_enqueue_txn ctx xid ins_id =
     do { (bucket, found) \<leftarrow> txn_lookup (txn_res_map ctx) xid;
          (found, ctx) \<leftarrow> (case found of
              None \<Rightarrow> drc_create_txn_res ctx xid DRC_RES_TXN_TYPE
            | Some x \<Rightarrow> Some (Some x, ctx));
          x \<leftarrow> found;
          r \<leftarrow> DRC_GET_RES_ADDR_BY_ID (res_pool (txn_res_map ctx)) x;
          g \<leftarrow> drc_bitmap64_set (ins_map r) ins_id;
          pool \<leftarrow> drc_res_put (res_pool (txn_res_map ctx)) x (r\<lparr>ins_map := g\<rparr>);
          Some (ctx\<lparr>txn_res_map := (txn_res_map ctx)\<lparr>res_pool := pool\<rparr>\<rparr>) }"

text \<open>The instances \<open>i\<close>, \<open>i + 1\<close>, ... of the bitmap that are sent a message, \<open>k\<close> of them looked at.\<close>

fun drc_release_txn_loop :: "nat \<Rightarrow> uint8 \<Rightarrow> uint64 \<Rightarrow> uint8 \<Rightarrow> uint8 list option" where
  "drc_release_txn_loop 0 self bm i = Some []"
| "drc_release_txn_loop (Suc k) self bm i =
     do { ex \<leftarrow> drc_bitmap64_exist bm i;
          rest \<leftarrow> drc_release_txn_loop k self bm (i + 1);
          Some (if ex \<and> self \<noteq> i then i # rest else rest) }"

text \<open>The wake-ups, in the order they are sent: transaction, scn, destination.\<close>

type_synonym awake_msg = "xid_t \<times> uint64 \<times> uint8"

definition drc_release_txn ::
  "uint8 \<Rightarrow> 'c drc_txn_ctx_scheme \<Rightarrow> xid_t \<Rightarrow> uint64 \<Rightarrow> (awake_msg list \<times> 'c drc_txn_ctx_scheme) option" where
  "drc_release_txn self ctx xid scn =
     do { (bucket, found) \<leftarrow> txn_lookup (txn_res_map ctx) xid;
          case found of
            None \<Rightarrow> Some ([], ctx)
          | Some x \<Rightarrow>
              do { r \<leftarrow> DRC_GET_RES_ADDR_BY_ID (res_pool (txn_res_map ctx)) x;
                   dests \<leftarrow> drc_release_txn_loop 64 self (ins_map r) 0;
                   m \<leftarrow> drc_res_map_remove (txn_res_map ctx) bucket xid;
                   (_, ctx) \<leftarrow> drc_release_txn_res (ctx\<lparr>txn_res_map := m\<rparr>) x;
                   Some (map (\<lambda>d. (xid, scn, d)) dests, ctx) } }"

text \<open>Whether \<open>cm_wait_cond\<close> was signalled before its timeout is the argument \<open>signalled\<close>.\<close>

definition drc_local_txn_wait ::
  "'c drc_txn_ctx_scheme \<Rightarrow> xid_t \<Rightarrow> bool \<Rightarrow> (bool \<times> 'c drc_txn_ctx_scheme) option" where
  "drc_local_txn_wait ctx xid signalled =
     do { (bucket, found) \<leftarrow> txn_lookup (local_txn_map ctx) xid;
          (found, ctx) \<leftarrow> (case found of
              None \<Rightarrow> drc_create_txn_res ctx xid DRC_RES_LOCAL_TXN_TYPE
            | Some x \<Rightarrow> Some (Some x, ctx));
          _ \<leftarrow> found;
          Some (signalled, ctx) }"

definition drc_local_txn_recyle :: "'c drc_txn_ctx_scheme \<Rightarrow> xid_t \<Rightarrow> 'c drc_txn_ctx_scheme option" where
  "drc_local_txn_recyle ctx xid =
     do { (bucket, found) \<leftarrow> txn_lookup (local_txn_map ctx) xid;
          case found of
            None \<Rightarrow> Some ctx
          | Some x \<Rightarrow>
              do { m \<leftarrow> drc_res_map_remove (local_txn_map ctx) bucket xid;
                   (_, ctx) \<leftarrow> drc_release_local_txn_res (ctx\<lparr>local_txn_map := m\<rparr>) x;
                   Some ctx } }"

text \<open>The resource whose condition is signalled, if there is one.\<close>

definition drc_local_txn_awake :: "'c drc_txn_ctx_scheme \<Rightarrow> xid_t \<Rightarrow> uint32 option option" where
  "drc_local_txn_awake ctx xid = do { (bucket, found) \<leftarrow> txn_lookup (local_txn_map ctx) xid; Some found }"

section \<open>The service\<close>

record txn_info_t =
  txn_ended :: bool \<comment> \<open>status is \<open>XACT_END\<close>\<close>
  txn_scn :: uint64

datatype dls_txn_reply = DLS_REMOTE_TXN_WAIT | DLS_REMOTE_TXN_END

text \<open>
  The owner's handler of a wait request, after its checks of the message: \<open>info1\<close> and \<open>info2\<close> are
  what the two calls of \<open>tx_get_info\<close> return, \<open>curr_scn\<close> is \<open>DB_CURR_SCN\<close>.
\<close>

definition dls_txn_recheck ::
  "uint8 \<Rightarrow> 'c drc_txn_ctx_scheme \<Rightarrow> xid_t \<Rightarrow> txn_info_t \<Rightarrow> uint64
     \<Rightarrow> (dls_txn_reply \<times> uint64 \<times> awake_msg list \<times> 'c drc_txn_ctx_scheme) option" where
  "dls_txn_recheck self ctx xid info2 curr_scn =
     (if txn_ended info2
      then do { (msgs, ctx) \<leftarrow> drc_release_txn self ctx xid curr_scn; Some (DLS_REMOTE_TXN_END, txn_scn info2, msgs, ctx) }
      else Some (DLS_REMOTE_TXN_WAIT, CT_INVALID_ID64, [], ctx))"

record txn_msg =
  txn_msg_size_ok :: bool
  txn_msg_xid :: xid_t
  txn_msg_src :: uint8

abbreviation UNDO_MAX_TXN_PAGE :: uint32 where "UNDO_MAX_TXN_PAGE \<equiv> 64"

text \<open>The outer result \<open>None\<close> in the pair is a message that is dropped without an answer.\<close>

definition dls_process_txn_wait ::
  "uint8 \<Rightarrow> uint32 \<Rightarrow> 'c drc_txn_ctx_scheme \<Rightarrow> txn_msg \<Rightarrow> txn_info_t \<Rightarrow> txn_info_t \<Rightarrow> uint64
     \<Rightarrow> ((dls_txn_reply \<times> uint64) option \<times> awake_msg list \<times> 'c drc_txn_ctx_scheme) option" where
  "dls_process_txn_wait self txn_per_page ctx msg info1 info2 curr_scn =
     (if \<not> txn_msg_size_ok msg then Some (None, [], ctx)
      else if txn_per_page = 0 then None
      else if (ucast (xid_slot (txn_msg_xid msg)) :: uint32) div txn_per_page \<ge> UNDO_MAX_TXN_PAGE then Some (None, [], ctx)
      else do {
        inst \<leftarrow> xid_get_inst_id self ctx (txn_msg_xid msg);
        if inst \<noteq> self \<or> txn_msg_src msg \<ge> CT_MAX_INSTANCES then Some (None, [], ctx)
        else if txn_ended info1 then Some (Some (DLS_REMOTE_TXN_END, txn_scn info1), [], ctx)
        else do {
          ctx \<leftarrow> drc_enqueue_txn ctx (txn_msg_xid msg) (txn_msg_src msg);
          (ret, scn, msgs, ctx) \<leftarrow> dls_txn_recheck self ctx (txn_msg_xid msg) info2 curr_scn;
          Some (Some (ret, scn), msgs, ctx) } })"

text \<open>The result is the signalled resource and the scn the instance moves up to.\<close>

definition dtc_update_scn :: "uint64 \<Rightarrow> uint64 \<Rightarrow> uint64" where
  "dtc_update_scn cur_scn lamport_scn = (if cur_scn \<ge> lamport_scn then cur_scn else lamport_scn)"

definition dls_process_txn_awake ::
  "'c drc_txn_ctx_scheme \<Rightarrow> uint64 \<Rightarrow> bool \<Rightarrow> xid_t \<Rightarrow> uint64 \<Rightarrow> (uint32 option \<times> uint64) option" where
  "dls_process_txn_awake ctx curr_scn size_ok xid scn =
     (if \<not> size_ok then Some (None, curr_scn)
      else do { woken \<leftarrow> drc_local_txn_awake ctx xid; Some (woken, dtc_update_scn curr_scn scn) })"

text \<open>
  The request of a waiting session: \<open>recv\<close> is what the owner answers, \<open>None\<close> when sending or receiving
  fails; the end of the transaction brings its scn along.
\<close>

definition dls_request_txn_msg :: "uint64 \<Rightarrow> (dls_txn_reply \<times> uint64) option \<Rightarrow> dls_txn_reply option \<times> uint64" where
  "dls_request_txn_msg curr_scn recv =
     (case recv of
        None \<Rightarrow> (None, curr_scn)
      | Some (ret, scn) \<Rightarrow> (Some ret, if ret = DLS_REMOTE_TXN_END then dtc_update_scn curr_scn scn else curr_scn))"

text \<open>The waiting session; \<open>snap\<close> is the snapshot it reads after the wait.\<close>

record txn_snapshot_t =
  snap_xnum :: uint32
  snap_ended :: bool

definition txn_snapshot_over :: "txn_snapshot_t \<Rightarrow> xid_t \<Rightarrow> bool" where
  "txn_snapshot_over snap xid \<longleftrightarrow> snap_xnum snap \<noteq> xid_xnum xid \<or> snap_ended snap"

definition dls_wait_txn ::
  "uint8 \<Rightarrow> 'c drc_txn_ctx_scheme \<Rightarrow> uint64 \<Rightarrow> xid_t \<Rightarrow> (uint8 \<Rightarrow> (dls_txn_reply \<times> uint64) option) \<Rightarrow> bool \<Rightarrow> txn_snapshot_t
     \<Rightarrow> (bool \<times> uint64 \<times> 'c drc_txn_ctx_scheme) option" where
  "dls_wait_txn self ctx curr_scn wxid ask signalled snap =
     (if XID_INST_ID wxid = self then Some (signalled \<and> txn_snapshot_over snap wxid, curr_scn, ctx)
      else do {
        inst \<leftarrow> xid_get_inst_id self ctx wxid;
        let (ret, curr_scn) = dls_request_txn_msg curr_scn (ask inst);
        if ret = Some DLS_REMOTE_TXN_END then Some (True, curr_scn, ctx)
        else if ret = Some DLS_REMOTE_TXN_WAIT then
          do { (sig, ctx) \<leftarrow> drc_local_txn_wait ctx wxid signalled;
               Some (sig \<and> txn_snapshot_over snap wxid, curr_scn, ctx) }
        else Some (False, curr_scn, ctx) })"

definition dls_wait_txn_recyle :: "uint8 \<Rightarrow> 'c drc_txn_ctx_scheme \<Rightarrow> xid_t \<Rightarrow> 'c drc_txn_ctx_scheme option" where
  "dls_wait_txn_recyle self ctx wxid =
     do { inst \<leftarrow> xid_get_inst_id self ctx wxid;
          if inst = self then Some ctx else drc_local_txn_recyle ctx wxid }"

text \<open>The condition of the local waiters is always signalled.\<close>

definition dls_release_txn ::
  "uint8 \<Rightarrow> bool \<Rightarrow> 'c drc_txn_ctx_scheme \<Rightarrow> xid_t \<Rightarrow> uint64 \<Rightarrow> (awake_msg list \<times> 'c drc_txn_ctx_scheme) option" where
  "dls_release_txn self is_cluster ctx xid scn =
     (if is_cluster then drc_release_txn self ctx xid scn else Some ([], ctx))"

end
