(* ===== verification/Drc_Txn_Props.thy ===== *)
theory Drc_Txn_Props
  imports Drc_Txn
begin

text \<open>
  What the operations on waiting transactions do: the map of a transaction's waiters refines a
  function from transactions to sets of instances, a wake-up is never lost however the handlers
  interleave with the end of the transaction, and releasing wakes exactly those who were entered.
\<close>

section \<open>What the maps hold\<close>

definition xid_hash :: "uint32 \<Rightarrow> xid_t \<Rightarrow> uint32" where
  "xid_hash n xid = drc_resource_id_hash_loop 0 (xid_bytes xid) mod n"

abbreviation txn_contents :: "txn_map_t \<Rightarrow> xid_t \<Rightarrow> drc_txn_res_t option" where
  "txn_contents m \<equiv> contents (xid_hash (bucket_num m)) m"

abbreviation txn_stored :: "txn_map_t \<Rightarrow> uint32 list \<Rightarrow> uint32 set \<Rightarrow> bool" where
  "txn_stored m \<equiv> stored txn_res_id (xid_hash (bucket_num m)) m"

definition txn_rep :: "txn_map_t \<Rightarrow> uint32 list \<Rightarrow> uint32 set \<Rightarrow> bool" where
  "txn_rep m fl L \<longleftrightarrow> bucket_num m \<noteq> 0 \<and> txn_stored m fl L \<and> (\<forall>x \<in> L. txn_idx (item m x) = x)"

definition txn_ok :: "txn_map_t \<Rightarrow> bool" where
  "txn_ok m \<longleftrightarrow> (\<exists>fl L. txn_rep m fl L)"

text \<open>The instances that wait for a transaction.\<close>

definition waiters :: "txn_map_t \<Rightarrow> xid_t \<Rightarrow> uint8 set" where
  "waiters m xid = (case txn_contents m xid of None \<Rightarrow> {} | Some r \<Rightarrow> insts (ins_map r))"

interpretation tx: keyed_res txn_res_id
  by unfold_locales simp

lemma xid_bucket: "bucket_num m \<noteq> 0 \<Longrightarrow> drc_get_res_map_bucket m (xid_bytes xid) = Some (xid_hash (bucket_num m) xid)"
  by (simp add: drc_get_res_map_bucket_def drc_resource_id_hash_def xid_hash_def)

lemma txn_repD:
  assumes "txn_rep m fl L"
  shows "bucket_num m \<noteq> 0" "txn_stored m fl L" "x \<in> L \<Longrightarrow> txn_idx (item m x) = x"
  using assms by (auto simp: txn_rep_def)

lemma txn_cases:
  assumes "txn_rep m fl L"
  obtains (none) "txn_lookup m xid = Some (xid_hash (bucket_num m) xid, None)" "txn_contents m xid = None" "waiters m xid = {}"
  | (some) x where "txn_lookup m xid = Some (xid_hash (bucket_num m) xid, Some x)" "x \<in> L" "txn_res_id (item m x) = xid"
      "txn_contents m xid = Some ((item m x)\<lparr>nxt := 0\<rparr>)" "waiters m xid = insts (ins_map (item m x))"
      "DRC_GET_RES_ADDR_BY_ID (res_pool m) x = Some (item m x)"
proof (rule stored_cases[OF txn_repD(2)[OF assms], of xid])
  assume "drc_res_map_lookup m (xid_hash (bucket_num m) xid) xid = Some None" "txn_contents m xid = None"
  then show thesis by (intro none) (simp_all add: txn_lookup_def xid_bucket[OF txn_repD(1)[OF assms]] waiters_def)
next
  fix x
  assume a: "drc_res_map_lookup m (xid_hash (bucket_num m) xid) xid = Some (Some x)" "txn_contents m xid = Some ((item m x)\<lparr>nxt := 0\<rparr>)"
    "x \<in> L" "txn_res_id (item m x) = xid"
  then show thesis
    using storedD(2)[OF txn_repD(2)[OF assms] a(3)]
    by (intro some[of x]) (simp_all add: txn_lookup_def xid_bucket[OF txn_repD(1)[OF assms]] waiters_def)
qed

lemma waiters_upd:
  assumes "txn_contents m' = (txn_contents m)(xid := v)"
  shows "waiters m' = (waiters m)(xid := (case v of None \<Rightarrow> {} | Some r \<Rightarrow> insts (ins_map r)))"
  using assms by (auto simp: waiters_def fun_eq_iff)

section \<open>Creating and releasing\<close>

text \<open>Both maps are created into alike; \<open>put\<close> stores the map back into the context.\<close>

lemma create_txn_full:
  assumes "txn_rep (drc_txn_map ctx type) [] L"
  shows "drc_create_txn_res ctx xid type = Some (None, ctx)"
proof -
  have "drc_set_txn_map ctx type ((drc_txn_map ctx type)\<lparr>res_pool := res_pool (drc_txn_map ctx type)\<rparr>) = ctx"
    by (simp add: drc_set_txn_map_def drc_txn_map_def)
  then show ?thesis using tx.store_full[OF txn_repD(2)[OF assms]] by (simp add: drc_create_txn_res_def)
qed

lemma create_txn_spec:
  assumes rep: "txn_rep (drc_txn_map ctx type) (x # fl) L" and new: "txn_contents (drc_txn_map ctx type) xid = None"
  shows "\<exists>m' r. drc_create_txn_res ctx xid type = Some (Some x, drc_set_txn_map ctx type m') \<and> txn_rep m' fl (insert x L) \<and>
           bucket_num m' = bucket_num (drc_txn_map ctx type) \<and> txn_contents m' = (txn_contents (drc_txn_map ctx type))(xid \<mapsto> r) \<and>
           ins_map r = 0 \<and> DRC_GET_RES_ADDR_BY_ID (res_pool m') x = Some (item m' x) \<and> txn_res_id (item m' x) = xid \<and> ins_map (item m' x) = 0"
proof -
  define m where "m = drc_txn_map ctx type"
  let ?h = "xid_hash (bucket_num m)"
  define r where "r = (item m x)\<lparr>txn_idx := x, txn_res_id := xid, ins_map := 0, is_cond_inited := True\<rparr>"
  note st = txn_repD(2)[OF rep[folded m_def]]
  have k: "txn_res_id r = xid" by (simp add: r_def)
  have nw: "contents ?h m (txn_res_id r) = None" using new by (simp add: m_def k)
  note c = tx.store_create[OF st nw, unfolded k]
  obtain n bkt where nb: "drc_res_map_add (buckets m (?h xid)) x = (n, bkt)" by fastforce
  define p where "p = (res_pool m)\<lparr>free_list := nxt (item m x), used_num := used_num (res_pool m) + 1\<rparr>"
  define m' where "m' = m\<lparr>res_pool := p\<lparr>items := (items p)(x := r\<lparr>nxt := n\<rparr>)\<rparr>, buckets := (buckets m)(?h xid := bkt)\<rparr>"
  have d: "drc_res_pool_alloc_item (res_pool m) = Some (x, p)" "x < item_num p" "x \<notin> L" "stored txn_res_id ?h m' fl (insert x L)"
    "contents ?h m' = (contents ?h m)(xid \<mapsto> r\<lparr>nxt := 0\<rparr>)"
    using c unfolding nb p_def[symmetric] m'_def by simp_all
  have b: "bucket_num m \<noteq> 0" by (rule txn_repD(1)[OF rep[folded m_def]])
  have x: "x \<noteq> CT_INVALID_ID32" using d(2) by (rule below_neq_invalid)
  have px: "items p x = item m x" by (simp add: p_def)
  have "drc_create_txn_res ctx xid type = Some (Some x, drc_set_txn_map ctx type m')"
    using d(1,2) x b nb xid_bucket[of "m\<lparr>res_pool := p\<rparr>" xid] px
    by (simp add: drc_create_txn_res_def m_def[symmetric] m'_def r_def Let_def)
  moreover have "txn_rep m' fl (insert x L)"
    using d(4) b txn_repD(3)[OF rep[folded m_def]] d(3) unfolding txn_rep_def by (auto simp: m'_def p_def r_def)
  moreover have "x < item_num (res_pool m')" "item m' x = r\<lparr>nxt := n\<rparr>" "bucket_num m' = bucket_num m" using d(2) by (simp_all add: m'_def)
  ultimately show ?thesis using d(5) unfolding m_def
    by (intro exI[of _ m'] exI[of _ "r\<lparr>nxt := 0\<rparr>"]) (simp add: k, simp add: r_def)
qed

lemma release_loop_eq:
  assumes "unat i + k \<le> 64"
  shows "drc_release_txn_loop k self bm i = Some (filter (\<lambda>j. j \<in> insts bm \<and> self \<noteq> j) (map of_nat [unat i..<unat i + k]))"
  using assms
proof (induction k arbitrary: i)
  case 0
  then show ?case by simp
next
  case (Suc k)
  have l: "i < CT_MAX_INSTANCES" using Suc.prems by (simp add: word_less_nat_alt)
  have u: "unat (i + 1) = Suc (unat i)" using Suc.prems by (simp add: unat_word_ariths)
  have ex: "drc_bitmap64_exist bm i = Some (i \<in> insts bm)" using l by (rule drc_bitmap64_simps)
  have "[unat i..<unat i + Suc k] = unat i # [unat (i + 1)..<unat (i + 1) + k]" using u by (simp add: upt_rec del: upt_Suc)
  then have "map of_nat [unat i..<unat i + Suc k] = i # map of_nat [unat (i + 1)..<unat (i + 1) + k]" by (simp del: upt_Suc)
  moreover have "drc_release_txn_loop k self bm (i + 1) =
      Some (filter (\<lambda>j. j \<in> insts bm \<and> self \<noteq> j) (map of_nat [unat (i + 1)..<unat (i + 1) + k]))"
    using Suc.prems u by (intro Suc.IH) simp
  ultimately show ?case using ex by (simp only: drc_release_txn_loop.simps) simp
qed

lemma txn_put:
  assumes rep: "txn_rep m fl L" and x: "x \<in> L"
  shows "\<exists>p. drc_res_put (res_pool m) x ((item m x)\<lparr>ins_map := g\<rparr>) = Some p \<and> txn_rep (m\<lparr>res_pool := p\<rparr>) fl L \<and>
           waiters (m\<lparr>res_pool := p\<rparr>) = (waiters m)(txn_res_id (item m x) := insts g) \<and>
           (\<exists>r. txn_contents (m\<lparr>res_pool := p\<rparr>) = (txn_contents m)(txn_res_id (item m x) \<mapsto> r))"
proof -
  let ?r = "(item m x)\<lparr>ins_map := g\<rparr>"
  define m' where "m' = m\<lparr>res_pool := (res_pool m)\<lparr>items := (items (res_pool m))(x := ?r)\<rparr>\<rparr>"
  have k: "txn_res_id ?r = txn_res_id (item m x)" "nxt ?r = nxt (item m x)" by (simp_all add: drc_txn_res_t.defs)
  note s = tx.store_put[OF txn_repD(2)[OF rep] x k, folded m'_def]
  have "txn_rep m' fl L" using s(2) txn_repD(1,3)[OF rep] by (auto simp: txn_rep_def m'_def)
  moreover have "waiters m' = (waiters m)(txn_res_id (item m x) := insts g)"
    using waiters_upd[of m' m] s(3) by (simp add: m'_def)
  moreover have "\<exists>r. txn_contents m' = (txn_contents m)(txn_res_id (item m x) \<mapsto> r)"
    using s(3) unfolding k by (intro exI[of _ "?r\<lparr>nxt := 0\<rparr>"]) (simp add: m'_def)
  ultimately show ?thesis using s(1) by (intro exI[of _ "res_pool m'"]) (simp add: m'_def)
qed

lemma enqueue_txn_spec:
  assumes rep: "txn_rep (txn_res_map ctx) fl L" and i: "i < CT_MAX_INSTANCES"
    and room: "fl \<noteq> [] \<or> txn_contents (txn_res_map ctx) xid \<noteq> None"
  shows "\<exists>m' fl' L'. drc_enqueue_txn ctx xid i = Some (ctx\<lparr>txn_res_map := m'\<rparr>) \<and> txn_rep m' fl' L' \<and>
           waiters m' = (waiters (txn_res_map ctx))(xid := insert i (waiters (txn_res_map ctx) xid)) \<and>
           (\<exists>r. txn_contents m' = (txn_contents (txn_res_map ctx))(xid \<mapsto> r))"
proof (rule txn_cases[OF rep, of xid])
  fix x
  assume x: "txn_lookup (txn_res_map ctx) xid = Some (xid_hash (bucket_num (txn_res_map ctx)) xid, Some x)" "x \<in> L"
    "txn_res_id (item (txn_res_map ctx) x) = xid" "waiters (txn_res_map ctx) xid = insts (ins_map (item (txn_res_map ctx) x))"
    "DRC_GET_RES_ADDR_BY_ID (res_pool (txn_res_map ctx)) x = Some (item (txn_res_map ctx) x)"
  from txn_put[OF rep x(2), of "bm_set (ins_map (item (txn_res_map ctx) x)) i"] x(3,4) i obtain p where
    p: "drc_res_put (res_pool (txn_res_map ctx)) x ((item (txn_res_map ctx) x)\<lparr>ins_map := bm_set (ins_map (item (txn_res_map ctx) x)) i\<rparr>) = Some p"
      "txn_rep ((txn_res_map ctx)\<lparr>res_pool := p\<rparr>) fl L"
      "waiters ((txn_res_map ctx)\<lparr>res_pool := p\<rparr>) = (waiters (txn_res_map ctx))(xid := insert i (waiters (txn_res_map ctx) xid))"
      "\<exists>r. txn_contents ((txn_res_map ctx)\<lparr>res_pool := p\<rparr>) = (txn_contents (txn_res_map ctx))(xid \<mapsto> r)" by auto
  then show ?thesis using x(1,5) i
    by (intro exI[of _ "(txn_res_map ctx)\<lparr>res_pool := p\<rparr>"] exI[of _ fl] exI[of _ L]) (simp add: drc_enqueue_txn_def panic_simps)
next
  assume n: "txn_lookup (txn_res_map ctx) xid = Some (xid_hash (bucket_num (txn_res_map ctx)) xid, None)" "txn_contents (txn_res_map ctx) xid = None"
    "waiters (txn_res_map ctx) xid = {}"
  have tm: "drc_txn_map ctx DRC_RES_TXN_TYPE = txn_res_map ctx" by (simp add: drc_txn_map_def)
  obtain x fl' where fl: "fl = x # fl'" using room n(2) by (cases fl) auto
  from create_txn_spec[of ctx DRC_RES_TXN_TYPE x fl' L xid, unfolded tm] rep n(2) fl obtain m1 r where
    c: "drc_create_txn_res ctx xid DRC_RES_TXN_TYPE = Some (Some x, ctx\<lparr>txn_res_map := m1\<rparr>)" "txn_rep m1 fl' (insert x L)"
      "txn_contents m1 = (txn_contents (txn_res_map ctx))(xid \<mapsto> r)" "ins_map r = 0"
      "DRC_GET_RES_ADDR_BY_ID (res_pool m1) x = Some (item m1 x)" "txn_res_id (item m1 x) = xid" "ins_map (item m1 x) = 0"
    by (auto simp: drc_set_txn_map_def)
  have w1: "waiters m1 = (waiters (txn_res_map ctx))(xid := {})" using waiters_upd[OF c(3)] c(4) by simp
  have si: "insts (bm_set 0 i) = {i}" using insts_set[OF i, of 0] by (simp only: insts_0)
  from txn_put[OF c(2) insertI1, of "bm_set 0 i", unfolded si c(6)] obtain p where
    p: "drc_res_put (res_pool m1) x ((item m1 x)\<lparr>ins_map := bm_set 0 i\<rparr>) = Some p" "txn_rep (m1\<lparr>res_pool := p\<rparr>) fl' (insert x L)"
      "waiters (m1\<lparr>res_pool := p\<rparr>) = (waiters m1)(xid := {i})"
      "\<exists>r. txn_contents (m1\<lparr>res_pool := p\<rparr>) = (txn_contents m1)(xid \<mapsto> r)" by blast
  have "drc_enqueue_txn ctx xid i = Some (ctx\<lparr>txn_res_map := m1\<lparr>res_pool := p\<rparr>\<rparr>)"
    using n(1) c(1,5) drc_bitmap64_simps(1)[OF i, of 0] p(1) by (simp add: drc_enqueue_txn_def c(7) del: drc_bitmap64_eq_Some)
  then show ?thesis using p(2-4) w1 n(3) c(3)
    by (intro exI[of _ "m1\<lparr>res_pool := p\<rparr>"] exI[of _ fl'] exI[of _ "insert x L"]) simp
qed

lemma enqueue_txn_full:
  assumes "txn_rep (txn_res_map ctx) [] L" "txn_contents (txn_res_map ctx) xid = None"
  shows "drc_enqueue_txn ctx xid i = None"
proof (rule txn_cases[OF assms(1), of xid])
  assume n: "txn_lookup (txn_res_map ctx) xid = Some (xid_hash (bucket_num (txn_res_map ctx)) xid, None)"
  have "drc_create_txn_res ctx xid DRC_RES_TXN_TYPE = Some (None, ctx)"
    using create_txn_full[of ctx DRC_RES_TXN_TYPE L xid] assms(1) by (simp add: drc_txn_map_def)
  then show ?thesis using n by (simp add: drc_enqueue_txn_def)
qed (use assms(2) in simp)

text \<open>The others in a bitmap, in ascending order.\<close>

definition others_of :: "uint8 \<Rightarrow> uint8 set \<Rightarrow> uint8 list" where
  "others_of self I = filter (\<lambda>j. j \<in> I \<and> self \<noteq> j) (map of_nat [0..<64])"

lemma set_others_of:
  assumes "\<And>i. i \<in> I \<Longrightarrow> i < CT_MAX_INSTANCES"
  shows "set (others_of self I) = I - {self}"
proof -
  have "i \<in> of_nat ` {0..<64}" if "i \<in> I" for i
    using assms[OF that] by (intro image_eqI[of _ _ "unat i"]) (simp_all add: word_less_nat_alt)
  then show ?thesis by (auto simp: others_of_def)
qed

lemma sorted_others_of: "sorted_wrt (<) (others_of self I)"
proof -
  have "sorted_wrt (<) (map (of_nat :: nat \<Rightarrow> uint8) [0..<64])"
    unfolding sorted_wrt_map by (rule sorted_wrt_mono_rel[OF _ sorted_wrt_upt]) (simp add: word_less_nat_alt unat_of_nat)
  then show ?thesis unfolding others_of_def by (rule sorted_wrt_filter)
qed

text \<open>Unlinking a transaction and giving its resource back, whatever is left in it.\<close>

lemma txn_drop:
  assumes rep: "txn_rep m fl L" and x: "x \<in> L"
  shows "\<exists>m1. drc_res_map_remove m (xid_hash (bucket_num m) (txn_res_id (item m x))) (txn_res_id (item m x)) = Some m1 \<and>
           DRC_GET_RES_ADDR_BY_ID (res_pool m1) x = Some (item m1 x) \<and> txn_idx (item m1 x) = x \<and>
           (\<forall>z. \<exists>p q. drc_res_put (res_pool m1) x z = Some q \<and> drc_res_pool_free_item q x = Some p \<and>
              txn_rep (m1\<lparr>res_pool := p\<rparr>) (x # fl) (L - {x}) \<and>
              txn_contents (m1\<lparr>res_pool := p\<rparr>) = (txn_contents m)(txn_res_id (item m x) := None))"
proof -
  let ?k = "txn_res_id (item m x)" and ?h = "xid_hash (bucket_num m)"
  from tx.store_remove[OF txn_repD(2)[OF rep] x] obtain m1 where
    r: "drc_res_map_remove m (?h ?k) ?k = Some m1" "bucket_num m1 = bucket_num m" "x < item_num (res_pool m1)"
      "x \<notin> set fl" "\<forall>y. (item m1 y)\<lparr>nxt := 0\<rparr> = (item m y)\<lparr>nxt := 0\<rparr>" "stored txn_res_id ?h m1 fl (L - {x})"
      "contents ?h m1 = (txn_contents m)(?k := None)" by blast
  have ix: "txn_idx (item m1 y) = txn_idx (item m y)" for y
  proof -
    have "txn_idx ((item m1 y)\<lparr>nxt := 0\<rparr>) = txn_idx ((item m y)\<lparr>nxt := 0\<rparr>)" using r(5) by simp
    then show ?thesis by simp
  qed
  have "\<exists>p q. drc_res_put (res_pool m1) x z = Some q \<and> drc_res_pool_free_item q x = Some p \<and>
      txn_rep (m1\<lparr>res_pool := p\<rparr>) (x # fl) (L - {x}) \<and> txn_contents (m1\<lparr>res_pool := p\<rparr>) = (txn_contents m)(?k := None)" for z
  proof -
    define q where "q = (res_pool m1)\<lparr>items := (items (res_pool m1))(x := z)\<rparr>"
    from tx.store_free[OF r(6) _ r(4,3), of z] obtain p where
      f: "drc_res_pool_free_item q x = Some p" "stored txn_res_id ?h (m1\<lparr>res_pool := p\<rparr>) (x # fl) (L - {x})"
        "contents ?h (m1\<lparr>res_pool := p\<rparr>) = contents ?h m1" unfolding q_def by auto
    have it: "items p y = item m1 y" if "y \<noteq> x" for y
      using f(1) r(3) that by (auto simp: q_def drc_res_pool_free_item_def bind_eq_Some_conv split: if_splits)
    have "txn_rep (m1\<lparr>res_pool := p\<rparr>) (x # fl) (L - {x})"
      using f(2) r(2) txn_repD(1,3)[OF rep] it ix by (simp add: txn_rep_def)
    moreover have "drc_res_put (res_pool m1) x z = Some q" using r(3) by (simp add: q_def)
    ultimately show ?thesis using f(1,3) r(2,7) by (intro exI[of _ p] exI[of _ q]) simp
  qed
  then show ?thesis using r(1,3) ix txn_repD(3)[OF rep x] by (intro exI[of _ m1]) simp
qed

lemma release_txn_spec:
  assumes rep: "txn_rep (txn_res_map ctx) fl L"
  shows "\<exists>m' fl' L'. drc_release_txn self ctx xid scn =
             Some (map (\<lambda>d. (xid, scn, d)) (others_of self (waiters (txn_res_map ctx) xid)), ctx\<lparr>txn_res_map := m'\<rparr>) \<and>
           txn_rep m' fl' L' \<and> txn_contents m' = (txn_contents (txn_res_map ctx))(xid := None)"
proof (rule txn_cases[OF rep, of xid])
  assume n: "txn_lookup (txn_res_map ctx) xid = Some (xid_hash (bucket_num (txn_res_map ctx)) xid, None)" "txn_contents (txn_res_map ctx) xid = None"
    "waiters (txn_res_map ctx) xid = {}"
  have "others_of self {} = []" by (simp add: others_of_def)
  moreover have "txn_contents (txn_res_map ctx) = (txn_contents (txn_res_map ctx))(xid := None)" using n(2) by (simp add: fun_eq_iff)
  ultimately show ?thesis using n rep
    by (intro exI[of _ "txn_res_map ctx"] exI[of _ fl] exI[of _ L]) (simp add: drc_release_txn_def)
next
  let ?m = "txn_res_map ctx"
  fix x
  assume x: "txn_lookup ?m xid = Some (xid_hash (bucket_num ?m) xid, Some x)" "x \<in> L" "txn_res_id (item ?m x) = xid"
    "waiters ?m xid = insts (ins_map (item ?m x))" "DRC_GET_RES_ADDR_BY_ID (res_pool ?m) x = Some (item ?m x)"
  from txn_drop[OF rep x(2), unfolded x(3)] obtain m1 where
    r: "drc_res_map_remove ?m (xid_hash (bucket_num ?m) xid) xid = Some m1" "DRC_GET_RES_ADDR_BY_ID (res_pool m1) x = Some (item m1 x)"
      "txn_idx (item m1 x) = x" and z: "\<forall>z. \<exists>p q. drc_res_put (res_pool m1) x z = Some q \<and> drc_res_pool_free_item q x = Some p \<and>
        txn_rep (m1\<lparr>res_pool := p\<rparr>) (x # fl) (L - {x}) \<and> txn_contents (m1\<lparr>res_pool := p\<rparr>) = (txn_contents ?m)(xid := None)"
    by (elim exE conjE) (rule that)
  from z[THEN spec, of zero_txn_res] obtain p q where
    f: "drc_res_put (res_pool m1) x zero_txn_res = Some q" "drc_res_pool_free_item q x = Some p"
      "txn_rep (m1\<lparr>res_pool := p\<rparr>) (x # fl) (L - {x})" "txn_contents (m1\<lparr>res_pool := p\<rparr>) = (txn_contents ?m)(xid := None)"
    by (elim exE conjE) (rule that)
  have "drc_release_txn_loop 64 self (ins_map (item ?m x)) 0 = Some (others_of self (waiters ?m xid))"
    using release_loop_eq[of 0 64 self "ins_map (item ?m x)"] x(4) by (simp add: others_of_def)
  moreover have "drc_release_txn_res (ctx\<lparr>txn_res_map := m1\<rparr>) x = Some (CT_SUCCESS, ctx\<lparr>txn_res_map := m1\<lparr>res_pool := p\<rparr>\<rparr>)"
    using r(2,3) f(1,2) by (simp add: drc_release_txn_res_def)
  ultimately have "drc_release_txn self ctx xid scn =
      Some (map (\<lambda>d. (xid, scn, d)) (others_of self (waiters ?m xid)), ctx\<lparr>txn_res_map := m1\<lparr>res_pool := p\<rparr>\<rparr>)"
    using x(1,5) r(1) by (simp add: drc_release_txn_def)
  then show ?thesis using f(3,4) by blast
qed

lemma local_wait_spec:
  assumes rep: "txn_rep (local_txn_map ctx) fl L" and room: "fl \<noteq> [] \<or> txn_contents (local_txn_map ctx) xid \<noteq> None"
  shows "\<exists>m' fl' L' r. drc_local_txn_wait ctx xid sig = Some (sig, ctx\<lparr>local_txn_map := m'\<rparr>) \<and> txn_rep m' fl' L' \<and>
           txn_contents m' = (txn_contents (local_txn_map ctx))(xid \<mapsto> r)"
proof (rule txn_cases[OF rep, of xid])
  let ?m = "local_txn_map ctx"
  fix x
  assume x: "txn_lookup ?m xid = Some (xid_hash (bucket_num ?m) xid, Some x)" "txn_contents ?m xid = Some ((item ?m x)\<lparr>nxt := 0\<rparr>)"
  then show ?thesis using rep
    by (intro exI[of _ ?m] exI[of _ fl] exI[of _ L] exI[of _ "(item ?m x)\<lparr>nxt := 0\<rparr>"]) (simp add: drc_local_txn_wait_def fun_eq_iff)
next
  let ?m = "local_txn_map ctx"
  assume n: "txn_lookup ?m xid = Some (xid_hash (bucket_num ?m) xid, None)" "txn_contents ?m xid = None"
  have tm: "drc_txn_map ctx DRC_RES_LOCAL_TXN_TYPE = ?m" by (simp add: drc_txn_map_def)
  obtain x fl' where fl: "fl = x # fl'" using room n(2) by (cases fl) auto
  from create_txn_spec[of ctx DRC_RES_LOCAL_TXN_TYPE x fl' L xid, unfolded tm] rep n(2) fl obtain m1 r where
    c: "drc_create_txn_res ctx xid DRC_RES_LOCAL_TXN_TYPE = Some (Some x, ctx\<lparr>local_txn_map := m1\<rparr>)" "txn_rep m1 fl' (insert x L)"
      "txn_contents m1 = (txn_contents ?m)(xid \<mapsto> r)" by (auto simp: drc_set_txn_map_def)
  then show ?thesis using n(1)
    by (intro exI[of _ m1] exI[of _ fl'] exI[of _ "insert x L"] exI[of _ r]) (simp add: drc_local_txn_wait_def)
qed

lemma local_recyle_spec:
  assumes rep: "txn_rep (local_txn_map ctx) fl L"
  shows "\<exists>m' fl' L'. drc_local_txn_recyle ctx xid = Some (ctx\<lparr>local_txn_map := m'\<rparr>) \<and> txn_rep m' fl' L' \<and>
           txn_contents m' = (txn_contents (local_txn_map ctx))(xid := None)"
proof (rule txn_cases[OF rep, of xid])
  let ?m = "local_txn_map ctx"
  assume n: "txn_lookup ?m xid = Some (xid_hash (bucket_num ?m) xid, None)" "txn_contents ?m xid = None"
  then show ?thesis using rep
    by (intro exI[of _ ?m] exI[of _ fl] exI[of _ L]) (simp add: drc_local_txn_recyle_def fun_eq_iff)
next
  let ?m = "local_txn_map ctx"
  fix x
  assume x: "txn_lookup ?m xid = Some (xid_hash (bucket_num ?m) xid, Some x)" "x \<in> L" "txn_res_id (item ?m x) = xid"
  from txn_drop[OF rep x(2), unfolded x(3)] obtain m1 where
    r: "drc_res_map_remove ?m (xid_hash (bucket_num ?m) xid) xid = Some m1" "DRC_GET_RES_ADDR_BY_ID (res_pool m1) x = Some (item m1 x)"
      "txn_idx (item m1 x) = x" and z: "\<forall>z. \<exists>p q. drc_res_put (res_pool m1) x z = Some q \<and> drc_res_pool_free_item q x = Some p \<and>
        txn_rep (m1\<lparr>res_pool := p\<rparr>) (x # fl) (L - {x}) \<and> txn_contents (m1\<lparr>res_pool := p\<rparr>) = (txn_contents ?m)(xid := None)"
    by (elim exE conjE) (rule that)
  from z[THEN spec, of "(item m1 x)\<lparr>ins_map := 0\<rparr>"] obtain p q where
    f: "drc_res_put (res_pool m1) x ((item m1 x)\<lparr>ins_map := 0\<rparr>) = Some q" "drc_res_pool_free_item q x = Some p"
      "txn_rep (m1\<lparr>res_pool := p\<rparr>) (x # fl) (L - {x})" "txn_contents (m1\<lparr>res_pool := p\<rparr>) = (txn_contents ?m)(xid := None)"
    by (elim exE conjE) (rule that)
  have "drc_local_txn_recyle ctx xid = Some (ctx\<lparr>local_txn_map := m1\<lparr>res_pool := p\<rparr>\<rparr>)"
    using x(1) r f(1,2) by (simp add: drc_local_txn_recyle_def drc_release_local_txn_res_def)
  then show ?thesis using f(3,4) by blast
qed

section \<open>A transaction that ends while others ask for it\<close>

text \<open>
  The handlers of the wait requests run concurrently with the session that ends the transaction.
  Each handler first reads the state of the transaction, then enters the asking instance into the
  bitmap, then reads the state again; the session marks the transaction as ended, then wakes
  whoever is in the bitmap. Every access to the map is one step under its bucket lock.
\<close>

datatype waiter_pc = W_Start | W_Enqueue | W_Recheck | W_Release | W_Told dls_txn_reply

datatype owner_pc = O_Running | O_Ended | O_Released

record txn_run =
  run_ctx :: drc_txn_ctx
  run_owner :: owner_pc
  run_pc :: "uint8 \<Rightarrow> waiter_pc"
  run_sent :: "awake_msg list"

inductive txn_step :: "uint8 \<Rightarrow> xid_t \<Rightarrow> txn_run \<Rightarrow> txn_run \<Rightarrow> bool" for self xid where
  ask_over: "txn_step self xid s (s\<lparr>run_pc := (run_pc s)(g := W_Told DLS_REMOTE_TXN_END)\<rparr>)"
    if "run_pc s g = W_Start" "run_owner s \<noteq> O_Running"
| ask_running: "txn_step self xid s (s\<lparr>run_pc := (run_pc s)(g := W_Enqueue)\<rparr>)"
    if "run_pc s g = W_Start" "run_owner s = O_Running"
| enqueue: "txn_step self xid s (s\<lparr>run_ctx := ctx, run_pc := (run_pc s)(g := W_Recheck)\<rparr>)"
    if "run_pc s g = W_Enqueue" "drc_enqueue_txn (run_ctx s) xid g = Some ctx"
| recheck_running: "txn_step self xid s (s\<lparr>run_ctx := ctx, run_sent := run_sent s @ msgs, run_pc := (run_pc s)(g := W_Told ret)\<rparr>)"
    if "run_pc s g = W_Recheck" "run_owner s = O_Running" "\<not> txn_ended info"
      "dls_txn_recheck self (run_ctx s) xid info curr_scn = Some (ret, scn, msgs, ctx)"
| recheck_over: "txn_step self xid s (s\<lparr>run_pc := (run_pc s)(g := W_Release)\<rparr>)"
    if "run_pc s g = W_Recheck" "run_owner s \<noteq> O_Running"
| release_late: "txn_step self xid s (s\<lparr>run_ctx := ctx, run_sent := run_sent s @ msgs, run_pc := (run_pc s)(g := W_Told ret)\<rparr>)"
    if "run_pc s g = W_Release" "txn_ended info" "dls_txn_recheck self (run_ctx s) xid info curr_scn = Some (ret, scn, msgs, ctx)"
| again: "txn_step self xid s (s\<lparr>run_pc := (run_pc s)(g := W_Start)\<rparr>)"
    if "run_pc s g = W_Told ret"
| finish: "txn_step self xid s (s\<lparr>run_owner := O_Ended\<rparr>)"
    if "run_owner s = O_Running"
| wake: "txn_step self xid s (s\<lparr>run_ctx := ctx, run_sent := run_sent s @ msgs, run_owner := O_Released\<rparr>)"
    if "run_owner s = O_Ended" "dls_release_txn self True (run_ctx s) xid scn = Some (msgs, ctx)"
| other_enqueue: "txn_step self xid s (s\<lparr>run_ctx := ctx\<rparr>)"
    if "xid' \<noteq> xid" "drc_enqueue_txn (run_ctx s) xid' g = Some ctx"
| other_release: "txn_step self xid s (s\<lparr>run_ctx := ctx, run_sent := run_sent s @ msgs\<rparr>)"
    if "xid' \<noteq> xid" "drc_release_txn self (run_ctx s) xid' scn = Some (msgs, ctx)"

text \<open>A waiting instance is in the bitmap or has been sent its wake-up.\<close>

definition woken :: "xid_t \<Rightarrow> txn_run \<Rightarrow> uint8 \<Rightarrow> bool" where
  "woken xid s g \<longleftrightarrow> (\<exists>scn. (xid, scn, g) \<in> set (run_sent s))"

definition run_inv :: "uint8 \<Rightarrow> xid_t \<Rightarrow> txn_run \<Rightarrow> bool" where
  "run_inv self xid s \<longleftrightarrow> txn_ok (txn_res_map (run_ctx s)) \<and>
     (\<forall>g. g \<noteq> self \<and> run_pc s g \<in> {W_Recheck, W_Told DLS_REMOTE_TXN_WAIT} \<longrightarrow> g \<in> waiters (txn_res_map (run_ctx s)) xid \<or> woken xid s g) \<and>
     (\<forall>g. g \<noteq> self \<and> run_owner s = O_Released \<and> run_pc s g = W_Told DLS_REMOTE_TXN_WAIT \<longrightarrow> woken xid s g)"

lemma waiters_less: "i \<in> waiters m xid \<Longrightarrow> i < CT_MAX_INSTANCES"
  using insts_less by (auto simp: waiters_def split: option.splits)

lemma enqueue_run:
  assumes "txn_ok (txn_res_map ctx)" "drc_enqueue_txn ctx xid g = Some ctx'"
  shows "txn_ok (txn_res_map ctx')"
    "waiters (txn_res_map ctx') = (waiters (txn_res_map ctx))(xid := insert g (waiters (txn_res_map ctx) xid))"
proof -
  obtain fl L where rep: "txn_rep (txn_res_map ctx) fl L" using assms(1) by (auto simp: txn_ok_def)
  have room: "fl \<noteq> [] \<or> txn_contents (txn_res_map ctx) xid \<noteq> None" using enqueue_txn_full rep assms(2) by fastforce
  have g: "g < CT_MAX_INSTANCES" using assms(2) by (auto simp: drc_enqueue_txn_def bind_eq_Some_conv drc_bitmap64_eq_Some)
  from enqueue_txn_spec[OF rep g room] assms(2) obtain m' fl' L' where
    d: "ctx' = ctx\<lparr>txn_res_map := m'\<rparr>" "txn_rep m' fl' L'"
      "waiters m' = (waiters (txn_res_map ctx))(xid := insert g (waiters (txn_res_map ctx) xid))" by auto
  show "txn_ok (txn_res_map ctx')" using d(1,2) by (auto simp: txn_ok_def)
  show "waiters (txn_res_map ctx') = (waiters (txn_res_map ctx))(xid := insert g (waiters (txn_res_map ctx) xid))" using d(1,3) by simp
qed

lemma release_run:
  assumes "txn_ok (txn_res_map ctx)" "drc_release_txn self ctx xid scn = Some (msgs, ctx')"
  shows "txn_ok (txn_res_map ctx')" "waiters (txn_res_map ctx') = (waiters (txn_res_map ctx))(xid := {})"
    "msgs = map (\<lambda>d. (xid, scn, d)) (others_of self (waiters (txn_res_map ctx) xid))"
    "set msgs = (\<lambda>d. (xid, scn, d)) ` (waiters (txn_res_map ctx) xid - {self})"
proof -
  obtain fl L where rep: "txn_rep (txn_res_map ctx) fl L" using assms(1) by (auto simp: txn_ok_def)
  from release_txn_spec[OF rep, of self xid scn] assms(2) obtain m' fl' L' where
    d: "msgs = map (\<lambda>d. (xid, scn, d)) (others_of self (waiters (txn_res_map ctx) xid))" "ctx' = ctx\<lparr>txn_res_map := m'\<rparr>" "txn_rep m' fl' L'"
      "txn_contents m' = (txn_contents (txn_res_map ctx))(xid := None)" by auto
  show "txn_ok (txn_res_map ctx')" using d(2,3) by (auto simp: txn_ok_def)
  show "waiters (txn_res_map ctx') = (waiters (txn_res_map ctx))(xid := {})" using waiters_upd[OF d(4)] d(2) by simp
  show "msgs = map (\<lambda>d. (xid, scn, d)) (others_of self (waiters (txn_res_map ctx) xid))" by (rule d(1))
  show "set msgs = (\<lambda>d. (xid, scn, d)) ` (waiters (txn_res_map ctx) xid - {self})"
    unfolding d(1) using set_others_of[of "waiters (txn_res_map ctx) xid" self] waiters_less by simp
qed

text \<open>After a release of the transaction everybody who waited for it is woken.\<close>

lemma txn_released_inv:
  assumes inv: "run_inv self xid s" and rel: "drc_release_txn self (run_ctx s) xid scn = Some (msgs, ctx)"
    and pc: "\<And>g. run_pc s' g = W_Told DLS_REMOTE_TXN_WAIT \<or> run_pc s' g = W_Recheck \<Longrightarrow> run_pc s' g = run_pc s g"
    and s': "run_ctx s' = ctx" "run_sent s' = run_sent s @ msgs"
  shows "run_inv self xid s'"
proof -
  have ok: "txn_ok (txn_res_map (run_ctx s))" using inv by (simp add: run_inv_def)
  note r = release_run[OF ok rel]
  have "woken xid s' g" if "g \<noteq> self" "run_pc s' g = W_Told DLS_REMOTE_TXN_WAIT \<or> run_pc s' g = W_Recheck" for g
  proof -
    have "g \<in> waiters (txn_res_map (run_ctx s)) xid \<or> woken xid s g" using inv that pc[OF that(2)] by (auto simp: run_inv_def)
    then show ?thesis using r(4) that(1) by (auto simp: woken_def s')
  qed
  then show ?thesis using r(1) by (auto simp: run_inv_def s')
qed

lemma run_inv_step:
  assumes "txn_step self xid s s'" "run_inv self xid s"
  shows "run_inv self xid s'"
  using assms
proof (induction rule: txn_step.induct)
  case (enqueue s g ctx)
  then have "txn_ok (txn_res_map (run_ctx s))" by (simp add: run_inv_def)
  from enqueue_run[OF this enqueue(2)] enqueue(3) show ?case by (auto simp: run_inv_def woken_def)
next
  case (recheck_running s g info curr_scn ret scn msgs ctx)
  then show ?case by (auto simp: run_inv_def woken_def dls_txn_recheck_def)
next
  case (release_late s g info curr_scn ret scn msgs ctx)
  then have "drc_release_txn self (run_ctx s) xid curr_scn = Some (msgs, ctx)" "ret = DLS_REMOTE_TXN_END"
    by (auto simp: dls_txn_recheck_def bind_eq_Some_conv)
  then show ?case using release_late(4) by (intro txn_released_inv[OF release_late(4)]) (auto split: if_splits)
next
  case (wake s scn msgs ctx)
  then show ?case by (intro txn_released_inv[OF wake(3)]) (auto simp: dls_release_txn_def)
next
  case (other_enqueue xid' s g ctx)
  then have "txn_ok (txn_res_map (run_ctx s))" by (simp add: run_inv_def)
  from enqueue_run[OF this other_enqueue(2)] other_enqueue(1,3) show ?case by (simp add: run_inv_def woken_def)
next
  case (other_release xid' s scn msgs ctx)
  then have "txn_ok (txn_res_map (run_ctx s))" by (simp add: run_inv_def)
  from release_run[OF this other_release(2)] other_release(1,3) show ?case by (auto simp: run_inv_def woken_def)
qed (auto simp: run_inv_def woken_def split: if_splits)

lemma run_inv_steps: "(txn_step self xid)\<^sup>*\<^sup>* s s' \<Longrightarrow> run_inv self xid s \<Longrightarrow> run_inv self xid s'"
  by (induction rule: rtranclp_induct) (auto intro: run_inv_step)


text \<open>A freshly initialised context.\<close>

lemma is_same_txn_iff: "is_same_txn k r \<longleftrightarrow> txn_res_id r = k"
  by (simp add: is_same_txn_def)

lemma txn_map_init:
  assumes "\<not> map_inited m" "\<not> pool_inited (res_pool m)" "4 \<le> isize" "0 < num" "num * 2 + 1 \<noteq> 0"
  shows "\<exists>m'. drc_res_map_init True True zero_txn_res m num isize is_same_txn = Some (CT_SUCCESS, m') \<and>
           txn_rep m' (map of_nat [0..<unat num]) {} \<and> txn_contents m' = Map.empty"
proof -
  from map_init_inv[where cmp = is_same_txn and key = txn_res_id and h = "xid_hash (num * 2 + 1)" and zero = zero_txn_res, OF assms(1-4) is_same_txn_iff] obtain m' where
    d: "drc_res_map_init True True zero_txn_res m num isize is_same_txn = Some (CT_SUCCESS, m')"
      "map_inv txn_res_id (xid_hash (num * 2 + 1)) m' (map of_nat [0..<unat num]) (\<lambda>_. [])" "bucket_num m' = num * 2 + 1" by blast
  then have "txn_rep m' (map of_nat [0..<unat num]) {}" unfolding txn_rep_def stored_def using assms(5) by auto
  moreover have "txn_contents m' = Map.empty"
    using contents_Some[OF txn_repD(2)[OF calculation]] by (auto simp: fun_eq_iff) (metis option.exhaust)
  ultimately show ?thesis using d(1) by blast
qed

definition blank_txn_map :: txn_map_t where
  "blank_txn_map = \<lparr>map_inited = False,
     res_pool = \<lparr>pool_inited = False, free_list = 0, item_num = 0, used_num = 0, item_size = 0, items = (\<lambda>_. zero_txn_res), recycle_pos = 0\<rparr>,
     bucket_num = 0, buckets = (\<lambda>_. \<lparr>bkt_count = 0, bkt_first = 0\<rparr>), res_cmp_func = is_same_txn\<rparr>"

lemma demo_txn_map:
  "\<exists>m. drc_res_map_init True True zero_txn_res blank_txn_map 2 64 is_same_txn = Some (CT_SUCCESS, m) \<and> txn_rep m [0, 1] {} \<and> txn_contents m = Map.empty"
proof -
  have "map of_nat [0..<unat (2 :: uint32)] = [0, 1 :: uint32]" by (simp add: upt_rec)
  then show ?thesis using txn_map_init[of blank_txn_map 64 2] by (simp add: blank_txn_map_def)
qed


text \<open>Entering several instances, one after the other.\<close>

fun drc_enqueue_all :: "'c drc_txn_ctx_scheme \<Rightarrow> xid_t \<Rightarrow> uint8 list \<Rightarrow> 'c drc_txn_ctx_scheme option" where
  "drc_enqueue_all ctx xid [] = Some ctx"
| "drc_enqueue_all ctx xid (i # is) = do { ctx \<leftarrow> drc_enqueue_txn ctx xid i; drc_enqueue_all ctx xid is }"

lemma enqueue_all_spec:
  assumes "txn_rep (txn_res_map ctx) fl L" "fl \<noteq> [] \<or> txn_contents (txn_res_map ctx) xid \<noteq> None" "\<forall>i \<in> set is. i < CT_MAX_INSTANCES"
  shows "\<exists>m' fl' L' v. drc_enqueue_all ctx xid is = Some (ctx\<lparr>txn_res_map := m'\<rparr>) \<and> txn_rep m' fl' L' \<and>
           waiters m' xid = waiters (txn_res_map ctx) xid \<union> set is \<and> txn_contents m' = (txn_contents (txn_res_map ctx))(xid := v)"
  using assms
proof (induction "is" arbitrary: ctx fl L)
  case Nil
  then show ?case
    by (intro exI[of _ "txn_res_map ctx"] exI[of _ fl] exI[of _ L] exI[of _ "txn_contents (txn_res_map ctx) xid"]) simp
next
  case (Cons i "is")
  have i: "i < CT_MAX_INSTANCES" "\<forall>i \<in> set is. i < CT_MAX_INSTANCES" using Cons.prems(3) by simp_all
  from enqueue_txn_spec[OF Cons.prems(1) i(1) Cons.prems(2)] obtain m1 fl1 L1 r where
    e: "drc_enqueue_txn ctx xid i = Some (ctx\<lparr>txn_res_map := m1\<rparr>)" "txn_rep m1 fl1 L1"
      "waiters m1 = (waiters (txn_res_map ctx))(xid := insert i (waiters (txn_res_map ctx) xid))"
      "txn_contents m1 = (txn_contents (txn_res_map ctx))(xid \<mapsto> r)" by blast
  have k: "fl1 \<noteq> [] \<or> txn_contents m1 xid \<noteq> None" using e(4) by simp
  define c1 where "c1 = ctx\<lparr>txn_res_map := m1\<rparr>"
  have t: "txn_res_map c1 = m1" by (simp add: c1_def)
  from Cons.IH[of c1 fl1 L1, unfolded t, OF e(2) k i(2)] obtain m' fl' L' v where
    d: "drc_enqueue_all c1 xid is = Some (c1\<lparr>txn_res_map := m'\<rparr>)" "txn_rep m' fl' L'"
      "waiters m' xid = waiters m1 xid \<union> set is" "txn_contents m' = (txn_contents m1)(xid := v)" by (elim exE conjE) (rule that)
  have "drc_enqueue_all ctx xid (i # is) = Some (ctx\<lparr>txn_res_map := m'\<rparr>)" using e(1) d(1) by (simp add: c1_def)
  moreover have "waiters m' xid = waiters (txn_res_map ctx) xid \<union> set (i # is)" using d(3) e(3) by simp
  moreover have "txn_contents m' = (txn_contents (txn_res_map ctx))(xid := v)" using d(4) e(4) by simp
  ultimately show ?case using d(2) by - (rule exI[of _ m'], rule exI[of _ fl'], rule exI[of _ L'], rule exI[of _ v], simp)
qed

text \<open>
  C28: Entering a list of instances for a transaction nobody waited for and then releasing it sends
  one wake-up to each of them but the own instance, in ascending order whatever the order of their
  requests, and leaves the map as it was.
\<close>

theorem release_wakes_enqueued:
  assumes "txn_rep (txn_res_map ctx) (x # fl) L" and "txn_contents (txn_res_map ctx) xid = None" and "\<forall>i \<in> set is. i < CT_MAX_INSTANCES"
  shows "\<exists>ctx1 ctx2 dests. drc_enqueue_all ctx xid is = Some ctx1 \<and>
    drc_release_txn self ctx1 xid scn = Some (map (\<lambda>d. (xid, scn, d)) dests, ctx2) \<and>
    set dests = set is - {self} \<and> sorted_wrt (<) dests \<and> txn_contents (txn_res_map ctx2) = txn_contents (txn_res_map ctx)"
proof -
  have e0: "waiters (txn_res_map ctx) xid = {}" using assms(2) by (simp add: waiters_def)
  have room: "x # fl \<noteq> [] \<or> txn_contents (txn_res_map ctx) xid \<noteq> None" by simp
  from enqueue_all_spec[OF assms(1) room assms(3)] obtain m1 fl1 L1 v where
    e: "drc_enqueue_all ctx xid is = Some (ctx\<lparr>txn_res_map := m1\<rparr>)" "txn_rep m1 fl1 L1"
      "waiters m1 xid = waiters (txn_res_map ctx) xid \<union> set is" "txn_contents m1 = (txn_contents (txn_res_map ctx))(xid := v)"
    by (elim exE conjE) (rule that)
  define c1 where "c1 = ctx\<lparr>txn_res_map := m1\<rparr>"
  have t: "txn_res_map c1 = m1" by (simp add: c1_def)
  have w: "waiters m1 xid = set is" using e(3) e0 by simp
  from release_txn_spec[of c1 fl1 L1 self xid scn, unfolded t w, OF e(2)] obtain m2 fl2 L2 where
    r: "drc_release_txn self c1 xid scn = Some (map (\<lambda>d. (xid, scn, d)) (others_of self (set is)), c1\<lparr>txn_res_map := m2\<rparr>)"
      "txn_contents m2 = (txn_contents m1)(xid := None)" by (elim exE conjE) (rule that)
  have "txn_contents m2 = txn_contents (txn_res_map ctx)" using r(2) e(4) assms(2) by (simp add: fun_eq_iff)
  moreover have "set (others_of self (set is)) = set is - {self}" using assms(3) by (intro set_others_of) blast
  ultimately show ?thesis using e(1) r(1) sorted_others_of[of self "set is"] unfolding c1_def
    by (intro exI[of _ "ctx\<lparr>txn_res_map := m1\<rparr>"] exI[of _ "ctx\<lparr>txn_res_map := m2\<rparr>"] exI[of _ "others_of self (set is)"]) simp
qed

theorem release_wakes_enqueued_witness:
  "\<exists>ctx ctx1 ctx2 dests. drc_enqueue_all ctx 7 [5, 0, 3] = Some (ctx1 :: drc_txn_ctx) \<and>
     drc_release_txn 0 ctx1 7 9 = Some (map (\<lambda>d. (7, 9, d)) dests, ctx2) \<and> set dests = {3, 5} \<and> sorted_wrt (<) dests"
proof -
  obtain m where m: "txn_rep m [0, 1] {}" "txn_contents m = Map.empty" using demo_txn_map by blast
  define ctx where "ctx = \<lparr>txn_res_map = m, local_txn_map = m, deposit_id = (\<lambda>_. 0)\<rparr>"
  have h: "txn_rep (txn_res_map ctx) [0, 1] {}" "txn_contents (txn_res_map ctx) 7 = None" "\<forall>i \<in> set [5, 0, 3 :: uint8]. i < CT_MAX_INSTANCES"
    using m by (simp_all add: ctx_def)
  have "set [5, 0, 3 :: uint8] - {0} = {3, 5}" by auto
  then show ?thesis using release_wakes_enqueued[OF h, of 0 9] by (simp only:) blast
qed

end
