(* ===== verification/Drc_Queue.thy ===== *)
theory Drc_Queue
  imports Drc_Env
begin

text \<open>
  Requests and the convert queue. A page or lock resource keeps one converting request and a
  FIFO of waiting ones; the waiting ones are lock items of the shared \<open>lock_item_pool\<close>,
  chained through \<open>nxt\<close>. The enqueue lines of \<open>drc_keep_requester_wait\<close> and
  \<open>drc_request_lock_owner_add_req_into_cvt_q\<close> are the same, as are the dequeue lines of
  \<open>drc_convert_next_request\<close> and \<open>drc_convert_lock_owner\<close>; each pair is one definition here.

  Theorems: the queue is a FIFO, no lock item is lost or handed to two queues, a search
  terminates and finds the first retried request, and cleaning the queue of a resource frees
  every item and answers every waiting instance but the crashed one.
\<close>

datatype drc_req_owner_result_type =
  DRC_REQ_OWNER_INVALID | DRC_REQ_OWNER_GRANTED | DRC_REQ_OWNER_ALREADY_OWNER
| DRC_REQ_OWNER_CONVERTING | DRC_REQ_OWNER_WAITING | DRC_REQ_OWNER_TRANSFERRED

record drc_req_info_t =
  inst_id :: uint8
  req_mode :: uint8
  curr_mode :: uint8
  req_owner_result :: drc_req_owner_result_type
  inst_sid :: uint16
  rsn :: uint32
  req_time :: date_t
  req_version :: uint64
  req_lsn :: uint64
  release_timeout_ticks :: uint32

record drc_lock_item_t = drc_block_header +
  req_info :: drc_req_info_t

type_synonym item_pool_t = "drc_lock_item_t drc_res_pool"
type_synonym drc_lock_q_t = drc_list

definition g_invalid_req_info :: drc_req_info_t where
  "g_invalid_req_info = \<lparr>inst_id = CT_INVALID_ID8, req_mode = DRC_LOCK_NULL, curr_mode = DRC_LOCK_NULL,
     req_owner_result = DRC_REQ_OWNER_INVALID, inst_sid = CT_INVALID_ID16, rsn = CT_INVALID_ID32, req_time = 0,
     req_version = 0, req_lsn = 0, release_timeout_ticks = 0\<rparr>"

text \<open>The header an error reply (\<open>mes_send_error_msg\<close>) is addressed by.\<close>

record mes_message_head_t =
  src_inst :: uint8
  src_sid :: uint16
  dst_inst :: uint8
  dst_sid :: uint16
  head_rsn :: uint32

section \<open>Operations\<close>

definition drc_cvt_q_enqueue ::
  "item_pool_t \<Rightarrow> drc_lock_q_t \<Rightarrow> drc_req_info_t \<Rightarrow> (status_t \<times> item_pool_t \<times> drc_lock_q_t) option" where
  "drc_cvt_q_enqueue pool q req =
     do { (lock_item_id, pool) \<leftarrow> drc_res_pool_alloc_item pool;
          if lock_item_id = CT_INVALID_ID32 then Some (CT_ERROR, pool, q)
          else do {
            lock_item \<leftarrow> DRC_GET_RES_ADDR_BY_ID pool lock_item_id;
            pool \<leftarrow> drc_res_put pool lock_item_id (lock_item\<lparr>nxt := CT_INVALID_ID32, req_info := req\<rparr>);
            (pool, q) \<leftarrow>
              (if list_count q = 0 then Some (pool, q\<lparr>list_first := lock_item_id, list_last := lock_item_id\<rparr>)
               else do { tail \<leftarrow> DRC_GET_RES_ADDR_BY_ID pool (list_last q);
                         pool \<leftarrow> drc_res_put pool (list_last q) (tail\<lparr>nxt := lock_item_id\<rparr>);
                         Some (pool, q\<lparr>list_last := lock_item_id\<rparr>) });
            Some (CT_SUCCESS, pool, q\<lparr>list_count := list_count q + 1\<rparr>) } }"

definition drc_cvt_q_dequeue ::
  "item_pool_t \<Rightarrow> drc_lock_q_t \<Rightarrow> (drc_lock_item_t \<times> item_pool_t \<times> drc_lock_q_t) option" where
  "drc_cvt_q_dequeue pool q =
     do { let lock_item_id = list_first q;
          knl_panic (lock_item_id \<noteq> CT_INVALID_ID32);
          lock_item \<leftarrow> DRC_GET_RES_ADDR_BY_ID pool lock_item_id;
          let q = q\<lparr>list_first := nxt lock_item, list_count := list_count q - 1\<rparr>;
          pool \<leftarrow> drc_res_pool_free_item pool lock_item_id;
          Some (lock_item, pool, q) }"

definition drc_is_retry_request :: "drc_req_info_t \<Rightarrow> drc_req_info_t \<Rightarrow> bool" where
  "drc_is_retry_request l_val r_val \<longleftrightarrow> inst_id l_val = inst_id r_val \<and> req_mode l_val \<noteq> curr_mode r_val"

text \<open>The walk of \<open>drc_search_item_by_reqid\<close> ends at the sentinel, which only the invariant guarantees.\<close>

partial_function (option) drc_search_item_loop ::
  "item_pool_t \<Rightarrow> drc_req_info_t \<Rightarrow> uint32 \<Rightarrow> uint32 option option" where
  "drc_search_item_loop pool req item_id =
     (if item_id = CT_INVALID_ID32 then Some None
      else do { item \<leftarrow> DRC_GET_RES_ADDR_BY_ID pool item_id;
                if drc_is_retry_request (req_info item) req then Some (Some item_id)
                else drc_search_item_loop pool req (nxt item) })"

definition drc_search_item_by_reqid ::
  "item_pool_t \<Rightarrow> drc_lock_q_t \<Rightarrow> drc_req_info_t \<Rightarrow> uint32 option option" where
  "drc_search_item_by_reqid pool convert_q req = drc_search_item_loop pool req (list_first convert_q)"

fun drc_clean_convert_q_loop ::
  "nat \<Rightarrow> uint8 \<Rightarrow> uint8 \<Rightarrow> item_pool_t \<Rightarrow> drc_lock_q_t \<Rightarrow> uint32
     \<Rightarrow> (item_pool_t \<times> drc_lock_q_t \<times> mes_message_head_t list) option" where
  "drc_clean_convert_q_loop 0 self inst pool q item_id = Some (pool, q, [])"
| "drc_clean_convert_q_loop (Suc k) self inst pool q item_id =
     do { item \<leftarrow> DRC_GET_RES_ADDR_BY_ID pool item_id;
          let temp_item_id = nxt item;
          let msgs = (if inst_id (req_info item) \<noteq> inst
                      then [\<lparr>src_inst = inst_id (req_info item), src_sid = inst_sid (req_info item),
                             dst_inst = self, dst_sid = 0, head_rsn = rsn (req_info item)\<rparr>]
                      else []);
          let q = q\<lparr>list_count := list_count q - 1\<rparr>;
          pool \<leftarrow> drc_res_pool_free_item pool item_id;
          (pool, q, more) \<leftarrow> drc_clean_convert_q_loop k self inst pool q temp_item_id;
          Some (pool, q, msgs @ more) }"

definition drc_clean_convert_q ::
  "uint8 \<Rightarrow> uint8 \<Rightarrow> item_pool_t \<Rightarrow> drc_lock_q_t
     \<Rightarrow> (item_pool_t \<times> drc_lock_q_t \<times> mes_message_head_t list) option" where
  "drc_clean_convert_q self inst pool convert_q =
     (if list_count convert_q = 0 then Some (pool, convert_q, [])
      else do { (pool, q, msgs) \<leftarrow> drc_clean_convert_q_loop (unat (list_count convert_q)) self inst pool
                                    convert_q (list_first convert_q);
                Some (pool, (if list_count q = 0 then DRC_LIST_INIT else q), msgs) })"

section \<open>The queue invariant\<close>

definition queue_inv :: "item_pool_t \<Rightarrow> drc_lock_q_t \<Rightarrow> uint32 list \<Rightarrow> bool" where
  "queue_inv pool q ids \<longleftrightarrow>
     seg (\<lambda>i. nxt (items pool i)) (list_first q) ids CT_INVALID_ID32 \<and>
     list_count q = of_nat (length ids) \<and> (ids \<noteq> [] \<longrightarrow> list_last q = last ids) \<and>
     distinct ids \<and> (\<forall>x \<in> set ids. x < item_num pool)"

text \<open>A queue together with the free list of its pool.\<close>

definition qrep :: "item_pool_t \<Rightarrow> uint32 list \<Rightarrow> drc_lock_q_t \<Rightarrow> uint32 list \<Rightarrow> bool" where
  "qrep pool fl q ids \<longleftrightarrow> pool_inv pool fl \<and> queue_inv pool q ids \<and> set fl \<inter> set ids = {}"

text \<open>
  A step on one queue: the items of the queue and the free ones are the same set before and
  after, and no other item of the pool is touched.
\<close>

definition qstep :: "item_pool_t \<Rightarrow> uint32 list \<Rightarrow> uint32 list \<Rightarrow> item_pool_t \<Rightarrow> uint32 list \<Rightarrow> uint32 list \<Rightarrow> bool" where
  "qstep pool fl ids pool' fl' ids' \<longleftrightarrow>
     item_num pool' = item_num pool \<and> set fl' \<union> set ids' = set fl \<union> set ids \<and>
     (\<forall>i. i \<notin> set fl \<union> set ids \<longrightarrow> items pool' i = items pool i)"

abbreviation reqs :: "item_pool_t \<Rightarrow> uint32 list \<Rightarrow> drc_req_info_t list" where
  "reqs pool ids \<equiv> map (\<lambda>i. req_info (items pool i)) ids"

lemma qstep_refl [simp]: "qstep pool fl ids pool fl ids"
  by (simp add: qstep_def)

lemma qstep_trans: "qstep p fl ids p' fl' ids' \<Longrightarrow> qstep p' fl' ids' p'' fl'' ids'' \<Longrightarrow> qstep p fl ids p'' fl'' ids''"
  unfolding qstep_def by auto

lemma qstep_frame:
  assumes "qstep pool fl ids pool' fl' ids'" and "queue_inv pool q js" and "set js \<inter> (set fl \<union> set ids) = {}"
  shows "queue_inv pool' q js" and "set js \<inter> (set fl' \<union> set ids') = {}" and "reqs pool' js = reqs pool js"
proof -
  have eq: "\<And>x. x \<in> set js \<Longrightarrow> items pool' x = items pool x"
    using assms by (auto simp: qstep_def)
  show "queue_inv pool' q js"
    using assms(1,2) eq seg_cong[of js "\<lambda>i. nxt (items pool' i)" "\<lambda>i. nxt (items pool i)"]
    by (simp add: queue_inv_def qstep_def)
  show "set js \<inter> (set fl' \<union> set ids') = {}" using assms(1,3) by (simp add: qstep_def)
  show "reqs pool' js = reqs pool js" using eq by simp
qed

lemma queue_inv_count:
  assumes "queue_inv pool q ids"
  shows "unat (list_count q) = length ids" and "list_count q = 0 \<longleftrightarrow> ids = []"
proof -
  have "length ids \<le> unat (item_num pool)"
    using assms by (intro distinct_below_length) (auto simp: queue_inv_def)
  then have "length ids < 2 ^ 32" using unat_less_2_32[of "item_num pool"] by linarith
  then show "unat (list_count q) = length ids" and "list_count q = 0 \<longleftrightarrow> ids = []"
    using assms of_nat_eq_0_iff_small[of "length ids"] by (auto simp: queue_inv_def unat_of_nat)
qed

lemma queue_inv_Nil_init [simp]: "queue_inv pool DRC_LIST_INIT []"
  by (simp add: queue_inv_def DRC_LIST_INIT_def)

text \<open>The invariant reads the links of the queued items only.\<close>

lemma queue_inv_pool_cong:
  assumes "\<And>x. x \<in> set ids \<Longrightarrow> nxt (items pool' x) = nxt (items pool x)" "item_num pool' = item_num pool"
  shows "queue_inv pool' q ids \<longleftrightarrow> queue_inv pool q ids"
  using assms seg_cong[of ids "\<lambda>i. nxt (items pool' i)" "\<lambda>i. nxt (items pool i)"]
  by (simp add: queue_inv_def)

section \<open>What the operations do to the queue\<close>


lemma seg_nxt_upd [simp]:
  "x \<notin> set xs \<Longrightarrow>
    seg (\<lambda>i. nxt (if i = x then r else its i)) s xs e \<longleftrightarrow> seg (\<lambda>i. nxt (its i)) s xs e"
  by (rule seg_cong) auto

lemma alloc_qstep:
  assumes "pool_inv pool (x # fl)"
  defines "pool1 \<equiv> pool\<lparr>free_list := nxt (items pool x), used_num := used_num pool + 1\<rparr>"
  shows "drc_res_pool_alloc_item pool = Some (x, pool1)" "pool_inv pool1 fl" "x < item_num pool"
    "x \<noteq> CT_INVALID_ID32" "x \<notin> set fl" "items pool1 = items pool" "item_num pool1 = item_num pool"
  using assms(1) alloc_item_Cons[OF assms(1)] pool_inv_take[OF assms(1)] below_neq_invalid[of x "item_num pool"]
  by (auto simp: pool1_def pool_inv_def)

lemma enqueue_full:
  "qrep pool [] q ids \<Longrightarrow> drc_cvt_q_enqueue pool q req = Some (CT_ERROR, pool, q)"
  by (simp add: drc_cvt_q_enqueue_def qrep_def alloc_item_Nil)

lemma last_append_seg:
  "seg nx s (xs @ [y]) e \<Longrightarrow> z \<notin> set (xs @ [y]) \<Longrightarrow> distinct (xs @ [y]) \<Longrightarrow>
    seg (nx(y := z, z := e')) s (xs @ [y, z]) e'"
  by (auto simp: seg_append)

lemma enqueue_spec:
  assumes "qrep pool (x # fl) q ids"
  shows "\<exists>pool' q'. drc_cvt_q_enqueue pool q req = Some (CT_SUCCESS, pool', q') \<and>
           qrep pool' fl q' (ids @ [x]) \<and> qstep pool (x # fl) ids pool' fl (ids @ [x]) \<and>
           reqs pool' (ids @ [x]) = reqs pool ids @ [req] \<and> list_count q' = list_count q + 1"
proof -
  have p: "pool_inv pool (x # fl)" and q: "queue_inv pool q ids" and d: "set (x # fl) \<inter> set ids = {}"
    using assms by (auto simp: qrep_def)
  define pool1 where "pool1 = pool\<lparr>free_list := nxt (items pool x), used_num := used_num pool + 1\<rparr>"
  note a = alloc_qstep[OF p, folded pool1_def]
  define item1 where "item1 = (items pool x)\<lparr>nxt := CT_INVALID_ID32, req_info := req\<rparr>"
  have cnt: "list_count q = 0 \<longleftrightarrow> ids = []" using queue_inv_count[OF q] by simp
  show ?thesis
  proof (cases "ids = []")
    case True
    let ?pool = "pool1\<lparr>items := (items pool1)(x := item1)\<rparr>"
    let ?q = "q\<lparr>list_first := x, list_last := x, list_count := list_count q + 1\<rparr>"
    have "drc_cvt_q_enqueue pool q req = Some (CT_SUCCESS, ?pool, ?q)"
      using a True cnt by (simp add: drc_cvt_q_enqueue_def item1_def)
    moreover have "qrep ?pool fl ?q (ids @ [x])"
      using True a(1,3-) q pool_inv_upd_used[OF a(5), of pool1 item1] a(2)
      by (simp add: qrep_def queue_inv_def item1_def)
    moreover have "qstep pool (x # fl) ids ?pool fl (ids @ [x])"
      using a by (auto simp: qstep_def)
    moreover have "reqs ?pool (ids @ [x]) = reqs pool ids @ [req]" using True by (simp add: item1_def)
    ultimately show ?thesis by (intro exI[of _ ?pool] exI[of _ ?q]) simp
  next
    case False
    then obtain ys y where ids: "ids = ys @ [y]" by (metis rev_exhaust)
    have y: "list_last q = y" "y < item_num pool" "y \<noteq> x" "y \<notin> set fl" "y \<notin> set ys"
      using q d ids by (auto simp: queue_inv_def)
    let ?its = "(items pool1)(x := item1, y := (items pool1 y)\<lparr>nxt := x\<rparr>)"
    let ?pool = "pool1\<lparr>items := ?its\<rparr>"
    let ?q = "q\<lparr>list_last := x, list_count := list_count q + 1\<rparr>"
    have "drc_cvt_q_enqueue pool q req = Some (CT_SUCCESS, ?pool, ?q)"
      using a False cnt y by (simp add: drc_cvt_q_enqueue_def item1_def)
    moreover have "seg (\<lambda>i. nxt (?its i)) (list_first q) (ids @ [x]) CT_INVALID_ID32"
    proof -
      have "(\<lambda>i. nxt (?its i)) = (\<lambda>i. nxt (items pool i))(y := x, x := CT_INVALID_ID32)"
        using y a by (auto simp: item1_def)
      then show ?thesis
        using q d ids y(3) last_append_seg[of "\<lambda>i. nxt (items pool i)" "list_first q" ys y CT_INVALID_ID32 x CT_INVALID_ID32]
        by (simp add: queue_inv_def eq_commute[of x y])
    qed
    moreover have "pool_inv ?pool fl" using a(2,5) y(4) by (subst pool_inv_items_cong) auto
    ultimately have "qrep ?pool fl ?q (ids @ [x])" and eq: "drc_cvt_q_enqueue pool q req = Some (CT_SUCCESS, ?pool, ?q)"
      using a(1,3-) q d by (simp_all add: qrep_def queue_inv_def Int_commute)
    moreover have "qstep pool (x # fl) ids ?pool fl (ids @ [x])"
      using a ids by (auto simp: qstep_def)
    moreover have "reqs ?pool (ids @ [x]) = reqs pool ids @ [req]"
      using ids d y a by (auto simp: item1_def)
    ultimately show ?thesis using eq by (intro exI[of _ ?pool] exI[of _ ?q]) simp
  qed
qed

lemma dequeue_spec:
  assumes "qrep pool fl q (x # ids)"
  shows "\<exists>pool' q'. drc_cvt_q_dequeue pool q = Some (items pool x, pool', q') \<and>
           qrep pool' (x # fl) q' ids \<and> qstep pool fl (x # ids) pool' (x # fl) ids \<and>
           reqs pool' ids = reqs pool ids \<and> list_count q' = list_count q - 1"
proof -
  have p: "pool_inv pool fl" and q: "queue_inv pool q (x # ids)" and d: "set fl \<inter> set (x # ids) = {}"
    using assms by (auto simp: qrep_def)
  have x: "x < item_num pool" "list_first q = x" "x \<notin> set ids" using q by (auto simp: queue_inv_def)
  let ?pool = "pool\<lparr>items := (items pool)(x := (items pool x)\<lparr>nxt := free_list pool\<rparr>),
                     free_list := x, used_num := used_num pool - 1\<rparr>"
  let ?q = "q\<lparr>list_first := nxt (items pool x), list_count := list_count q - 1\<rparr>"
  have "drc_cvt_q_dequeue pool q = Some (items pool x, ?pool, ?q)"
    using x below_neq_invalid[of x "item_num pool"] free_item_eq[OF p x(1)]
    by (simp add: drc_cvt_q_dequeue_def)
  moreover have "pool_inv ?pool (x # fl)" using pool_inv_give[OF p x(1), of "items pool x"] d by simp
  moreover have "queue_inv ?pool ?q ids"
  proof -
    have "seg (\<lambda>i. nxt (items ?pool i)) (nxt (items pool x)) ids CT_INVALID_ID32"
      using q x(3) by (simp add: queue_inv_def)
    then show ?thesis using q by (simp add: queue_inv_def)
  qed
  ultimately show ?thesis
    using d x by (intro exI[of _ ?pool] exI[of _ ?q]) (auto simp: qrep_def qstep_def)
qed


lemma search_loop_spec:
  assumes "seg (\<lambda>i. nxt (items pool i)) s ids CT_INVALID_ID32" "\<forall>x \<in> set ids. x < item_num pool"
  shows "drc_search_item_loop pool req s =
           Some (find (\<lambda>x. drc_is_retry_request (req_info (items pool x)) req) ids)"
  using assms
proof (induction ids arbitrary: s)
  case Nil
  then show ?case by (simp add: drc_search_item_loop.simps)
next
  case (Cons x ids)
  moreover from Cons.prems have "s = x" "x < item_num pool" "x \<noteq> CT_INVALID_ID32"
    using below_neq_invalid[of x "item_num pool"] by auto
  ultimately show ?case by (simp add: drc_search_item_loop.simps[of pool req x])
qed

lemma search_spec:
  "queue_inv pool q ids \<Longrightarrow> drc_search_item_by_reqid pool q req =
     Some (find (\<lambda>x. drc_is_retry_request (req_info (items pool x)) req) ids)"
  by (simp add: drc_search_item_by_reqid_def search_loop_spec queue_inv_def)

definition err_reply :: "uint8 \<Rightarrow> drc_req_info_t \<Rightarrow> mes_message_head_t" where
  "err_reply self r = \<lparr>src_inst = inst_id r, src_sid = inst_sid r, dst_inst = self, dst_sid = 0, head_rsn = rsn r\<rparr>"

lemma clean_loop_spec:
  assumes "pool_inv pool fl" "seg (\<lambda>i. nxt (items pool i)) s ids e" "distinct ids"
    "\<forall>x \<in> set ids. x < item_num pool" "set fl \<inter> set ids = {}"
  shows "\<exists>pool'. drc_clean_convert_q_loop (length ids) self inst pool q s =
             Some (pool', q\<lparr>list_count := list_count q - of_nat (length ids)\<rparr>,
                   map (err_reply self) (filter (\<lambda>r. inst_id r \<noteq> inst) (reqs pool ids))) \<and>
           pool_inv pool' (rev ids @ fl) \<and> qstep pool fl ids pool' (rev ids @ fl) []"
  using assms
proof (induction ids arbitrary: pool fl s q)
  case Nil
  then show ?case by simp
next
  case (Cons x ids)
  let ?pool = "pool\<lparr>items := (items pool)(x := (items pool x)\<lparr>nxt := free_list pool\<rparr>),
                     free_list := x, used_num := used_num pool - 1\<rparr>"
  let ?q = "q\<lparr>list_count := list_count q - 1\<rparr>"
  have x: "x < item_num pool" "x \<notin> set fl" "x \<notin> set ids" "s = x" using Cons.prems by auto
  have fr: "drc_res_pool_free_item pool x = Some ?pool" by (rule free_item_eq[OF Cons.prems(1) x(1)])
  have pi: "pool_inv ?pool (x # fl)" using pool_inv_give[OF Cons.prems(1) x(1,2)] by simp
  have sg: "seg (\<lambda>i. nxt (items ?pool i)) (nxt (items pool x)) ids e"
    using Cons.prems(2) x by simp
  have "\<exists>pool'. drc_clean_convert_q_loop (length ids) self inst ?pool ?q (nxt (items pool x)) =
             Some (pool', ?q\<lparr>list_count := list_count ?q - of_nat (length ids)\<rparr>,
                   map (err_reply self) (filter (\<lambda>r. inst_id r \<noteq> inst) (reqs ?pool ids))) \<and>
           pool_inv pool' (rev ids @ (x # fl)) \<and> qstep ?pool (x # fl) ids pool' (rev ids @ (x # fl)) []"
    using Cons.prems by (intro Cons.IH[OF pi sg]) auto
  then obtain pool' where IH: "drc_clean_convert_q_loop (length ids) self inst ?pool ?q (nxt (items pool x)) =
             Some (pool', ?q\<lparr>list_count := list_count ?q - of_nat (length ids)\<rparr>,
                   map (err_reply self) (filter (\<lambda>r. inst_id r \<noteq> inst) (reqs ?pool ids)))"
     "pool_inv pool' (rev ids @ (x # fl))" "qstep ?pool (x # fl) ids pool' (rev ids @ (x # fl)) []"
    by blast
  have rq: "reqs ?pool ids = reqs pool ids" using x(3) by auto
  have "drc_clean_convert_q_loop (length (x # ids)) self inst pool q s =
      Some (pool', q\<lparr>list_count := list_count q - of_nat (length (x # ids))\<rparr>,
            map (err_reply self) (filter (\<lambda>r. inst_id r \<noteq> inst) (reqs pool (x # ids))))"
    using IH(1)[unfolded rq] x fr by (simp add: err_reply_def)
  moreover have "qstep pool fl (x # ids) pool' (rev (x # ids) @ fl) []"
    using IH(3) x by (auto simp: qstep_def)
  ultimately show ?case using IH(2) by (intro exI[of _ pool']) simp
qed

lemma clean_q_spec:
  assumes "qrep pool fl q ids"
  shows "\<exists>pool' q'. drc_clean_convert_q self inst pool q =
             Some (pool', q', map (err_reply self) (filter (\<lambda>r. inst_id r \<noteq> inst) (reqs pool ids))) \<and>
           qrep pool' (rev ids @ fl) q' [] \<and> qstep pool fl ids pool' (rev ids @ fl) []"
proof (cases "ids = []")
  case True
  then have "list_count q = 0" using assms queue_inv_count by (auto simp: qrep_def)
  then show ?thesis using True assms by (simp add: drc_clean_convert_q_def)
next
  case False
  have q: "queue_inv pool q ids" using assms by (simp add: qrep_def)
  note c = queue_inv_count[OF q]
  from clean_loop_spec[of pool fl "list_first q" ids CT_INVALID_ID32 self inst q] assms q
  obtain pool' where L: "drc_clean_convert_q_loop (length ids) self inst pool q (list_first q) =
             Some (pool', q\<lparr>list_count := list_count q - of_nat (length ids)\<rparr>,
                   map (err_reply self) (filter (\<lambda>r. inst_id r \<noteq> inst) (reqs pool ids)))"
    "pool_inv pool' (rev ids @ fl)" "qstep pool fl ids pool' (rev ids @ fl) []"
    by (auto simp: qrep_def queue_inv_def)
  moreover have "list_count q - of_nat (length ids) = 0" using q by (simp add: queue_inv_def)
  ultimately show ?thesis
    using False c by (simp add: drc_clean_convert_q_def qrep_def)
qed


section \<open>The queue as a FIFO\<close>

text \<open>Enqueueing a list of requests, and dequeueing a number of them.\<close>

fun enq_all :: "('a \<Rightarrow> 's \<Rightarrow> (status_t \<times> 's) option) \<Rightarrow> 'a list \<Rightarrow> 's \<Rightarrow> 's option" where
  "enq_all enq [] s = Some s"
| "enq_all enq (a # as) s =
     do { (ret, s') \<leftarrow> enq a s; if ret = CT_SUCCESS then enq_all enq as s' else None }"

fun deq_all :: "('s \<Rightarrow> ('a \<times> 's) option) \<Rightarrow> nat \<Rightarrow> 's \<Rightarrow> ('a list \<times> 's) option" where
  "deq_all deq 0 s = Some ([], s)"
| "deq_all deq (Suc n) s = do { (a, s') \<leftarrow> deq s; (as, s'') \<leftarrow> deq_all deq n s'; Some (a # as, s'') }"

text \<open>
  The interface of a waiting queue with bounded room: what the master relies on when it
  serves the waiters of a resource.
\<close>

locale wait_queue =
  fixes inv :: "'s \<Rightarrow> bool" and waiting :: "'s \<Rightarrow> 'a list" and room :: "'s \<Rightarrow> nat"
    and enq :: "'a \<Rightarrow> 's \<Rightarrow> (status_t \<times> 's) option" and deq :: "'s \<Rightarrow> ('a \<times> 's) option"
  assumes enq_room: "inv s \<Longrightarrow> 0 < room s \<Longrightarrow>
      \<exists>s'. enq a s = Some (CT_SUCCESS, s') \<and> inv s' \<and> waiting s' = waiting s @ [a] \<and> room s = Suc (room s')"
    and enq_full: "inv s \<Longrightarrow> room s = 0 \<Longrightarrow> enq a s = Some (CT_ERROR, s)"
    and deq_Cons: "inv s \<Longrightarrow> waiting s = a # as \<Longrightarrow>
      \<exists>s'. deq s = Some (a, s') \<and> inv s' \<and> waiting s' = as \<and> room s' = Suc (room s)"
begin

lemma enq_all_spec:
  assumes "inv s" "length as \<le> room s"
  shows "\<exists>s'. enq_all enq as s = Some s' \<and> inv s' \<and> waiting s' = waiting s @ as \<and>
           room s = room s' + length as"
  using assms
proof (induction as arbitrary: s)
  case Nil
  then show ?case by simp
next
  case (Cons a as)
  then obtain s1 where s1: "enq a s = Some (CT_SUCCESS, s1)" "inv s1" "waiting s1 = waiting s @ [a]"
      "room s = Suc (room s1)"
    using enq_room[of s a] by auto
  then show ?case using Cons.IH[of s1] Cons.prems by auto
qed

lemma deq_all_spec:
  assumes "inv s" "waiting s = as @ bs"
  shows "\<exists>s'. deq_all deq (length as) s = Some (as, s') \<and> inv s' \<and> waiting s' = bs \<and>
           room s' = room s + length as"
  using assms
proof (induction as arbitrary: s)
  case Nil
  then show ?case by simp
next
  case (Cons a as)
  then obtain s1 where s1: "deq s = Some (a, s1)" "inv s1" "waiting s1 = as @ bs" "room s1 = Suc (room s)"
    using deq_Cons[of s a "as @ bs"] by auto
  then show ?case using Cons.IH[of s1] by auto
qed

text \<open>Requests come out in the order they went in, behind those that were waiting already.\<close>

lemma fifo:
  assumes "inv s" "length as \<le> room s"
  shows "\<exists>s1 s2. enq_all enq as s = Some s1 \<and>
           deq_all deq (length (waiting s) + length as) s1 = Some (waiting s @ as, s2) \<and>
           inv s2 \<and> waiting s2 = [] \<and> room s2 = room s + length (waiting s)"
proof -
  obtain s1 where s1: "enq_all enq as s = Some s1" "inv s1" "waiting s1 = waiting s @ as"
      "room s = room s1 + length as"
    using enq_all_spec[OF assms] by blast
  then show ?thesis using deq_all_spec[of s1 "waiting s @ as" "[]"] by auto
qed

end

text \<open>The concrete queue: a pool and a list head.\<close>

fun q_walk :: "nat \<Rightarrow> item_pool_t \<Rightarrow> uint32 \<Rightarrow> uint32 list" where
  "q_walk 0 pool i = []"
| "q_walk (Suc n) pool i = i # q_walk n pool (nxt (items pool i))"

definition cq_inv :: "item_pool_t \<times> drc_lock_q_t \<Rightarrow> bool" where
  "cq_inv s \<longleftrightarrow> (\<exists>fl ids. qrep (fst s) fl (snd s) ids)"

definition cq_waiting :: "item_pool_t \<times> drc_lock_q_t \<Rightarrow> drc_req_info_t list" where
  "cq_waiting s = reqs (fst s) (q_walk (unat (list_count (snd s))) (fst s) (list_first (snd s)))"

definition cq_room :: "item_pool_t \<times> drc_lock_q_t \<Rightarrow> nat" where
  "cq_room s = unat (item_num (fst s)) - unat (used_num (fst s))"

definition cq_enq :: "drc_req_info_t \<Rightarrow> item_pool_t \<times> drc_lock_q_t \<Rightarrow> (status_t \<times> item_pool_t \<times> drc_lock_q_t) option" where
  "cq_enq req s = drc_cvt_q_enqueue (fst s) (snd s) req"

definition cq_deq :: "item_pool_t \<times> drc_lock_q_t \<Rightarrow> (drc_req_info_t \<times> item_pool_t \<times> drc_lock_q_t) option" where
  "cq_deq s = do { (item, s') \<leftarrow> drc_cvt_q_dequeue (fst s) (snd s); Some (req_info item, s') }"

lemma q_walk_seg: "seg (\<lambda>i. nxt (items pool i)) s ids e \<Longrightarrow> q_walk (length ids) pool s = ids"
  by (induction ids arbitrary: s) auto

lemma cq_waiting_qrep: "qrep pool fl q ids \<Longrightarrow> cq_waiting (pool, q) = reqs pool ids"
  using queue_inv_count(1)[of pool q ids] q_walk_seg[of pool "list_first q" ids CT_INVALID_ID32]
  by (simp add: cq_waiting_def qrep_def queue_inv_def)

lemma cq_room_qrep: "qrep pool fl q ids \<Longrightarrow> cq_room (pool, q) = length fl"
  by (auto simp: cq_room_def qrep_def pool_inv_def)

interpretation cq: wait_queue cq_inv cq_waiting cq_room cq_enq cq_deq
proof
  fix s :: "item_pool_t \<times> drc_lock_q_t" and a as
  obtain pool q where s: "s = (pool, q)" by fastforce
  assume "cq_inv s"
  then obtain fl ids where r: "qrep pool fl q ids" by (auto simp: cq_inv_def s)
  note w = cq_waiting_qrep[OF r] cq_room_qrep[OF r]
  show "\<exists>s'. cq_enq a s = Some (CT_SUCCESS, s') \<and> cq_inv s' \<and> cq_waiting s' = cq_waiting s @ [a] \<and>
         cq_room s = Suc (cq_room s')" if "0 < cq_room s"
  proof -
    from that w s obtain x fl' where fl: "fl = x # fl'" by (cases fl) auto
    from enqueue_spec[OF r[unfolded fl], of a] obtain pool' q' where
      e: "drc_cvt_q_enqueue pool q a = Some (CT_SUCCESS, pool', q')" "qrep pool' fl' q' (ids @ [x])"
         "reqs pool' (ids @ [x]) = reqs pool ids @ [a]" by blast
    then show ?thesis
      using cq_waiting_qrep[OF e(2)] cq_room_qrep[OF e(2)] w fl s
      by (intro exI[of _ "(pool', q')"]) (auto simp: cq_enq_def cq_inv_def)
  qed
  show "cq_enq a s = Some (CT_ERROR, s)" if "cq_room s = 0"
    using that w s r enqueue_full[of pool q ids a] by (auto simp: cq_enq_def)
  show "\<exists>s'. cq_deq s = Some (a, s') \<and> cq_inv s' \<and> cq_waiting s' = as \<and> cq_room s' = Suc (cq_room s)"
    if "cq_waiting s = a # as"
  proof -
    from that w s obtain x ids' where ids: "ids = x # ids'" "a = req_info (items pool x)" "as = reqs pool ids'"
      by (cases ids) auto
    from dequeue_spec[OF r[unfolded ids(1)]] obtain pool' q' where
      e: "drc_cvt_q_dequeue pool q = Some (items pool x, pool', q')" "qrep pool' (x # fl) q' ids'"
         "reqs pool' ids' = reqs pool ids'" by blast
    then show ?thesis
      using cq_waiting_qrep[OF e(2)] cq_room_qrep[OF e(2)] w ids s
      by (intro exI[of _ "(pool', q')"]) (auto simp: cq_deq_def cq_inv_def)
  qed
qed

section \<open>Properties\<close>

definition demo_req :: "uint8 \<Rightarrow> uint8 \<Rightarrow> drc_req_info_t" where
  "demo_req i m = g_invalid_req_info\<lparr>inst_id := i, req_mode := m, inst_sid := 7, rsn := 11, req_time := 900, req_version := 3\<rparr>"

text \<open>Items 0 and 1 hold requests of the instances 1 and 2, item 2 is free.\<close>

definition demo_items :: item_pool_t where
  "demo_items = \<lparr>pool_inited = True, free_list = 2, item_num = 3, used_num = 2, item_size = 56,
     items = (\<lambda>i. if i = 0 then \<lparr>nxt = 1, req_info = demo_req 1 DRC_LOCK_EXCLUSIVE\<rparr>
                  else \<lparr>nxt = CT_INVALID_ID32, req_info = demo_req 2 DRC_LOCK_SHARE\<rparr>), recycle_pos = 0\<rparr>"

definition demo_q :: drc_lock_q_t where
  "demo_q = \<lparr>list_first = 0, list_last = 1, list_count = 2\<rparr>"

lemma demo_qrep: "qrep demo_items [2] demo_q [0, 1]"
  by (simp add: qrep_def queue_inv_def pool_inv_def demo_items_def demo_q_def)

text \<open>
  C21: The convert queue is a FIFO over the shared item pool: whatever is enqueued while the
  pool has room comes out behind the requests already waiting and in the order it went in,
  and serving them all returns every lock item to the pool.
\<close>

theorem convert_queue_fifo:
  assumes "cq_inv (pool, q)" and "length as \<le> cq_room (pool, q)"
  shows "\<exists>s1 s2. enq_all cq_enq as (pool, q) = Some s1 \<and>
           deq_all cq_deq (length (cq_waiting (pool, q)) + length as) s1 = Some (cq_waiting (pool, q) @ as, s2) \<and>
           cq_inv s2 \<and> cq_waiting s2 = [] \<and> cq_room s2 = cq_room (pool, q) + length (cq_waiting (pool, q))"
  using assms by (rule cq.fifo)

theorem convert_queue_fifo_witness:
  "\<exists>s1 s2. enq_all cq_enq [demo_req 0 DRC_LOCK_SHARE] (demo_items, demo_q) = Some s1 \<and>
     deq_all cq_deq 3 s1 =
       Some ([demo_req 1 DRC_LOCK_EXCLUSIVE, demo_req 2 DRC_LOCK_SHARE, demo_req 0 DRC_LOCK_SHARE], s2) \<and>
     cq_room s2 = 3"
proof -
  have w: "cq_waiting (demo_items, demo_q) = [demo_req 1 DRC_LOCK_EXCLUSIVE, demo_req 2 DRC_LOCK_SHARE]"
    using cq_waiting_qrep[OF demo_qrep] by (simp add: demo_items_def)
  have r: "cq_room (demo_items, demo_q) = 1" using cq_room_qrep[OF demo_qrep] by simp
  have "cq_inv (demo_items, demo_q)" using demo_qrep by (auto simp: cq_inv_def)
  from convert_queue_fifo[OF this, of "[demo_req 0 DRC_LOCK_SHARE]"] show ?thesis
    by (auto simp: w r numeral_3_eq_3)
qed

text \<open>
  C22: Cleaning the convert queue of a resource for a crashed instance returns every waiting
  lock item to the pool, leaves the queue empty, touches no item of another queue, and sends
  exactly one error reply to each waiting request of the other instances, in queue order.
\<close>

theorem clean_convert_q_frees_and_answers:
  assumes "qrep pool fl q ids"
  shows "\<exists>pool' q'. drc_clean_convert_q self inst pool q =
             Some (pool', q', map (err_reply self) (filter (\<lambda>r. inst_id r \<noteq> inst) (reqs pool ids))) \<and>
           qrep pool' (rev ids @ fl) q' [] \<and> qstep pool fl ids pool' (rev ids @ fl) []"
  using assms by (rule clean_q_spec)

theorem clean_convert_q_witness:
  "\<exists>pool' q'. drc_clean_convert_q 0 1 demo_items demo_q = Some (pool', q', [err_reply 0 (demo_req 2 DRC_LOCK_SHARE)]) \<and>
     pool_inv pool' [1, 0, 2] \<and> list_count q' = 0"
proof -
  have f: "filter (\<lambda>r. inst_id r \<noteq> 1) (reqs demo_items [0, 1]) = [demo_req 2 DRC_LOCK_SHARE]"
    by (simp add: demo_items_def demo_req_def)
  show ?thesis
    using clean_convert_q_frees_and_answers[OF demo_qrep, of 0 1] f
    by (auto simp: qrep_def queue_inv_def)
qed

end
