(* ===== verification/Drc_Page.thy ===== *)
theory Drc_Page
  imports Drc_Queue
begin

text \<open>
  One page resource of the master: the record \<open>drc_buf_res_t\<close> and the operations of
  \<open>dtc_drc.c\<close> that work on a single page under its bucket lock. Its owner, lock mode and
  read-only copies say which instances hold the page; \<open>edp_map\<close> remembers the instances with
  an earlier dirty page; \<open>converting\<close> and \<open>convert_q\<close> the requests being served and waiting.
  An operation takes the record and, where it touches the queue, the lock item pool, and
  returns them updated. Statistics counters and log output have no effect on this state and
  are left out, as is the \<open>lock\<close> field.

  Theorems: the invariant of a page (one writer and no reader beside it, valid owners, nobody
  queued unless someone is converting) is kept by every operation, no operation stops at an
  assertion, and what each of them does to owner, mode and queue.
\<close>

section \<open>Data\<close>

datatype drc_res_action_e =
  DRC_RES_INVALID_ACTION | DRC_RES_PENDING_ACTION | DRC_RES_SHARE_ACTION
| DRC_RES_EXCLUSIVE_ACTION | DRC_RES_CLEAN_EDP_ACTION

record drc_buf_res_t = drc_part_res +
  claimed_owner :: uint8
  latest_edp :: uint8
  pending :: drc_res_action_e
  latest_edp_lsn :: uint64
  mode :: uint8
  page_id :: page_id_t
  converting :: drc_lock_item_t
  convert_q :: drc_lock_q_t
  is_used :: bool
  edp_map :: uint64
  lsn :: uint64
  readonly_copies :: uint64

lemma converting_nxt [simp]: "converting (b\<lparr>nxt := n\<rparr>) = converting b"
  by (cases b) simp

text \<open>What \<open>memset_s\<close> with zero leaves of a page resource.\<close>

definition zero_req_info :: drc_req_info_t where
  "zero_req_info = \<lparr>inst_id = 0, req_mode = 0, curr_mode = 0, req_owner_result = DRC_REQ_OWNER_INVALID,
     inst_sid = 0, rsn = 0, req_time = 0, req_version = 0, req_lsn = 0, release_timeout_ticks = 0\<rparr>"

definition zero_buf_res :: drc_buf_res_t where
  "zero_buf_res = \<lparr>nxt = 0, res_idx = 0, part_id = 0, node = \<lparr>node_prev = 0, node_next = 0, node_idx = 0\<rparr>,
     claimed_owner = 0, latest_edp = 0, pending = DRC_RES_INVALID_ACTION, latest_edp_lsn = 0, mode = 0,
     page_id = \<lparr>page_no = 0, file_no = 0\<rparr>, converting = \<lparr>nxt = 0, req_info = zero_req_info\<rparr>,
     convert_q = \<lparr>list_first = 0, list_last = 0, list_count = 0\<rparr>, is_used = False, edp_map = 0,
     lsn = 0, readonly_copies = 0\<rparr>"

record claim_info_t =
  new_id :: uint8
  claim_sid :: uint16
  claim_page :: page_id_t
  claim_lsn :: uint64
  has_edp :: bool
  claim_mode :: uint8

record cvt_info_t =
  owner_id :: uint8
  req_id :: uint8
  req_sid :: uint16
  req_rsn :: uint32
  pageid :: page_id_t
  cvt_req_mode :: uint8
  cvt_curr_mode :: uint8
  cvt_readonly_copies :: uint64
  cvt_req_version :: uint64
  cvt_lsn :: uint64

record drc_req_owner_result_t =
  res_type :: drc_req_owner_result_type
  res_action :: drc_res_action_e
  curr_owner_id :: uint8
  is_retry :: bool
  res_req_mode :: uint8
  res_readonly_copies :: uint64

record drc_edp_info_t =
  info_edp_map :: uint64
  info_lsn :: uint64
  info_readonly_copies :: uint64
  info_latest_edp :: uint8

definition is_same_page :: "page_id_t \<Rightarrow> drc_buf_res_t \<Rightarrow> bool" where
  "is_same_page pagid buf_res \<longleftrightarrow>
     file_no (page_id buf_res) = file_no pagid \<and> page_no (page_id buf_res) = page_no pagid"

abbreviation cvt_inst :: "drc_buf_res_t \<Rightarrow> uint8" where
  "cvt_inst b \<equiv> inst_id (req_info (converting b))"

abbreviation set_cvt_req :: "drc_req_info_t \<Rightarrow> drc_buf_res_t \<Rightarrow> drc_buf_res_t" where
  "set_cvt_req r b \<equiv> b\<lparr>converting := (converting b)\<lparr>req_info := r\<rparr>\<rparr>"

section \<open>Operations\<close>

fun drc_select_loop :: "nat \<Rightarrow> uint8 \<Rightarrow> uint64 \<Rightarrow> uint8 option" where
  "drc_select_loop 0 index readonly_copy = Some CT_INVALID_ID8"
| "drc_select_loop (Suc k) index readonly_copy =
     do { ex \<leftarrow> drc_bitmap64_exist readonly_copy index;
          if ex then Some index else drc_select_loop k (index + 1) readonly_copy }"

definition drc_select_one_instance_from_readonly_copy :: "uint64 \<Rightarrow> uint8 option" where
  "drc_select_one_instance_from_readonly_copy readonly_copy =
     drc_select_loop (unat CT_MAX_INSTANCES) 0 readonly_copy"

definition drc_clean_buf_res :: "drc_buf_res_t \<Rightarrow> drc_buf_res_t option" where
  "drc_clean_buf_res b =
     do { knl_panic (claimed_owner b = CT_INVALID_ID8);
          if readonly_copies b \<noteq> 0 then
            do { i \<leftarrow> drc_select_one_instance_from_readonly_copy (readonly_copies b);
                 let b = b\<lparr>claimed_owner := i, pending := DRC_RES_SHARE_ACTION\<rparr>;
                 knl_panic (mode b = DRC_LOCK_SHARE);
                 rc \<leftarrow> drc_bitmap64_clear (readonly_copies b) (claimed_owner b);
                 Some (b\<lparr>readonly_copies := rc\<rparr>) }
          else if edp_map b \<noteq> 0 then
            do { let b = b\<lparr>claimed_owner := latest_edp b\<rparr>;
                 knl_panic (claimed_owner b \<noteq> CT_INVALID_ID8);
                 let b = b\<lparr>pending := DRC_RES_EXCLUSIVE_ACTION\<rparr>;
                 knl_panic (mode b \<noteq> DRC_LOCK_SHARE);
                 Some b }
          else Some b }"

definition buf_res_has_readonly_copies :: "drc_buf_res_t \<Rightarrow> uint8 \<Rightarrow> bool option" where
  "buf_res_has_readonly_copies b owner =
     do { rc \<leftarrow> drc_bitmap64_clear (readonly_copies b) owner; Some (rc \<noteq> 0) }"

definition buf_res_is_recyclable :: "drc_buf_res_t \<Rightarrow> bool" where
  "buf_res_is_recyclable b \<longleftrightarrow> cvt_inst b = CT_INVALID_ID8 \<and> edp_map b = 0"

definition BUF_RES_IS_OLD :: "drc_buf_res_t \<Rightarrow> date_t \<Rightarrow> bool" where
  "BUF_RES_IS_OLD b now \<longleftrightarrow> now - req_time (req_info (converting b)) > 60000000"

definition drc_check_new_req :: "drc_req_info_t \<Rightarrow> drc_buf_res_t \<Rightarrow> status_t option" where
  "drc_check_new_req r b =
     do { conflict \<leftarrow>
            (if cvt_inst b = claimed_owner b \<and>
                (mode b = DRC_LOCK_SHARE \<and> req_mode (req_info (converting b)) = DRC_LOCK_EXCLUSIVE) \<and>
                inst_id r \<noteq> claimed_owner b
             then drc_bitmap64_exist (readonly_copies b) (inst_id r) else Some False);
          if conflict then Some CT_ERROR
          else if inst_id r = claimed_owner b \<and> inst_id r \<noteq> cvt_inst b then Some CT_ERROR
          else Some CT_SUCCESS }"

definition drc_claim_new_page_owner :: "claim_info_t \<Rightarrow> drc_buf_res_t \<Rightarrow> drc_buf_res_t option" where
  "drc_claim_new_page_owner c b =
     do { let cur_owner = claimed_owner b;
          knl_panic (req_mode (req_info (converting b)) = claim_mode c);
          knl_panic (pending b = DRC_RES_INVALID_ACTION \<or> pending b = DRC_RES_SHARE_ACTION \<or>
                     pending b = DRC_RES_EXCLUSIVE_ACTION);
          let b = b\<lparr>pending := DRC_RES_INVALID_ACTION\<rparr>;
          if claim_mode c \<le> mode b \<and> claimed_owner b = new_id c then Some b
          else do {
            b \<leftarrow>
              (if claim_mode c = DRC_LOCK_SHARE then
                 do { knl_panic (claimed_owner b \<noteq> CT_INVALID_ID8);
                      let b = b\<lparr>mode := DRC_LOCK_SHARE\<rparr>;
                      rc \<leftarrow> drc_bitmap64_set (readonly_copies b) (new_id c);
                      Some (b\<lparr>readonly_copies := rc\<rparr>) }
               else
                 do { rc \<leftarrow> drc_bitmap64_clear (readonly_copies b) (new_id c);
                      rc \<leftarrow> drc_bitmap64_clear rc (claimed_owner b);
                      knl_panic (rc = 0);
                      let b = b\<lparr>claimed_owner := new_id c, mode := claim_mode c, readonly_copies := 0\<rparr>;
                      edp \<leftarrow> drc_bitmap64_clear (edp_map b) (new_id c);
                      let b = b\<lparr>edp_map := edp\<rparr>;
                      if has_edp c then
                        do { knl_panic (claim_mode c = DRC_LOCK_EXCLUSIVE);
                             edp \<leftarrow> drc_bitmap64_set (edp_map b) cur_owner;
                             knl_panic (claim_lsn c \<noteq> 0);
                             Some (b\<lparr>edp_map := edp, latest_edp := cur_owner, latest_edp_lsn := claim_lsn c\<rparr>) }
                      else Some b });
            if claim_lsn c > 0 then
              do { knl_panic (claim_lsn c \<ge> lsn b); Some (b\<lparr>lsn := claim_lsn c\<rparr>) }
            else Some b } }"

definition drc_check_first_req_in_convert_queue ::
  "item_pool_t \<Rightarrow> drc_buf_res_t \<Rightarrow> (uint32 \<times> drc_buf_res_t) option" where
  "drc_check_first_req_in_convert_queue pool b =
     (if list_count (convert_q b) \<noteq> 0 then
        do { let lock_item_id = list_first (convert_q b);
             lock_item \<leftarrow> DRC_GET_RES_ADDR_BY_ID pool lock_item_id;
             ret \<leftarrow> drc_check_new_req (req_info lock_item) b;
             if ret \<noteq> CT_SUCCESS then
               Some (lock_item_id, b\<lparr>convert_q := (convert_q b)\<lparr>list_first := nxt lock_item,
                                     list_count := list_count (convert_q b) - 1\<rparr>\<rparr>)
             else Some (CT_INVALID_ID32, b) }
      else Some (CT_INVALID_ID32, b))"

text \<open>
  The loop of \<open>drc_convert_next_request\<close>: \<open>now k\<close> is the clock at its \<open>k\<close>-th request. The
  result says whether a request was taken.
\<close>

abbreviation DCS_WAIT_MSG_TIMEOUT :: date_t where "DCS_WAIT_MSG_TIMEOUT \<equiv> 3600000"
abbreviation MICROSECS_PER_MILLISEC :: date_t where "MICROSECS_PER_MILLISEC \<equiv> 1000"

lemma dequeue_count:
  "drc_cvt_q_dequeue pool q = Some (it, pool', q') \<Longrightarrow> list_count q' = list_count q - 1"
  by (auto simp: drc_cvt_q_dequeue_def Let_def elim!: bind_eq_SomeE)

function drc_convert_next_loop ::
  "nat \<Rightarrow> (nat \<Rightarrow> date_t) \<Rightarrow> item_pool_t \<Rightarrow> drc_buf_res_t \<Rightarrow> (bool \<times> item_pool_t \<times> drc_buf_res_t) option" where
  "drc_convert_next_loop k now pool b =
     (if list_count (convert_q b) = 0 then
        Some (False, pool, set_cvt_req ((req_info (converting b))
                \<lparr>inst_id := CT_INVALID_ID8, req_mode := DRC_LOCK_NULL, inst_sid := CT_INVALID_ID16\<rparr>) b)
      else do {
        (lock_item, pool, q) \<leftarrow> drc_cvt_q_dequeue pool (convert_q b);
        if req_time (req_info lock_item) + DCS_WAIT_MSG_TIMEOUT * MICROSECS_PER_MILLISEC \<le> now k
        then drc_convert_next_loop (Suc k) now pool (b\<lparr>convert_q := q, converting := lock_item\<rparr>)
        else Some (True, pool, b\<lparr>convert_q := q, converting := lock_item\<rparr>) })"
  by pat_completeness auto

termination
proof (relation "measure (\<lambda>(k, now, pool, b). unat (list_count (convert_q b)))")
  show "wf (measure (\<lambda>(k, now, pool, b). unat (list_count (convert_q b))))" by simp
  fix k now pool and b :: drc_buf_res_t and x lock_item y pool' q
  assume "list_count (convert_q b) \<noteq> 0" "drc_cvt_q_dequeue pool (convert_q b) = Some x"
    "(lock_item, y) = x" "(pool', q) = y"
  then show "((Suc k, now, pool', b\<lparr>convert_q := q, converting := lock_item\<rparr>), k, now, pool, b)
      \<in> measure (\<lambda>(k, now, pool, b). unat (list_count (convert_q b)))"
    using dequeue_count[of pool "convert_q b" lock_item pool' q]
    by (auto simp: unat_minus_1 word_neq_0_conv word_less_nat_alt)
qed

definition drc_convert_next_request ::
  "(nat \<Rightarrow> date_t) \<Rightarrow> item_pool_t \<Rightarrow> drc_buf_res_t \<Rightarrow> cvt_info_t
     \<Rightarrow> (uint32 \<times> item_pool_t \<times> drc_buf_res_t \<times> cvt_info_t) option" where
  "drc_convert_next_request now pool b cvt =
     do { let cvt = cvt\<lparr>cvt_readonly_copies := 0, pageid := page_id b, owner_id := claimed_owner b\<rparr>;
          (found, pool, b) \<leftarrow> drc_convert_next_loop 0 now pool b;
          if \<not> found then Some (CT_INVALID_ID32, pool, b, cvt)
          else do {
            let r = req_info (converting b);
            let cvt = cvt\<lparr>req_id := inst_id r, req_sid := inst_sid r, req_rsn := rsn r,
                          cvt_req_mode := req_mode r, cvt_curr_mode := curr_mode r,
                          cvt_req_version := req_version r, cvt_lsn := req_lsn r,
                          pageid := page_id b, owner_id := claimed_owner b\<rparr>;
            rc \<leftarrow> drc_bitmap64_clear (readonly_copies b) (req_id cvt);
            rc \<leftarrow> drc_bitmap64_clear rc (owner_id cvt);
            let cvt = cvt\<lparr>cvt_readonly_copies := rc\<rparr>;
            (conflict, b) \<leftarrow> drc_check_first_req_in_convert_queue pool b;
            Some (conflict, pool, b, cvt) } }"

definition drc_is_same_claim_request :: "drc_req_info_t \<Rightarrow> claim_info_t \<Rightarrow> bool" where
  "drc_is_same_claim_request r c \<longleftrightarrow>
     inst_id r = new_id c \<and> inst_sid r = claim_sid c \<and> req_mode r = claim_mode c"

definition drc_claim_info_is_invalid :: "claim_info_t \<Rightarrow> drc_buf_res_t \<Rightarrow> bool" where
  "drc_claim_info_is_invalid c b =
     (if claim_mode c = DRC_LOCK_SHARE \<and> claimed_owner b = CT_INVALID_ID8 then True
      else if claim_mode c \<noteq> DRC_LOCK_SHARE \<and> has_edp c \<and>
              \<not> (claim_mode c = DRC_LOCK_EXCLUSIVE \<and> claim_lsn c \<noteq> 0) then True
      else if claim_lsn c > 0 \<and> claim_lsn c < lsn b then True
      else False)"

text \<open>
  The result of \<open>drc_keep_requester_wait\<close>: status, pool, page, the request (a retry may raise
  its mode), and the flags \<open>converting\<close> and \<open>is_retry\<close>.
\<close>

definition drc_keep_requester_wait ::
  "item_pool_t \<Rightarrow> drc_req_info_t \<Rightarrow> drc_buf_res_t \<Rightarrow> bool
     \<Rightarrow> (status_t \<times> item_pool_t \<times> drc_buf_res_t \<times> drc_req_info_t \<times> bool \<times> bool) option" where
  "drc_keep_requester_wait pool r b is_try =
     (if cvt_inst b = CT_INVALID_ID8 then
        (if is_try \<and> claimed_owner b \<noteq> inst_id r then Some (CT_SUCCESS, pool, b, r, False, False)
         else do { knl_panic (list_count (convert_q b) = 0);
                   Some (CT_SUCCESS, pool, b\<lparr>converting := \<lparr>nxt = CT_INVALID_ID32, req_info = r\<rparr>\<rparr>,
                         r, True, False) })
      else if is_try then Some (CT_SUCCESS, pool, b, r, False, False)
      else do {
        ret \<leftarrow> drc_check_new_req r b;
        if ret \<noteq> CT_SUCCESS then Some (ret, pool, b, r, False, False)
        else if drc_is_retry_request (req_info (converting b)) r then
          (if req_time (req_info (converting b)) \<le> req_time r then
             (let r = r\<lparr>req_mode := max (req_mode (req_info (converting b))) (req_mode r)\<rparr>
              in Some (CT_SUCCESS, pool, set_cvt_req r b, r, True, True))
           else Some (CT_ERROR, pool, b, r, False, False))
        else do {
          found \<leftarrow> (if list_count (convert_q b) > 0 then drc_search_item_by_reqid pool (convert_q b) r
                   else Some None);
          case found of
            Some item_id \<Rightarrow>
              do { item \<leftarrow> DRC_GET_RES_ADDR_BY_ID pool item_id;
                   if req_lsn (req_info item) \<noteq> req_lsn r then Some (CT_ERROR, pool, b, r, False, False)
                   else do { pool \<leftarrow> drc_res_put pool item_id (item\<lparr>req_info := r\<rparr>);
                             Some (CT_SUCCESS, pool, b, r, False, False) } }
          | None \<Rightarrow>
              do { (ret, pool, q) \<leftarrow> drc_cvt_q_enqueue pool (convert_q b) r;
                   Some (ret, pool, b\<lparr>convert_q := q\<rparr>, r, False, False) } } })"

section \<open>The invariant of a page\<close>

definition req_ok :: "drc_req_info_t \<Rightarrow> bool" where
  "req_ok r \<longleftrightarrow> inst_id r < CT_MAX_INSTANCES \<and> (req_mode r = DRC_LOCK_SHARE \<or> req_mode r = DRC_LOCK_EXCLUSIVE)"

definition page_inv :: "drc_buf_res_t \<Rightarrow> drc_req_info_t list \<Rightarrow> bool" where
  "page_inv b rs \<longleftrightarrow>
     (cvt_inst b = CT_INVALID_ID8 \<longrightarrow> rs = []) \<and>
     (cvt_inst b \<noteq> CT_INVALID_ID8 \<longrightarrow>
        req_ok (req_info (converting b)) \<and> claimed_owner b \<noteq> CT_INVALID_ID8 \<and> pending b \<noteq> DRC_RES_PENDING_ACTION) \<and>
     (\<forall>r \<in> set rs. req_ok r) \<and>
     (claimed_owner b = CT_INVALID_ID8 \<or> claimed_owner b < CT_MAX_INSTANCES) \<and>
     pending b \<noteq> DRC_RES_CLEAN_EDP_ACTION \<and>
     (readonly_copies b \<noteq> 0 \<longrightarrow> mode b = DRC_LOCK_SHARE) \<and>
     (edp_map b \<noteq> 0 \<longrightarrow> latest_edp b < CT_MAX_INSTANCES) \<and>
     (claimed_owner b = CT_INVALID_ID8 \<and> readonly_copies b = 0 \<and> edp_map b \<noteq> 0 \<longrightarrow> mode b \<noteq> DRC_LOCK_SHARE)"

text \<open>The fields that place a page resource in the map, which no operation on a page changes.\<close>

definition same_ident :: "drc_buf_res_t \<Rightarrow> drc_buf_res_t \<Rightarrow> bool" where
  "same_ident b b' \<longleftrightarrow> nxt b' = nxt b \<and> res_idx b' = res_idx b \<and> part_id b' = part_id b \<and>
     node b' = node b \<and> page_id b' = page_id b \<and> is_used b' = is_used b"

lemma same_ident_refl [simp]: "same_ident b b"
  by (simp add: same_ident_def)

lemma same_ident_trans: "same_ident a b \<Longrightarrow> same_ident b c \<Longrightarrow> same_ident a c"
  by (simp add: same_ident_def)

lemma page_invD:
  assumes "page_inv b rs"
  shows "cvt_inst b = CT_INVALID_ID8 \<Longrightarrow> rs = []"
    "cvt_inst b \<noteq> CT_INVALID_ID8 \<Longrightarrow> req_ok (req_info (converting b))"
    "cvt_inst b \<noteq> CT_INVALID_ID8 \<Longrightarrow> claimed_owner b < CT_MAX_INSTANCES"
    "cvt_inst b \<noteq> CT_INVALID_ID8 \<Longrightarrow> pending b \<noteq> DRC_RES_PENDING_ACTION"
    "claimed_owner b = CT_INVALID_ID8 \<or> claimed_owner b < CT_MAX_INSTANCES"
    "readonly_copies b \<noteq> 0 \<Longrightarrow> mode b = DRC_LOCK_SHARE"
  using assms unfolding page_inv_def by auto

lemma select_loop_spec:
  assumes "unat i + k = 64"
  shows "drc_select_loop k i bm = Some CT_INVALID_ID8 \<and> (\<forall>j \<in> insts bm. j < i) \<or>
         (\<exists>j \<in> insts bm. drc_select_loop k i bm = Some j \<and> i \<le> j \<and> (\<forall>j' \<in> insts bm. i \<le> j' \<longrightarrow> j \<le> j'))"
  using assms
proof (induction k arbitrary: i)
  case 0
  then have "unat i = unat CT_MAX_INSTANCES" by simp
  then have "i = CT_MAX_INSTANCES" by (simp only: unat_eq_iff)
  then show ?case by (auto dest: insts_less)
next
  case (Suc k)
  then have lt: "i < CT_MAX_INSTANCES" by (simp add: word_less_nat_alt)
  have u: "unat (i + 1) = Suc (unat i)" using Suc.prems by (simp add: unat_word_ariths)
  show ?case
  proof (cases "i \<in> insts bm")
    case True
    then show ?thesis using lt by (auto simp: panic_simps)
  next
    case False
    have ne: "j \<noteq> i" if "j \<in> insts bm" for j using False that by auto
    have s: "drc_select_loop (Suc k) i bm = drc_select_loop k (i + 1) bm"
      using lt False by (simp add: panic_simps)
    have "unat (i + 1) + k = 64" using u Suc.prems by simp
    from Suc.IH[OF this] show ?thesis
    proof (elim disjE bexE conjE)
      assume "\<forall>j\<in>insts bm. j < i + 1" "drc_select_loop k (i + 1) bm = Some CT_INVALID_ID8"
      moreover have "j < i + 1 \<Longrightarrow> j \<noteq> i \<Longrightarrow> j < i" for j :: uint8
        using u by (simp add: word_less_nat_alt) (metis less_antisym unat_eq_iff)
      ultimately show ?thesis using ne unfolding s by blast
    next
      fix j
      assume "j \<in> insts bm" "drc_select_loop k (i + 1) bm = Some j" "i + 1 \<le> j"
        "\<forall>j'\<in>insts bm. i + 1 \<le> j' \<longrightarrow> j \<le> j'"
      moreover have "i \<le> j' \<Longrightarrow> j' \<noteq> i \<Longrightarrow> i + 1 \<le> j'" for j' :: uint8
        using u by (simp add: word_le_nat_alt) (metis le_antisym not_less_eq_eq unat_eq_iff)
      moreover have "i + 1 \<le> j \<Longrightarrow> i \<le> j" using u by (simp add: word_le_nat_alt)
      ultimately show ?thesis using ne unfolding s by blast
    qed
  qed
qed


lemma select_spec:
  assumes "bm \<noteq> 0"
  shows "\<exists>j \<in> insts bm. drc_select_one_instance_from_readonly_copy bm = Some j \<and> (\<forall>j' \<in> insts bm. j \<le> j')"
proof -
  have ne: "insts bm \<noteq> {}" using assms by simp
  have "unat (0 :: uint8) + unat CT_MAX_INSTANCES = 64" by simp
  from select_loop_spec[OF this, of bm] ne show ?thesis
    unfolding drc_select_one_instance_from_readonly_copy_def by auto
qed

lemma clean_buf_res_spec:
  assumes "page_inv b rs" "claimed_owner b = CT_INVALID_ID8"
  shows "\<exists>b'. drc_clean_buf_res b = Some b' \<and> page_inv b' rs \<and> same_ident b b' \<and> converting b' = converting b \<and>
           convert_q b' = convert_q b \<and> mode b' = mode b \<and> lsn b' = lsn b \<and>
           (if readonly_copies b = 0 \<and> edp_map b = 0 then b' = b
            else claimed_owner b' < CT_MAX_INSTANCES \<and> pending b' \<noteq> DRC_RES_PENDING_ACTION)"
proof -
  have c: "cvt_inst b = CT_INVALID_ID8" "rs = []" using assms by (auto simp: page_inv_def)
  consider (ro) "readonly_copies b \<noteq> 0" | (edp) "readonly_copies b = 0" "edp_map b \<noteq> 0"
    | (none) "readonly_copies b = 0" "edp_map b = 0" by blast
  then show ?thesis
  proof cases
    case ro
    then obtain j where j: "j \<in> insts (readonly_copies b)"
        "drc_select_one_instance_from_readonly_copy (readonly_copies b) = Some j"
      using select_spec by blast
    have l: "j < CT_MAX_INSTANCES" using j(1) by (rule insts_less)
    have m: "mode b = DRC_LOCK_SHARE" using page_invD(6)[OF assms(1) ro] .
    show ?thesis
      using assms ro j l m c
      by (auto simp: drc_clean_buf_res_def panic_simps page_inv_def same_ident_def Let_def)
  next
    case edp
    then have "latest_edp b < CT_MAX_INSTANCES" "mode b \<noteq> DRC_LOCK_SHARE" "latest_edp b \<noteq> CT_INVALID_ID8"
      using assms by (auto simp: page_inv_def)
    then show ?thesis
      using assms edp c by (auto simp: drc_clean_buf_res_def page_inv_def same_ident_def Let_def)
  next
    case none
    then show ?thesis using assms by (auto simp: drc_clean_buf_res_def Let_def)
  qed
qed

definition new_req_conflicts :: "drc_req_info_t \<Rightarrow> drc_buf_res_t \<Rightarrow> bool" where
  "new_req_conflicts r b \<longleftrightarrow>
     (cvt_inst b = claimed_owner b \<and> mode b = DRC_LOCK_SHARE \<and> req_mode (req_info (converting b)) = DRC_LOCK_EXCLUSIVE \<and>
      inst_id r \<noteq> claimed_owner b \<and> inst_id r \<in> insts (readonly_copies b)) \<or>
     (inst_id r = claimed_owner b \<and> inst_id r \<noteq> cvt_inst b)"

lemma check_new_req_eq:
  assumes "inst_id r < CT_MAX_INSTANCES"
  shows "drc_check_new_req r b = Some (if new_req_conflicts r b then CT_ERROR else CT_SUCCESS)"
  using assms by (auto simp: drc_check_new_req_def new_req_conflicts_def panic_simps)

section \<open>Claims\<close>

lemma insts_clear_clear_0: "bm_clear (bm_clear bm i) j = 0 \<longleftrightarrow> insts bm \<subseteq> {i, j}"
  by (subst insts_eq_empty[symmetric]) auto

text \<open>A claim that matches the converting request and passes the validity check.\<close>

definition claim_ok :: "claim_info_t \<Rightarrow> drc_buf_res_t \<Rightarrow> bool" where
  "claim_ok c b \<longleftrightarrow> cvt_inst b \<noteq> CT_INVALID_ID8 \<and> drc_is_same_claim_request (req_info (converting b)) c \<and>
     \<not> drc_claim_info_is_invalid c b"

definition copies_gone :: "claim_info_t \<Rightarrow> drc_buf_res_t \<Rightarrow> bool" where
  "copies_gone c b \<longleftrightarrow> claim_mode c = DRC_LOCK_SHARE \<or> claim_mode c \<le> mode b \<and> claimed_owner b = new_id c \<or>
     insts (readonly_copies b) \<subseteq> {new_id c, claimed_owner b}"

definition claim_effect :: "claim_info_t \<Rightarrow> drc_buf_res_t \<Rightarrow> drc_buf_res_t" where
  "claim_effect c b =
     (if claim_mode c \<le> mode b \<and> claimed_owner b = new_id c then b\<lparr>pending := DRC_RES_INVALID_ACTION\<rparr>
      else
        (if claim_mode c = DRC_LOCK_SHARE
         then b\<lparr>pending := DRC_RES_INVALID_ACTION, mode := DRC_LOCK_SHARE,
                readonly_copies := bm_set (readonly_copies b) (new_id c)\<rparr>
         else b\<lparr>pending := DRC_RES_INVALID_ACTION, claimed_owner := new_id c, mode := claim_mode c,
                readonly_copies := 0,
                edp_map := (if has_edp c then bm_set (bm_clear (edp_map b) (new_id c)) (claimed_owner b)
                            else bm_clear (edp_map b) (new_id c)),
                latest_edp := (if has_edp c then claimed_owner b else latest_edp b),
                latest_edp_lsn := (if has_edp c then claim_lsn c else latest_edp_lsn b)\<rparr>)
        \<lparr>lsn := (if claim_lsn c > 0 then claim_lsn c else lsn b)\<rparr>)"

lemma claim_okD:
  assumes "page_inv b rs" "claim_ok c b"
  shows "new_id c < CT_MAX_INSTANCES" "claim_mode c = DRC_LOCK_SHARE \<or> claim_mode c = DRC_LOCK_EXCLUSIVE"
    "req_mode (req_info (converting b)) = claim_mode c" "cvt_inst b = new_id c"
    "claimed_owner b < CT_MAX_INSTANCES"
    "pending b = DRC_RES_INVALID_ACTION \<or> pending b = DRC_RES_SHARE_ACTION \<or> pending b = DRC_RES_EXCLUSIVE_ACTION"
    "claim_lsn c > 0 \<Longrightarrow> lsn b \<le> claim_lsn c"
    "claim_mode c \<noteq> DRC_LOCK_SHARE \<Longrightarrow> has_edp c \<Longrightarrow> claim_lsn c \<noteq> 0"
proof -
  have c: "cvt_inst b \<noteq> CT_INVALID_ID8" using assms(2) by (simp add: claim_ok_def)
  show "new_id c < CT_MAX_INSTANCES" "claim_mode c = DRC_LOCK_SHARE \<or> claim_mode c = DRC_LOCK_EXCLUSIVE"
    "req_mode (req_info (converting b)) = claim_mode c" "cvt_inst b = new_id c"
    using assms(2) page_invD(2)[OF assms(1) c] by (auto simp: claim_ok_def drc_is_same_claim_request_def req_ok_def)
  show "claimed_owner b < CT_MAX_INSTANCES" by (rule page_invD(3)[OF assms(1) c])
  show "pending b = DRC_RES_INVALID_ACTION \<or> pending b = DRC_RES_SHARE_ACTION \<or> pending b = DRC_RES_EXCLUSIVE_ACTION"
    using page_invD(4)[OF assms(1) c] assms(1) by (cases "pending b") (auto simp: page_inv_def)
  show "claim_lsn c > 0 \<Longrightarrow> lsn b \<le> claim_lsn c"
    "claim_mode c \<noteq> DRC_LOCK_SHARE \<Longrightarrow> has_edp c \<Longrightarrow> claim_lsn c \<noteq> 0"
    using assms(2) by (auto simp: claim_ok_def drc_claim_info_is_invalid_def not_less split: if_splits)
qed

lemma claim_new_eq:
  assumes "page_inv b rs" "claim_ok c b"
  shows "drc_claim_new_page_owner c b = (if copies_gone c b then Some (claim_effect c b) else None)"
proof -
  note d = claim_okD[OF assms]
  show ?thesis
  proof (cases "claim_mode c \<le> mode b \<and> claimed_owner b = new_id c")
    case True
    then show ?thesis
      using d(3,6) by (simp add: drc_claim_new_page_owner_def Let_def copies_gone_def claim_effect_def)
  next
    case False
    show ?thesis
    proof (cases "claim_mode c = DRC_LOCK_SHARE")
      case True
      then show ?thesis
        using False d inst_neq_invalid[OF d(5)]
        by (auto simp: drc_claim_new_page_owner_def Let_def copies_gone_def claim_effect_def panic_simps)
    next
      case X: False
      then have "claim_mode c = DRC_LOCK_EXCLUSIVE" using d(2) by simp
      then show ?thesis
        using False d
        by (auto simp: drc_claim_new_page_owner_def Let_def copies_gone_def claim_effect_def panic_simps insts_clear_clear_0)
    qed
  qed
qed

lemma claim_effect_inv:
  assumes "page_inv b rs" "claim_ok c b"
  shows "page_inv (claim_effect c b) rs" "same_ident b (claim_effect c b)"
    "converting (claim_effect c b) = converting b" "convert_q (claim_effect c b) = convert_q b"
    "claimed_owner (claim_effect c b) < CT_MAX_INSTANCES" "lsn b \<le> lsn (claim_effect c b)"
    "pending (claim_effect c b) = DRC_RES_INVALID_ACTION"
proof -
  note d = claim_okD[OF assms]
  have i: "cvt_inst b \<noteq> CT_INVALID_ID8" using assms(2) by (simp add: claim_ok_def)
  show "same_ident b (claim_effect c b)" "converting (claim_effect c b) = converting b"
    "convert_q (claim_effect c b) = convert_q b" "pending (claim_effect c b) = DRC_RES_INVALID_ACTION"
    by (simp_all add: claim_effect_def same_ident_def)
  show "claimed_owner (claim_effect c b) < CT_MAX_INSTANCES" using d(1,5) by (simp add: claim_effect_def)
  show "lsn b \<le> lsn (claim_effect c b)" using d(7) by (simp add: claim_effect_def)
  have "edp_map b = 0 \<or> latest_edp b < CT_MAX_INSTANCES" using assms(1) by (auto simp: page_inv_def)
  moreover have "edp_map b = 0 \<Longrightarrow> bm_clear (edp_map b) i = 0" for i by simp
  ultimately show "page_inv (claim_effect c b) rs"
    using assms(1) d(1,5) i inst_neq_invalid[OF d(1)] inst_neq_invalid[OF d(5)]
    by (auto simp: page_inv_def claim_effect_def)
qed


section \<open>The next request\<close>

text \<open>The waiting requests from the first one on that has not timed out.\<close>

abbreviation timed_out :: "drc_req_info_t \<Rightarrow> date_t \<Rightarrow> bool" where
  "timed_out r t \<equiv> req_time r + DCS_WAIT_MSG_TIMEOUT * MICROSECS_PER_MILLISEC \<le> t"

fun next_live :: "nat \<Rightarrow> (nat \<Rightarrow> date_t) \<Rightarrow> drc_req_info_t list \<Rightarrow> drc_req_info_t list" where
  "next_live k now [] = []"
| "next_live k now (r # rs) = (if timed_out r (now k) then next_live (Suc k) now rs else r # rs)"

lemma next_live_suffix: "\<exists>n. next_live k now rs = drop n rs \<and> n \<le> length rs"
proof (induction rs arbitrary: k)
  case (Cons r rs)
  then obtain n where "next_live (Suc k) now rs = drop n rs" "n \<le> length rs" by blast
  then show ?case
    by (cases "timed_out r (now k)") (auto intro: exI[of _ "Suc n"] exI[of _ 0])
qed simp

lemma next_live_subset: "set (next_live k now rs) \<subseteq> set rs"
proof -
  obtain n where "next_live k now rs = drop n rs" using next_live_suffix by blast
  then show ?thesis using set_drop_subset[of n rs] by simp
qed

declare drc_convert_next_loop.simps [simp del]

lemma convert_next_loop_spec:
  assumes "qrep pool fl (convert_q b) ids"
  shows "\<exists>pool' fl' q' ids' it.
    drc_convert_next_loop k now pool b =
      Some (next_live k now (reqs pool ids) \<noteq> [], pool', b\<lparr>convert_q := q', converting := it\<rparr>) \<and>
    qrep pool' fl' q' ids' \<and> qstep pool fl ids pool' fl' ids' \<and>
    (case next_live k now (reqs pool ids) of
       [] \<Rightarrow> ids' = [] \<and> inst_id (req_info it) = CT_INVALID_ID8
     | r # rs \<Rightarrow> req_info it = r \<and> reqs pool' ids' = rs)"
  using assms
proof (induction ids arbitrary: k pool fl b)
  case Nil
  then have "list_count (convert_q b) = 0" using queue_inv_count(2) by (auto simp: qrep_def)
  then have e: "drc_convert_next_loop k now pool b = Some (False, pool, b\<lparr>convert_q := convert_q b,
      converting := (converting b)\<lparr>req_info := (req_info (converting b))
        \<lparr>inst_id := CT_INVALID_ID8, req_mode := DRC_LOCK_NULL, inst_sid := CT_INVALID_ID16\<rparr>\<rparr>\<rparr>)"
    by (subst drc_convert_next_loop.simps) simp
  show ?case
    unfolding e using Nil
    by (intro exI[of _ pool] exI[of _ fl] exI[of _ "convert_q b"] exI[of _ "[]"]
        exI[of _ "(converting b)\<lparr>req_info := (req_info (converting b))
        \<lparr>inst_id := CT_INVALID_ID8, req_mode := DRC_LOCK_NULL, inst_sid := CT_INVALID_ID16\<rparr>\<rparr>"]) simp
next
  case (Cons x ids)
  then have c: "list_count (convert_q b) \<noteq> 0" using queue_inv_count(2) by (auto simp: qrep_def)
  from dequeue_spec[OF Cons.prems] obtain pool1 q1 where
    d: "drc_cvt_q_dequeue pool (convert_q b) = Some (items pool x, pool1, q1)" "qrep pool1 (x # fl) q1 ids"
       "qstep pool fl (x # ids) pool1 (x # fl) ids" "reqs pool1 ids = reqs pool ids" by blast
  let ?b = "b\<lparr>convert_q := q1, converting := items pool x\<rparr>"
  show ?case
  proof (cases "timed_out (req_info (items pool x)) (now k)")
    case True
    then have e: "drc_convert_next_loop k now pool b = drc_convert_next_loop (Suc k) now pool1 ?b"
      using c d(1) by (subst drc_convert_next_loop.simps) simp
    have "qrep pool1 (x # fl) (convert_q ?b) ids" using d(2) by simp
    from Cons.IH[OF this, of "Suc k"] obtain pool' fl' q' ids' it where IH:
      "drc_convert_next_loop (Suc k) now pool1 ?b =
        Some (next_live (Suc k) now (reqs pool1 ids) \<noteq> [], pool', ?b\<lparr>convert_q := q', converting := it\<rparr>)"
      "qrep pool' fl' q' ids'" "qstep pool1 (x # fl) ids pool' fl' ids'"
      "case next_live (Suc k) now (reqs pool1 ids) of [] \<Rightarrow> ids' = [] \<and> inst_id (req_info it) = CT_INVALID_ID8
         | r # rs \<Rightarrow> req_info it = r \<and> reqs pool' ids' = rs" by blast
    have nl: "next_live k now (reqs pool (x # ids)) = next_live (Suc k) now (reqs pool1 ids)"
      unfolding d(4) using True by simp
    show ?thesis
      unfolding nl e using IH qstep_trans[OF d(3) IH(3)]
      by (intro exI[of _ pool'] exI[of _ fl'] exI[of _ q'] exI[of _ ids'] exI[of _ it]) simp
  next
    case False
    then have e: "drc_convert_next_loop k now pool b = Some (True, pool1, ?b)"
      using c d(1) by (subst drc_convert_next_loop.simps) simp
    show ?thesis
      unfolding e using False d(2-)
      by (intro exI[of _ pool1] exI[of _ "x # fl"] exI[of _ q1] exI[of _ ids] exI[of _ "items pool x"]) simp
  qed
qed


text \<open>Taking the first request off the queue without freeing its item: the item is held by the caller.\<close>

lemma queue_drop_first:
  assumes "qrep pool fl q (x # ids)"
  shows "qrep pool fl (q\<lparr>list_first := nxt (items pool x), list_count := list_count q - 1\<rparr>) ids"
    "x \<notin> set fl" "x \<notin> set ids" "x < item_num pool" "list_first q = x" "list_count q \<noteq> 0"
  using assms queue_inv_count(2)[of pool q "x # ids"] by (auto simp: qrep_def queue_inv_def)

lemma check_first_spec:
  assumes "qrep pool fl (convert_q b) ids" "\<And>r. r \<in> set (reqs pool ids) \<Longrightarrow> inst_id r < CT_MAX_INSTANCES"
  shows "drc_check_first_req_in_convert_queue pool b = Some (CT_INVALID_ID32, b) \<or>
    (\<exists>x ids' q'. ids = x # ids' \<and> new_req_conflicts (req_info (items pool x)) b \<and>
       drc_check_first_req_in_convert_queue pool b = Some (x, b\<lparr>convert_q := q'\<rparr>) \<and>
       qrep pool fl q' ids')"
proof (cases ids)
  case Nil
  then have "list_count (convert_q b) = 0" using assms queue_inv_count(2) by (auto simp: qrep_def)
  then show ?thesis by (simp add: drc_check_first_req_in_convert_queue_def)
next
  case (Cons x ids')
  note f = queue_drop_first[OF assms(1)[unfolded Cons]]
  have "inst_id (req_info (items pool x)) < CT_MAX_INSTANCES" using assms(2) Cons by simp
  then show ?thesis
    using f Cons by (auto simp: drc_check_first_req_in_convert_queue_def check_new_req_eq Let_def)
qed

text \<open>A page and its queue after the operations that serve the next request.\<close>

definition cvt_done :: "item_pool_t \<Rightarrow> uint32 list \<Rightarrow> uint32 list \<Rightarrow> uint32 \<Rightarrow> item_pool_t \<Rightarrow> uint32 list \<Rightarrow> uint32 list \<Rightarrow> bool" where
  "cvt_done pool fl ids conflict pool' fl' ids' \<longleftrightarrow>
     (if conflict = CT_INVALID_ID32 then qstep pool fl ids pool' fl' ids'
      else conflict < item_num pool \<and> conflict \<notin> set fl' \<and> conflict \<notin> set ids' \<and>
           qstep pool fl ids pool' fl' (conflict # ids'))"

lemma convert_next_spec:
  assumes "qrep pool fl (convert_q b) ids" "page_inv b (reqs pool ids)" "claimed_owner b < CT_MAX_INSTANCES"
    "pending b \<noteq> DRC_RES_PENDING_ACTION"
  shows "\<exists>conflict pool' b' cvt' fl' ids' q' it.
    drc_convert_next_request now pool b cvt = Some (conflict, pool', b', cvt') \<and>
    b' = b\<lparr>convert_q := q', converting := it\<rparr> \<and> page_inv b' (reqs pool' ids') \<and>
    qrep pool' fl' q' ids' \<and> cvt_done pool fl ids conflict pool' fl' ids' \<and>
    (case next_live 0 now (reqs pool ids) of
       [] \<Rightarrow> cvt_inst b' = CT_INVALID_ID8 \<and> ids' = [] \<and> req_id cvt' = req_id cvt
     | r # rs \<Rightarrow> req_info it = r \<and> req_id cvt' = inst_id r \<and> cvt_req_mode cvt' = req_mode r \<and>
         insts (cvt_readonly_copies cvt') = insts (readonly_copies b) - {inst_id r, claimed_owner b} \<and>
         reqs pool' ids' = (if rs \<noteq> [] \<and> conflict \<noteq> CT_INVALID_ID32 then tl rs else rs) \<and>
         (conflict \<noteq> CT_INVALID_ID32 \<longrightarrow> rs \<noteq> [] \<and> req_info (items pool' conflict) = hd rs \<and>
             new_req_conflicts (hd rs) b'))"
proof -
  from convert_next_loop_spec[OF assms(1), of 0 now] obtain pool' fl' q1 ids1 it where L:
    "drc_convert_next_loop 0 now pool b =
      Some (next_live 0 now (reqs pool ids) \<noteq> [], pool', b\<lparr>convert_q := q1, converting := it\<rparr>)"
    "qrep pool' fl' q1 ids1" "qstep pool fl ids pool' fl' ids1"
    "case next_live 0 now (reqs pool ids) of [] \<Rightarrow> ids1 = [] \<and> inst_id (req_info it) = CT_INVALID_ID8
       | r # rs \<Rightarrow> req_info it = r \<and> reqs pool' ids1 = rs" by blast
  let ?b1 = "b\<lparr>convert_q := q1, converting := it\<rparr>"
  have all_ok: "\<And>r. r \<in> set (reqs pool ids) \<Longrightarrow> req_ok r" using assms(2) by (auto simp: page_inv_def)
  show ?thesis
  proof (cases "next_live 0 now (reqs pool ids)")
    case Nil
    then have n: "ids1 = []" "inst_id (req_info it) = CT_INVALID_ID8" using L(4) by auto
    have "page_inv ?b1 (reqs pool' ids1)" using n assms(2) by (auto simp: page_inv_def)
    then show ?thesis
      using L Nil n
      by (intro exI[of _ CT_INVALID_ID32] exI[of _ pool'] exI[of _ ?b1]
          exI[of _ "cvt\<lparr>cvt_readonly_copies := 0, pageid := page_id b, owner_id := claimed_owner b\<rparr>"]
          exI[of _ fl'] exI[of _ ids1] exI[of _ q1] exI[of _ it])
        (simp add: drc_convert_next_request_def cvt_done_def)
  next
    case (Cons r rs)
    then have n: "req_info it = r" "reqs pool' ids1 = rs" using L(4) by auto
    have sub: "set (r # rs) \<subseteq> set (reqs pool ids)" using next_live_subset[of 0 now "reqs pool ids"] Cons by simp
    then have ok: "req_ok r" "\<And>r'. r' \<in> set rs \<Longrightarrow> req_ok r'" using all_ok by auto
    have il: "inst_id r < CT_MAX_INSTANCES" using ok(1) by (simp add: req_ok_def)
    have pi: "page_inv ?b1 rs'" if "set rs' \<subseteq> set rs" for rs'
      using that ok assms(2-4) n(1) inst_neq_invalid[OF il] inst_neq_invalid[OF assms(3)] by (auto simp: page_inv_def)
    define cvt1 where "cvt1 = cvt\<lparr>req_id := inst_id r, req_sid := inst_sid r, req_rsn := rsn r,
        cvt_req_mode := req_mode r, cvt_curr_mode := curr_mode r,
        cvt_req_version := req_version r, cvt_lsn := req_lsn r, pageid := page_id b, owner_id := claimed_owner b,
        cvt_readonly_copies := bm_clear (bm_clear (readonly_copies b) (inst_id r)) (claimed_owner b)\<rparr>"
    have e: "drc_convert_next_request now pool b cvt =
        do { (conflict, b) \<leftarrow> drc_check_first_req_in_convert_queue pool' ?b1; Some (conflict, pool', b, cvt1) }"
      using L(1) Cons n il assms(3) by (simp add: drc_convert_next_request_def panic_simps Let_def cvt1_def)
    have c1: "req_id cvt1 = inst_id r" "cvt_req_mode cvt1 = req_mode r"
        "insts (cvt_readonly_copies cvt1) = insts (readonly_copies b) - {inst_id r, claimed_owner b}"
      by (auto simp: cvt1_def)
    have "qrep pool' fl' (convert_q ?b1) ids1" using L(2) by simp
    moreover have "\<And>r. r \<in> set (reqs pool' ids1) \<Longrightarrow> inst_id r < CT_MAX_INSTANCES"
      using ok(2) n(2) by (auto simp: req_ok_def)
    ultimately consider (none) "drc_check_first_req_in_convert_queue pool' ?b1 = Some (CT_INVALID_ID32, ?b1)"
      | (conf) x ids' q' where "ids1 = x # ids'" "new_req_conflicts (req_info (items pool' x)) ?b1"
         "drc_check_first_req_in_convert_queue pool' ?b1 = Some (x, ?b1\<lparr>convert_q := q'\<rparr>)" "qrep pool' fl' q' ids'"
      using check_first_spec[of pool' fl' ?b1 ids1] by blast
    then show ?thesis
    proof cases
      case none
      then show ?thesis
        using e Cons n L(2,3) c1 pi[of rs]
        by (intro exI[of _ CT_INVALID_ID32] exI[of _ pool'] exI[of _ ?b1] exI[of _ cvt1] exI[of _ fl'] exI[of _ ids1]
            exI[of _ q1] exI[of _ it]) (simp add: cvt_done_def)
    next
      case conf
      let ?b2 = "b\<lparr>convert_q := q', converting := it\<rparr>"
      have x: "x < item_num pool'" "x \<notin> set fl'" "x \<notin> set ids'"
        using queue_drop_first[OF L(2)[unfolded conf(1)]] by auto
      have rs: "rs = req_info (items pool' x) # reqs pool' ids'" using n(2) conf(1) by simp
      have "set (reqs pool' ids') \<subseteq> set rs" unfolding rs by auto
      from pi[OF this] have "page_inv ?b2 (reqs pool' ids')" by (simp add: page_inv_def)
      moreover have "new_req_conflicts (hd rs) ?b2" using conf(2) rs by (simp add: new_req_conflicts_def)
      moreover have "item_num pool' = item_num pool" using L(3) by (simp add: qstep_def)
      moreover have "?b1\<lparr>convert_q := q'\<rparr> = ?b2" by (cases b) simp
      ultimately show ?thesis
        using e Cons n L(2,3) c1 conf x below_neq_invalid[OF x(1)] rs
        by (rule_tac exI[of _ x], rule_tac exI[of _ pool'], rule_tac exI[of _ ?b2], rule_tac exI[of _ cvt1],
            rule_tac exI[of _ fl'], rule_tac exI[of _ ids'], rule_tac exI[of _ q'], rule_tac exI[of _ it])
          (simp add: cvt_done_def)
    qed
  qed
qed


section \<open>Waiting\<close>

lemma find_SomeD: "find P xs = Some x \<Longrightarrow> x \<in> set xs \<and> P x"
  by (induction xs) (auto split: if_splits)

lemma qrep_set_req:
  assumes "qrep pool fl q ids" "x \<in> set ids"
  shows "qrep (pool\<lparr>items := (items pool)(x := (items pool x)\<lparr>req_info := r\<rparr>)\<rparr>) fl q ids"
    "qstep pool fl ids (pool\<lparr>items := (items pool)(x := (items pool x)\<lparr>req_info := r\<rparr>)\<rparr>) fl ids"
    "reqs (pool\<lparr>items := (items pool)(x := (items pool x)\<lparr>req_info := r\<rparr>)\<rparr>) ids =
       map (\<lambda>i. if i = x then r else req_info (items pool i)) ids"
proof -
  let ?p = "pool\<lparr>items := (items pool)(x := (items pool x)\<lparr>req_info := r\<rparr>)\<rparr>"
  have "pool_inv ?p fl \<longleftrightarrow> pool_inv pool fl" by (rule pool_inv_items_cong) auto
  moreover have "queue_inv ?p q ids \<longleftrightarrow> queue_inv pool q ids" by (rule queue_inv_pool_cong) auto
  ultimately show "qrep ?p fl q ids" using assms by (simp add: qrep_def)
  show "qstep pool fl ids ?p fl ids" using assms(2) by (auto simp: qstep_def)
  show "reqs ?p ids = map (\<lambda>i. if i = x then r else req_info (items pool i)) ids" by auto
qed

text \<open>What holds of every result of \<open>drc_keep_requester_wait\<close>.\<close>

definition wait_post ::
  "item_pool_t \<Rightarrow> uint32 list \<Rightarrow> uint32 list \<Rightarrow> drc_buf_res_t \<Rightarrow> drc_req_info_t \<Rightarrow> bool
     \<Rightarrow> (status_t \<times> item_pool_t \<times> drc_buf_res_t \<times> drc_req_info_t \<times> bool \<times> bool) option \<Rightarrow> bool" where
  "wait_post pool fl ids b r is_try res \<longleftrightarrow>
    (\<exists>ret pool' b' r' cv rt fl' ids' q' it. res = Some (ret, pool', b', r', cv, rt) \<and>
      b' = b\<lparr>convert_q := q', converting := it\<rparr> \<and> page_inv b' (reqs pool' ids') \<and>
      qrep pool' fl' q' ids' \<and> qstep pool fl ids pool' fl' ids' \<and>
      inst_id r' = inst_id r \<and> req_ok r' \<and> (cv \<longrightarrow> ret = CT_SUCCESS \<and> req_info it = r') \<and>
      (is_try \<and> cv \<longrightarrow> claimed_owner b = inst_id r))"

lemma wait_postI:
  assumes "res = Some (ret, pool', b\<lparr>convert_q := q', converting := it\<rparr>, r', cv, rt)"
    "page_inv (b\<lparr>convert_q := q', converting := it\<rparr>) (reqs pool' ids')" "qrep pool' fl' q' ids'"
    "qstep pool fl ids pool' fl' ids'" "inst_id r' = inst_id r" "req_ok r'"
    "cv \<Longrightarrow> ret = CT_SUCCESS \<and> req_info it = r'" "is_try \<Longrightarrow> cv \<Longrightarrow> claimed_owner b = inst_id r"
  shows "wait_post pool fl ids b r is_try res"
  unfolding wait_post_def using assms by blast

lemma wait_post_same:
  assumes "qrep pool fl (convert_q b) ids" "page_inv b (reqs pool ids)" "req_ok r"
  shows "wait_post pool fl ids b r is_try (Some (ret, pool, b, r, False, False))"
  using assms by (intro wait_postI[where ret = ret and pool' = pool and b = b and q' = "convert_q b" and it = "converting b" and r' = r and cv = False and rt = False and ids' = ids and fl' = fl]) simp_all

lemma keep_wait_idle:
  assumes "qrep pool fl (convert_q b) ids" "page_inv b (reqs pool ids)" "claimed_owner b < CT_MAX_INSTANCES"
    "pending b \<noteq> DRC_RES_PENDING_ACTION" "req_ok r" "cvt_inst b = CT_INVALID_ID8"
  shows "wait_post pool fl ids b r is_try (drc_keep_requester_wait pool r b is_try)"
proof (cases "is_try \<and> claimed_owner b \<noteq> inst_id r")
  case True
  then show ?thesis using assms wait_post_same[OF assms(1,2,5)] by (simp add: drc_keep_requester_wait_def)
next
  case False
  let ?it = "\<lparr>nxt = CT_INVALID_ID32, req_info = r\<rparr>"
  have ids: "ids = []" using page_invD(1)[OF assms(2,6)] by simp
  then have c: "list_count (convert_q b) = 0" using assms(1) queue_inv_count(2) by (auto simp: qrep_def)
  show ?thesis
  proof (rule wait_postI[where ret = CT_SUCCESS and pool' = pool and b = b and q' = "convert_q b" and it = ?it and r' = r and cv = True and rt = False and ids' = ids and fl' = fl])
    show "drc_keep_requester_wait pool r b is_try =
        Some (CT_SUCCESS, pool, b\<lparr>convert_q := convert_q b, converting := ?it\<rparr>, r, True, False)"
      using assms(6) False c by (simp add: drc_keep_requester_wait_def)
    show "page_inv (b\<lparr>convert_q := convert_q b, converting := ?it\<rparr>) (reqs pool ids)"
      using assms(2-5) ids inst_neq_invalid[OF assms(3)] by (auto simp: page_inv_def)
  qed (use assms(1,5) False in auto)
qed

lemma keep_wait_retry:
  assumes "qrep pool fl (convert_q b) ids" "page_inv b (reqs pool ids)" "req_ok r"
    "cvt_inst b \<noteq> CT_INVALID_ID8" "\<not> is_try" "drc_check_new_req r b = Some CT_SUCCESS"
    "drc_is_retry_request (req_info (converting b)) r"
  shows "wait_post pool fl ids b r is_try (drc_keep_requester_wait pool r b is_try)"
proof (cases "req_time (req_info (converting b)) \<le> req_time r")
  case True
  define r1 where "r1 = r\<lparr>req_mode := max (req_mode (req_info (converting b))) (req_mode r)\<rparr>"
  have r1: "req_ok r1" "inst_id r1 = inst_id r"
    using page_invD(2)[OF assms(2,4)] assms(3) by (auto simp: r1_def req_ok_def max_def)
  then have n: "inst_id r1 \<noteq> CT_INVALID_ID8" by (auto simp: req_ok_def)
  show ?thesis
  proof (rule wait_postI[where ret = CT_SUCCESS and pool' = pool and b = b and q' = "convert_q b" and it = "(converting b)\<lparr>req_info := r1\<rparr>" and r' = r1 and cv = True and rt = True and ids' = ids and fl' = fl])
    show "drc_keep_requester_wait pool r b is_try = Some (CT_SUCCESS, pool,
        b\<lparr>convert_q := convert_q b, converting := (converting b)\<lparr>req_info := r1\<rparr>\<rparr>, r1, True, True)"
      using assms(4-7) True by (simp add: drc_keep_requester_wait_def r1_def Let_def)
    show "page_inv (b\<lparr>convert_q := convert_q b, converting := (converting b)\<lparr>req_info := r1\<rparr>\<rparr>) (reqs pool ids)"
      using assms(2,4) n r1 by (auto simp: page_inv_def)
  qed (use assms(1,5) r1 in auto)
next
  case False
  then show ?thesis using assms wait_post_same[OF assms(1-3)] by (simp add: drc_keep_requester_wait_def)
qed

lemma keep_wait_queued:
  assumes "qrep pool fl (convert_q b) ids" "page_inv b (reqs pool ids)" "req_ok r" "cvt_inst b \<noteq> CT_INVALID_ID8"
    "drc_keep_requester_wait pool r b is_try =
       do { item \<leftarrow> DRC_GET_RES_ADDR_BY_ID pool x;
            if req_lsn (req_info item) \<noteq> req_lsn r then Some (CT_ERROR, pool, b, r, False, False)
            else do { pool \<leftarrow> drc_res_put pool x (item\<lparr>req_info := r\<rparr>);
                      Some (CT_SUCCESS, pool, b, r, False, False) } }" "x \<in> set ids"
  shows "wait_post pool fl ids b r is_try (drc_keep_requester_wait pool r b is_try)"
proof -
  have xl: "x < item_num pool" using assms(1,6) by (auto simp: qrep_def queue_inv_def)
  let ?p = "pool\<lparr>items := (items pool)(x := (items pool x)\<lparr>req_info := r\<rparr>)\<rparr>"
  have pi: "page_inv b (reqs ?p ids)"
    unfolding qrep_set_req(3)[OF assms(1,6)] using assms(2-4) by (auto simp: page_inv_def)
  show ?thesis
  proof (cases "req_lsn (req_info (items pool x)) = req_lsn r")
    case True
    then show ?thesis
      using assms(3,5) xl pi qrep_set_req(1,2)[OF assms(1,6), of r]
      by (intro wait_postI[where ret = CT_SUCCESS and pool' = ?p and b = b and q' = "convert_q b" and it = "converting b" and r' = r and cv = False and rt = False and ids' = ids and fl' = fl]) simp_all
  next
    case False
    then show ?thesis using assms(5) xl wait_post_same[OF assms(1-3)] by simp
  qed
qed

lemma keep_wait_enqueue:
  assumes "qrep pool fl (convert_q b) ids" "page_inv b (reqs pool ids)" "req_ok r" "cvt_inst b \<noteq> CT_INVALID_ID8"
    "drc_keep_requester_wait pool r b is_try =
       do { (ret, pool, q) \<leftarrow> drc_cvt_q_enqueue pool (convert_q b) r;
            Some (ret, pool, b\<lparr>convert_q := q\<rparr>, r, False, False) }"
  shows "wait_post pool fl ids b r is_try (drc_keep_requester_wait pool r b is_try)"
proof (cases fl)
  case Nil
  then show ?thesis using assms enqueue_full[of pool "convert_q b" ids r] wait_post_same[OF assms(1-3)] by simp
next
  case (Cons x fl')
  from enqueue_spec[OF assms(1)[unfolded Cons], of r] obtain pool' q' where
    en: "drc_cvt_q_enqueue pool (convert_q b) r = Some (CT_SUCCESS, pool', q')" "qrep pool' fl' q' (ids @ [x])"
      "qstep pool (x # fl') ids pool' fl' (ids @ [x])" "reqs pool' (ids @ [x]) = reqs pool ids @ [r]" by blast
  have "page_inv (b\<lparr>convert_q := q', converting := converting b\<rparr>) (reqs pool' (ids @ [x]))"
    unfolding en(4) using assms(2-4) by (auto simp: page_inv_def)
  then show ?thesis
    using en assms(3,5) Cons
    by (intro wait_postI[where ret = CT_SUCCESS and pool' = pool' and b = b and q' = q' and it = "converting b" and r' = r and cv = False and rt = False and ids' = "ids @ [x]" and fl' = fl']) simp_all
qed

lemma keep_wait_spec:
  assumes "qrep pool fl (convert_q b) ids" "page_inv b (reqs pool ids)" "claimed_owner b < CT_MAX_INSTANCES"
    "pending b \<noteq> DRC_RES_PENDING_ACTION" "req_ok r"
  shows "wait_post pool fl ids b r is_try (drc_keep_requester_wait pool r b is_try)"
proof (cases "cvt_inst b = CT_INVALID_ID8")
  case True
  then show ?thesis using keep_wait_idle assms by blast
next
  case cvt: False
  have ir: "inst_id r < CT_MAX_INSTANCES" using assms(5) by (simp add: req_ok_def)
  note chk = check_new_req_eq[OF ir, of b]
  consider (st) "is_try \<or> new_req_conflicts r b"
    | (retry) "\<not> is_try" "\<not> new_req_conflicts r b" "drc_is_retry_request (req_info (converting b)) r"
    | (q) "\<not> is_try" "\<not> new_req_conflicts r b" "\<not> drc_is_retry_request (req_info (converting b)) r" by blast
  then show ?thesis
  proof cases
    case st
    then show ?thesis
      using cvt chk wait_post_same[OF assms(1,2,5)] by (auto simp: drc_keep_requester_wait_def)
  next
    case retry
    then show ?thesis using keep_wait_retry[OF assms(1,2,5) cvt] chk by simp
  next
    case q
    have qi: "queue_inv pool (convert_q b) ids" using assms(1) by (simp add: qrep_def)
    have se: "(if list_count (convert_q b) > 0 then drc_search_item_by_reqid pool (convert_q b) r else Some None)
        = Some (find (\<lambda>x. drc_is_retry_request (req_info (items pool x)) r) ids)"
      using search_spec[OF qi, of r] queue_inv_count(2)[OF qi] by (auto simp: word_neq_0_conv)
    show ?thesis
    proof (cases "find (\<lambda>x. drc_is_retry_request (req_info (items pool x)) r) ids")
      case None
      then show ?thesis
        using cvt q chk se by (intro keep_wait_enqueue[OF assms(1,2,5) cvt]) (simp add: drc_keep_requester_wait_def)
    next
      case (Some x)
      then show ?thesis
        using cvt q chk se find_SomeD[OF Some]
        by (intro keep_wait_queued[OF assms(1,2,5) cvt, where x = x]) (simp_all add: drc_keep_requester_wait_def)
    qed
  qed
qed

end
