(* ===== verification/Drc_Page_Res.thy ===== *)
theory Drc_Page_Res
  imports Drc_Page
begin

text \<open>
  The page API of the master (\<open>dtc_drc.c\<close>): request, claim, release, recycle and the edp
  queries, on the hash map of page resources and the shared lock item pool.

  A handler holds the partition and bucket locks except around allocations and around the
  messages that invalidate copies on other instances. What the other threads do in such a
  window is the parameter \<open>others n\<close>, a function of the state for the \<open>n\<close>-th window of the
  call; the answers of the other instances are \<open>inval_readonly\<close> and \<open>inval_owner\<close>.
\<close>

record drc_page_ctx =
  lock_item_pool :: item_pool_t
  global_buf_res :: "(page_id_t, drc_buf_res_t) drc_global_res"
  sent_errors :: "mes_message_head_t list" \<comment> \<open>\<open>mes_send_error_msg\<close>, in order\<close>

record 'c drc_world =
  env :: "nat \<Rightarrow> drc_env"
  others :: "nat \<Rightarrow> 'c \<Rightarrow> 'c"
  inval_readonly :: "page_id_t \<Rightarrow> uint64 \<Rightarrow> uint8 \<Rightarrow> uint64 \<Rightarrow> status_t" \<comment> \<open>\<open>dcs_invalidate_readonly_copy\<close>\<close>
  inval_owner :: "page_id_t \<Rightarrow> uint8 \<Rightarrow> uint64 \<Rightarrow> status_t" \<comment> \<open>\<open>dcs_invalidate_page_owner\<close>\<close>

section \<open>Access to a page\<close>

definition buf_lookup :: "'c drc_page_ctx_scheme \<Rightarrow> page_id_t \<Rightarrow> uint32 option option" where
  "buf_lookup ctx pagid =
     do { bucket \<leftarrow> drc_get_buf_map_bucket (res_map (global_buf_res ctx)) (file_no pagid) (page_no pagid);
          drc_res_map_lookup (res_map (global_buf_res ctx)) bucket pagid }"

definition drc_get_buf_res_by_pageid :: "'c drc_page_ctx_scheme \<Rightarrow> page_id_t \<Rightarrow> uint32 option option" where
  "drc_get_buf_res_by_pageid ctx pagid = buf_lookup ctx pagid"

definition buf_get :: "'c drc_page_ctx_scheme \<Rightarrow> uint32 \<Rightarrow> drc_buf_res_t option" where
  "buf_get ctx x = DRC_GET_RES_ADDR_BY_ID (res_pool (res_map (global_buf_res ctx))) x"

definition buf_put :: "'c drc_page_ctx_scheme \<Rightarrow> uint32 \<Rightarrow> drc_buf_res_t \<Rightarrow> 'c drc_page_ctx_scheme option" where
  "buf_put ctx x b =
     do { pool \<leftarrow> drc_res_put (res_pool (res_map (global_buf_res ctx))) x b;
          Some (ctx\<lparr>global_buf_res := (global_buf_res ctx)
                     \<lparr>res_map := (res_map (global_buf_res ctx))\<lparr>res_pool := pool\<rparr>\<rparr>\<rparr>) }"

definition buf_alloc :: "'c drc_page_ctx_scheme \<Rightarrow> (uint32 \<times> 'c drc_page_ctx_scheme) option" where
  "buf_alloc ctx =
     do { (i, pool) \<leftarrow> drc_res_pool_alloc_item (res_pool (res_map (global_buf_res ctx)));
          Some (i, ctx\<lparr>global_buf_res := (global_buf_res ctx)
                        \<lparr>res_map := (res_map (global_buf_res ctx))\<lparr>res_pool := pool\<rparr>\<rparr>\<rparr>) }"

definition buf_free :: "'c drc_page_ctx_scheme \<Rightarrow> uint32 \<Rightarrow> 'c drc_page_ctx_scheme option" where
  "buf_free ctx i =
     do { pool \<leftarrow> drc_res_pool_free_item (res_pool (res_map (global_buf_res ctx))) i;
          Some (ctx\<lparr>global_buf_res := (global_buf_res ctx)
                     \<lparr>res_map := (res_map (global_buf_res ctx))\<lparr>res_pool := pool\<rparr>\<rparr>\<rparr>) }"

section \<open>Removing a page\<close>

definition drc_clean_page_owner_internal ::
  "'c drc_page_ctx_scheme \<Rightarrow> uint32 \<Rightarrow> uint32 \<Rightarrow> 'c drc_page_ctx_scheme option" where
  "drc_clean_page_owner_internal ctx x bucket =
     do { let g = global_buf_res ctx;
          b \<leftarrow> buf_get ctx x;
          m \<leftarrow> drc_res_map_remove (res_map g) bucket (page_id b);
          g \<leftarrow> drc_part_unlink (g\<lparr>res_map := m\<rparr>) x;
          buf_put (ctx\<lparr>global_buf_res := g\<rparr>) x zero_buf_res }"

definition drc_release_page_owner ::
  "'c drc_page_ctx_scheme \<Rightarrow> uint8 \<Rightarrow> page_id_t \<Rightarrow> (status_t \<times> bool \<times> 'c drc_page_ctx_scheme) option" where
  "drc_release_page_owner ctx old_id pagid =
     do { found \<leftarrow> buf_lookup ctx pagid;
          case found of
            None \<Rightarrow> None
          | Some x \<Rightarrow>
              do { b \<leftarrow> buf_get ctx x;
                   if old_id \<noteq> claimed_owner b then
                     (if old_id = cvt_inst b then Some (CT_SUCCESS, False, ctx) else Some (CT_SUCCESS, True, ctx))
                   else if cvt_inst b \<noteq> CT_INVALID_ID8 \<or> edp_map b \<noteq> 0 then Some (CT_SUCCESS, False, ctx)
                   else do {
                     g \<leftarrow> drc_part_unlink (global_buf_res ctx) x;
                     bucket \<leftarrow> drc_get_buf_map_bucket (res_map g) (file_no pagid) (page_no pagid);
                     m \<leftarrow> drc_res_map_remove (res_map g) bucket pagid;
                     ctx \<leftarrow> buf_put (ctx\<lparr>global_buf_res := g\<lparr>res_map := m\<rparr>\<rparr>) x zero_buf_res;
                     ctx \<leftarrow> buf_free ctx (res_idx b);
                     Some (CT_SUCCESS, True, ctx) } } }"

section \<open>Queries and edp\<close>

definition drc_get_page_owner_id ::
  "drc_env \<Rightarrow> 'c drc_page_ctx_scheme \<Rightarrow> page_id_t
     \<Rightarrow> (status_t \<times> uint8 \<times> drc_res_action_e option \<times> 'c drc_page_ctx_scheme) option" where
  "drc_get_page_owner_id e ctx pagid =
     do { found \<leftarrow> buf_lookup ctx pagid;
          case found of
            None \<Rightarrow> Some (CT_ERROR, CT_INVALID_ID8, None, ctx)
          | Some x \<Rightarrow>
              do { b \<leftarrow> buf_get ctx x;
                   (b, ctx) \<leftarrow>
                     (if claimed_owner b = CT_INVALID_ID8 \<and> rc_status e \<ge> REFORM_RECOVER_DONE
                      then do { knl_panic (\<not> DAAC_PARTIAL_RECOVER_SESSION e);
                                b \<leftarrow> drc_clean_buf_res b;
                                ctx \<leftarrow> buf_put ctx x b;
                                Some (b, ctx) }
                      else Some (b, ctx));
                   Some (CT_SUCCESS, claimed_owner b, Some (pending b), ctx) } }"

definition drc_get_edp_info ::
  "'c drc_page_ctx_scheme \<Rightarrow> page_id_t \<Rightarrow> (status_t \<times> drc_edp_info_t option) option" where
  "drc_get_edp_info ctx pagid =
     do { found \<leftarrow> buf_lookup ctx pagid;
          case found of
            None \<Rightarrow> Some (CT_ERROR, None)
          | Some x \<Rightarrow>
              do { b \<leftarrow> buf_get ctx x;
                   Some (CT_SUCCESS, Some \<lparr>info_edp_map = edp_map b, info_lsn = lsn b,
                           info_readonly_copies = readonly_copies b, info_latest_edp = latest_edp b\<rparr>) } }"

definition drc_clean_edp_info ::
  "'c drc_page_ctx_scheme \<Rightarrow> page_id_t \<Rightarrow> uint64 \<Rightarrow> (status_t \<times> 'c drc_page_ctx_scheme) option" where
  "drc_clean_edp_info ctx pagid page_lsn =
     do { found \<leftarrow> buf_lookup ctx pagid;
          case found of
            None \<Rightarrow> Some (CT_ERROR, ctx)
          | Some x \<Rightarrow>
              do { b \<leftarrow> buf_get ctx x;
                   if page_lsn \<ge> lsn b then
                     do { ctx \<leftarrow> buf_put ctx x (b\<lparr>edp_map := 0, latest_edp := CT_INVALID_ID8, latest_edp_lsn := 0\<rparr>);
                          Some (CT_SUCCESS, ctx) }
                   else Some (CT_SUCCESS, ctx) } }"

section \<open>Claim\<close>

text \<open>The lines after the bucket lock is released: the reply to a conflicting waiter.\<close>

definition drc_reply_conflict ::
  "drc_env \<Rightarrow> uint16 \<Rightarrow> 'c drc_page_ctx_scheme \<Rightarrow> uint32 \<Rightarrow> 'c drc_page_ctx_scheme option" where
  "drc_reply_conflict e sid ctx conflict_req_id =
     (if conflict_req_id \<noteq> CT_INVALID_ID32 then
        do { lock_item \<leftarrow> DRC_GET_RES_ADDR_BY_ID (lock_item_pool ctx) conflict_req_id;
             let head = \<lparr>src_inst = inst_id (req_info lock_item), src_sid = inst_sid (req_info lock_item),
                         dst_inst = self_inst e, dst_sid = sid, head_rsn = rsn (req_info lock_item)\<rparr>;
             pool \<leftarrow> drc_res_pool_free_item (lock_item_pool ctx) conflict_req_id;
             Some (ctx\<lparr>sent_errors := sent_errors ctx @ [head], lock_item_pool := pool\<rparr>) }
      else Some ctx)"

text \<open>Clearing the read-only copies of a converting page once they are invalidated.\<close>

definition drc_copies_invalidated ::
  "'c drc_page_ctx_scheme \<Rightarrow> uint32 \<Rightarrow> page_id_t \<Rightarrow> 'c drc_page_ctx_scheme option" where
  "drc_copies_invalidated ctx x pagid =
     do { b \<leftarrow> buf_get ctx x;
          CM_ASSERT (is_same_page pagid b);
          buf_put ctx x (b\<lparr>readonly_copies := 0\<rparr>) }"

text \<open>
  The part of a claim after the bucket lock is released; \<open>sid\<close> is the id of the session that
  runs the handler.
\<close>

definition drc_claim_finish ::
  "('c drc_page_ctx_scheme) drc_world \<Rightarrow> uint16 \<Rightarrow> 'c drc_page_ctx_scheme \<Rightarrow> uint32 \<Rightarrow> page_id_t \<Rightarrow> cvt_info_t \<Rightarrow> uint32
     \<Rightarrow> (cvt_info_t \<times> 'c drc_page_ctx_scheme) option" where
  "drc_claim_finish w sid ctx x pagid cvt conflict_req_id =
     do { ctx \<leftarrow> drc_reply_conflict (env w 0) sid ctx conflict_req_id;
          if req_id cvt \<noteq> CT_INVALID_ID8 \<and> cvt_readonly_copies cvt \<noteq> 0 \<and> cvt_req_mode cvt = DRC_LOCK_EXCLUSIVE then
            (if inval_readonly w pagid (cvt_readonly_copies cvt) (req_id cvt) (cvt_req_version cvt) = CT_SUCCESS
             then do { ctx \<leftarrow> drc_copies_invalidated (others w 1 ctx) x pagid;
                       Some (cvt, ctx) }
             else Some (cvt, others w 1 ctx))
          else Some (cvt, ctx) }"

definition drc_claim_page_owner ::
  "('c drc_page_ctx_scheme) drc_world \<Rightarrow> uint16 \<Rightarrow> 'c drc_page_ctx_scheme \<Rightarrow> claim_info_t \<Rightarrow> cvt_info_t
     \<Rightarrow> (cvt_info_t \<times> 'c drc_page_ctx_scheme) option" where
  "drc_claim_page_owner w sid ctx claim cvt =
     do { let cvt = cvt\<lparr>req_id := CT_INVALID_ID8\<rparr>;
          found \<leftarrow> buf_lookup ctx (claim_page claim);
          case found of
            None \<Rightarrow> Some (cvt, ctx)
          | Some x \<Rightarrow>
              do { b \<leftarrow> buf_get ctx x;
                   if cvt_inst b = CT_INVALID_ID8 then Some (cvt, ctx)
                   else if \<not> drc_is_same_claim_request (req_info (converting b)) claim then Some (cvt, ctx)
                   else if drc_claim_info_is_invalid claim b then Some (cvt, ctx)
                   else do {
                     b \<leftarrow> drc_claim_new_page_owner claim b;
                     (conflict_req_id, pool, b, cvt) \<leftarrow>
                       drc_convert_next_request (\<lambda>k. knl_now (env w k)) (lock_item_pool ctx) b cvt;
                     ctx \<leftarrow> buf_put (ctx\<lparr>lock_item_pool := pool\<rparr>) x b;
                     drc_claim_finish w sid (others w 0 ctx) x (claim_page claim) cvt conflict_req_id } } }"

section \<open>Recycling\<close>

definition buf_bucket :: "'c drc_page_ctx_scheme \<Rightarrow> page_id_t \<Rightarrow> uint32 option" where
  "buf_bucket ctx pagid =
     drc_get_buf_map_bucket (res_map (global_buf_res ctx)) (file_no pagid) (page_no pagid)"

definition set_pending ::
  "'c drc_page_ctx_scheme \<Rightarrow> uint32 \<Rightarrow> drc_res_action_e \<Rightarrow> 'c drc_page_ctx_scheme option" where
  "set_pending ctx x a = do { b \<leftarrow> buf_get ctx x; buf_put ctx x (b\<lparr>pending := a\<rparr>) }"

text \<open>
  The last step of a recycle under the locks: no copies, not pending, out of the map. The
  result is the index to be freed once the locks are released.
\<close>

definition drc_recycle_finish ::
  "'c drc_page_ctx_scheme \<Rightarrow> uint32 \<Rightarrow> uint32 \<Rightarrow> (uint32 \<times> 'c drc_page_ctx_scheme) option" where
  "drc_recycle_finish ctx x bucket =
     do { b \<leftarrow> buf_get ctx x;
          ctx \<leftarrow> buf_put ctx x (b\<lparr>readonly_copies := 0, pending := DRC_RES_INVALID_ACTION\<rparr>);
          ctx \<leftarrow> drc_clean_page_owner_internal ctx x bucket;
          Some (res_idx b, ctx) }"

text \<open>The page \<open>x\<close> of an owner that gave it up: pending while its copies are invalidated, then out of the map.\<close>

definition drc_recycle_page ::
  "('c drc_page_ctx_scheme) drc_world \<Rightarrow> 'c drc_page_ctx_scheme \<Rightarrow> uint32 \<Rightarrow> page_id_t \<Rightarrow> uint64 \<Rightarrow> uint32 \<Rightarrow> uint32
     \<Rightarrow> 'c drc_page_ctx_scheme option" where
  "drc_recycle_page w ctx inst pagid req_ver bucket x =
     do { b \<leftarrow> buf_get ctx x;
          ctx \<leftarrow> set_pending ctx x DRC_RES_PENDING_ACTION;
          copies \<leftarrow> buf_res_has_readonly_copies b (claimed_owner b);
          if \<not> copies then
            do { ctx \<leftarrow> set_pending ctx x DRC_RES_INVALID_ACTION;
                 ctx \<leftarrow> drc_clean_page_owner_internal ctx x bucket;
                 buf_free ctx (res_idx b) }
          else do {
            let ret = inval_readonly w pagid (readonly_copies b) (ucast inst) req_ver;
            let ret = (if ret = CT_SUCCESS then inval_owner w (page_id b) (claimed_owner b) req_ver else ret);
            let ctx = others w 0 ctx;
            again \<leftarrow> drc_res_map_lookup (res_map (global_buf_res ctx)) bucket pagid;
            if again = None then Some ctx
            else if ret \<noteq> CT_SUCCESS then set_pending ctx x DRC_RES_INVALID_ACTION
            else do { (idx, ctx) \<leftarrow> drc_recycle_finish ctx x bucket; buf_free ctx idx } } }"

definition drc_buf_res_recycle ::
  "('c drc_page_ctx_scheme) drc_world \<Rightarrow> 'c drc_page_ctx_scheme \<Rightarrow> uint32 \<Rightarrow> date_t \<Rightarrow> page_id_t \<Rightarrow> uint64
     \<Rightarrow> 'c drc_page_ctx_scheme option" where
  "drc_buf_res_recycle w ctx inst tm pagid req_ver =
     (if inst \<ge> 64 then Some ctx
      else if IS_INVALID_PAGID pagid \<or> inst \<ge> node_count (env w 0) then Some ctx
      else do {
        bucket \<leftarrow> buf_bucket ctx pagid;
        _ \<leftarrow> drc_page_partid (env w 0) pagid;
        if DRC_STOP_DCS_IO_FOR_REFORMING (env w 1) req_ver pagid then Some ctx
        else do {
          found \<leftarrow> drc_res_map_lookup (res_map (global_buf_res ctx)) bucket pagid;
          case found of
            None \<Rightarrow> Some ctx
          | Some x \<Rightarrow>
              do { b \<leftarrow> buf_get ctx x;
                   if ucast (claimed_owner b) \<noteq> inst then Some ctx
                   else if pending b \<noteq> DRC_RES_INVALID_ACTION \<or> \<not> is_used b then Some ctx
                   else if \<not> (req_time (req_info (converting b)) < tm \<and> buf_res_is_recyclable b) then Some ctx
                   else drc_recycle_page w ctx inst pagid req_ver bucket x } } })"

text \<open>How an iteration of \<open>drc_recycle_items\<close> ends, with the value of the variable \<open>idx\<close>.\<close>

datatype recycle_next = Continue uint32 | Break uint32 | Return uint32

text \<open>
  The end of an iteration, with the locks taken again: \<open>b\<close> is the page as it was before the
  window, \<open>ret\<close> the answer of the other instances, \<open>n\<close> numbers the iteration.
\<close>

definition drc_recycle_commit ::
  "('c drc_page_ctx_scheme) drc_world \<Rightarrow> bool \<Rightarrow> nat \<Rightarrow> uint32 \<Rightarrow> 'c drc_page_ctx_scheme \<Rightarrow> uint32 \<Rightarrow> uint32
     \<Rightarrow> drc_buf_res_t \<Rightarrow> uint64 \<Rightarrow> status_t \<Rightarrow> (recycle_next \<times> 'c drc_page_ctx_scheme) option" where
  "drc_recycle_commit w is_batch n idx ctx x bucket b req_ver ret =
     do { again \<leftarrow> drc_res_map_lookup (res_map (global_buf_res ctx)) bucket (page_id b);
          if again = None then Some (Continue idx, ctx)
          else do {
            b' \<leftarrow> buf_get ctx x;
            if DRC_STOP_DCS_IO_FOR_REFORMING (env w (3 * n + 3)) req_ver (page_id b') then
              do { ctx \<leftarrow> set_pending ctx x DRC_RES_INVALID_ACTION; Some (Break idx, ctx) }
            else if \<not> is_used b' \<or> \<not> is_same_page (page_id b) b' then Some (Continue idx, ctx)
            else do {
              knl_panic (pending b' = DRC_RES_PENDING_ACTION \<and> buf_res_is_recyclable b' \<and>
                         readonly_copies b = readonly_copies b' \<and> claimed_owner b = claimed_owner b');
              if ret \<noteq> CT_SUCCESS then
                do { ctx \<leftarrow> set_pending ctx x DRC_RES_INVALID_ACTION; Some (Continue idx, ctx) }
              else do {
                (idx, ctx) \<leftarrow> drc_recycle_finish ctx x bucket;
                if \<not> is_batch then Some (Return idx, ctx)
                else do { ctx \<leftarrow> buf_free ctx idx; Some (Continue idx, ctx) } } } } }"

text \<open>
  The part of an iteration after the unlocked checks: \<open>x\<close> is the item, \<open>bucket\<close> the bucket of
  the page it held when it was read without a lock.
\<close>

definition drc_recycle_locked ::
  "('c drc_page_ctx_scheme) drc_world \<Rightarrow> bool \<Rightarrow> nat \<Rightarrow> uint32 \<Rightarrow> 'c drc_page_ctx_scheme \<Rightarrow> uint32 \<Rightarrow> uint32
     \<Rightarrow> (recycle_next \<times> 'c drc_page_ctx_scheme) option" where
  "drc_recycle_locked w is_batch n idx ctx x bucket =
     do { b \<leftarrow> buf_get ctx x;
          if pending b \<noteq> DRC_RES_INVALID_ACTION \<or> \<not> is_used b then Some (Continue idx, ctx)
          else if \<not> buf_res_is_recyclable b then Some (Continue idx, ctx)
          else do {
            let req_ver = trigger_version (env w (3 * n + 1));
            if DRC_STOP_DCS_IO_FOR_REFORMING (env w (3 * n + 2)) req_ver (page_id b) then Some (Break idx, ctx)
            else do {
              ctx \<leftarrow> set_pending ctx x DRC_RES_PENDING_ACTION;
              let ret = inval_readonly w (page_id b) (readonly_copies b) (claimed_owner b) req_ver;
              let ret = (if ret = CT_SUCCESS then inval_owner w (page_id b) (claimed_owner b) req_ver else ret);
              drc_recycle_commit w is_batch n idx (others w (2 * n + 1) ctx) x bucket b req_ver ret } } }"

definition drc_recycle_iter ::
  "('c drc_page_ctx_scheme) drc_world \<Rightarrow> bool \<Rightarrow> date_t \<Rightarrow> nat \<Rightarrow> uint32 \<Rightarrow> 'c drc_page_ctx_scheme
     \<Rightarrow> (recycle_next \<times> 'c drc_page_ctx_scheme) option" where
  "drc_recycle_iter w is_batch now n idx ctx =
     (let g = global_buf_res ctx; pool = res_pool (res_map g) in
      if item_num pool = 0 then None
      else
        do { let x = (recycle_pos pool + 1) mod item_num pool;
             let ctx = ctx\<lparr>global_buf_res := g\<lparr>res_map := (res_map g)\<lparr>res_pool := pool\<lparr>recycle_pos := x\<rparr>\<rparr>\<rparr>\<rparr>;
             b \<leftarrow> buf_get ctx x;
             (idx, stop, ctx) \<leftarrow>
               (if \<not> is_batch \<and> free_list pool \<noteq> CT_INVALID_ID32
                then do { (idx, ctx) \<leftarrow> buf_alloc ctx; Some (idx, idx \<noteq> CT_INVALID_ID32, ctx) }
                else Some (idx, False, ctx));
             if stop then Some (Return idx, ctx)
             else if \<not> BUF_RES_IS_OLD b now then Some (Continue idx, ctx)
             else if \<not> buf_res_is_recyclable b then Some (Continue idx, ctx)
             else do { bucket \<leftarrow> buf_bucket ctx (page_id b);
                       drc_recycle_locked w is_batch n idx (others w (2 * n) ctx) x bucket } })"

fun drc_recycle_loop ::
  "nat \<Rightarrow> ('c drc_page_ctx_scheme) drc_world \<Rightarrow> bool \<Rightarrow> date_t \<Rightarrow> nat \<Rightarrow> uint32 \<Rightarrow> 'c drc_page_ctx_scheme
     \<Rightarrow> (recycle_next \<times> 'c drc_page_ctx_scheme) option" where
  "drc_recycle_loop 0 w is_batch now n idx ctx = Some (Break idx, ctx)"
| "drc_recycle_loop (Suc k) w is_batch now n idx ctx =
     do { (nex, ctx) \<leftarrow> drc_recycle_iter w is_batch now n idx ctx;
          case nex of
            Continue idx \<Rightarrow> drc_recycle_loop k w is_batch now (Suc n) idx ctx
          | _ \<Rightarrow> Some (nex, ctx) }"

definition drc_recycle_items ::
  "('c drc_page_ctx_scheme) drc_world \<Rightarrow> 'c drc_page_ctx_scheme \<Rightarrow> bool \<Rightarrow> (uint32 \<times> 'c drc_page_ctx_scheme) option" where
  "drc_recycle_items w ctx is_batch =
     do { let count = (if is_batch then 1024 else unat (item_num (res_pool (res_map (global_buf_res ctx)))));
          (nex, ctx) \<leftarrow> drc_recycle_loop count w is_batch (knl_now (env w 0)) 0 CT_INVALID_ID32 ctx;
          case nex of
            Return idx \<Rightarrow> Some (idx, ctx)
          | Break idx \<Rightarrow> (if \<not> is_batch then buf_alloc ctx else Some (idx, ctx))
          | Continue idx \<Rightarrow> None }"

section \<open>Request\<close>

definition buf_free_slot :: "'c drc_page_ctx_scheme \<Rightarrow> uint32 option \<Rightarrow> 'c drc_page_ctx_scheme option" where
  "buf_free_slot ctx slot = (case slot of None \<Rightarrow> Some ctx | Some idx \<Rightarrow> buf_free ctx idx)"

type_synonym 'c request_result =
  "status_t \<times> drc_req_owner_result_t \<times> drc_req_info_t \<times> 'c"

text \<open>The answer once the requester is converting or waits.\<close>

definition drc_request_answer ::
  "drc_req_info_t \<Rightarrow> drc_req_owner_result_t \<Rightarrow> drc_buf_res_t \<Rightarrow> bool \<Rightarrow> bool
     \<Rightarrow> (drc_req_owner_result_t \<times> drc_buf_res_t) option" where
  "drc_request_answer r result b can_cvt retry =
     (if can_cvt then
        do { let ty = (if claimed_owner b = inst_id r then DRC_REQ_OWNER_ALREADY_OWNER
                       else DRC_REQ_OWNER_CONVERTING);
             rc \<leftarrow> drc_bitmap64_clear (readonly_copies b) (inst_id r);
             rc \<leftarrow> drc_bitmap64_clear rc (claimed_owner b);
             Some (result\<lparr>res_type := ty, is_retry := retry, curr_owner_id := claimed_owner b,
                          res_readonly_copies := rc, res_action := pending b, res_req_mode := req_mode r\<rparr>,
                   set_cvt_req ((req_info (converting b))\<lparr>req_owner_result := ty\<rparr>) b) }
      else Some (result\<lparr>res_type := DRC_REQ_OWNER_WAITING, curr_owner_id := claimed_owner b\<rparr>, b))"

text \<open>The invalidation of the read-only copies before an exclusive owner is made, with the locks released.\<close>

definition drc_request_invalidate ::
  "('c drc_page_ctx_scheme) drc_world \<Rightarrow> 'c drc_page_ctx_scheme \<Rightarrow> page_id_t \<Rightarrow> drc_req_info_t \<Rightarrow> bool \<Rightarrow> uint64 \<Rightarrow> uint32
     \<Rightarrow> (status_t \<times> 'c drc_page_ctx_scheme) option" where
  "drc_request_invalidate w ctx pagid r is_try copies x =
     do { knl_panic (\<not> is_try);
          self \<leftarrow> drc_bitmap64_exist copies (self_inst (env w 5));
          CM_ASSERT (self \<longrightarrow> DAAC_REPLAY_NODE (env w 5));
          let ret = inval_readonly w pagid copies (inst_id r) (req_version r);
          let ctx = others w 2 ctx;
          if ret = CT_SUCCESS then do { ctx \<leftarrow> drc_copies_invalidated ctx x pagid; Some (ret, ctx) }
          else Some (ret, ctx) }"

text \<open>From the label \<open>allocated\<close> on, once the page has an owner: \<open>slot\<close> is the item to give back.\<close>

definition drc_request_owned ::
  "('c drc_page_ctx_scheme) drc_world \<Rightarrow> 'c drc_page_ctx_scheme \<Rightarrow> page_id_t \<Rightarrow> drc_req_info_t \<Rightarrow> bool
     \<Rightarrow> drc_req_owner_result_t \<Rightarrow> uint32 \<Rightarrow> drc_buf_res_t \<Rightarrow> uint32 option
     \<Rightarrow> ('c drc_page_ctx_scheme) request_result option" where
  "drc_request_owned w ctx pagid r is_try result x b slot =
     do { (ret, pool, b, r, can_cvt, retry) \<leftarrow> drc_keep_requester_wait (lock_item_pool ctx) r b is_try;
          if ret \<noteq> CT_SUCCESS then
            do { ctx \<leftarrow> buf_put (ctx\<lparr>lock_item_pool := pool\<rparr>) x b;
                 ctx \<leftarrow> buf_free_slot ctx slot;
                 Some (CT_ERROR, result, r, ctx) }
          else do {
            (result, b) \<leftarrow> drc_request_answer r result b can_cvt retry;
            knl_panic (\<not> is_try \<or> res_type result \<noteq> DRC_REQ_OWNER_CONVERTING);
            ctx \<leftarrow> buf_put (ctx\<lparr>lock_item_pool := pool\<rparr>) x b;
            (ret, ctx) \<leftarrow>
              (if can_cvt \<and> res_readonly_copies result \<noteq> 0 \<and> req_mode r = DRC_LOCK_EXCLUSIVE
               then drc_request_invalidate w ctx pagid r is_try (res_readonly_copies result) x
               else Some (ret, ctx));
            ctx \<leftarrow> buf_free_slot ctx slot;
            Some (ret, result, r, ctx) } }"

definition drc_request_allocated ::
  "('c drc_page_ctx_scheme) drc_world \<Rightarrow> 'c drc_page_ctx_scheme \<Rightarrow> page_id_t \<Rightarrow> drc_req_info_t \<Rightarrow> bool
     \<Rightarrow> drc_req_owner_result_t \<Rightarrow> uint32 \<Rightarrow> uint32 option \<Rightarrow> ('c drc_page_ctx_scheme) request_result option" where
  "drc_request_allocated w ctx pagid r is_try result x slot =
     do { b \<leftarrow> buf_get ctx x;
          if pending b = DRC_RES_PENDING_ACTION then
            do { ctx \<leftarrow> buf_free_slot ctx slot; Some (CT_ERROR, result, r, ctx) }
          else if claimed_owner b \<noteq> CT_INVALID_ID8 then drc_request_owned w ctx pagid r is_try result x b slot
          else if \<not> (DAAC_SESSION_IN_RECOVERY (env w 4) \<or> rc_status (env w 4) \<ge> REFORM_RECOVER_DONE \<or>
                     dtc_dcs_readable (env w 4) pagid) then
            do { ctx \<leftarrow> buf_free_slot ctx slot; Some (CT_ERROR, result, r, ctx) }
          else do {
            b \<leftarrow> drc_clean_buf_res b;
            if claimed_owner b \<noteq> CT_INVALID_ID8 then drc_request_owned w ctx pagid r is_try result x b slot
            else do {
              let result = result\<lparr>res_type := DRC_REQ_OWNER_GRANTED, curr_owner_id := inst_id r\<rparr>;
              let b = set_cvt_req ((req_info (converting b))\<lparr>req_owner_result := DRC_REQ_OWNER_GRANTED\<rparr>)
                        (b\<lparr>claimed_owner := inst_id r, mode := req_mode r\<rparr>);
              CM_ASSERT (readonly_copies b = 0);
              ctx \<leftarrow> buf_put ctx x b;
              ctx \<leftarrow> buf_free_slot ctx slot;
              Some (CT_SUCCESS, result, r, ctx) } } }"

text \<open>The item of a page that had none: what the request sets before the item is linked.\<close>

definition drc_new_buf_res :: "drc_req_info_t \<Rightarrow> page_id_t \<Rightarrow> uint32 \<Rightarrow> uint32 \<Rightarrow> drc_buf_res_t \<Rightarrow> drc_buf_res_t" where
  "drc_new_buf_res r pagid part idx b =
     b\<lparr>claimed_owner := inst_id r, page_id := pagid, res_idx := idx, is_used := True, mode := req_mode r,
       latest_edp := CT_INVALID_ID8, latest_edp_lsn := 0, lsn := 0, readonly_copies := 0, edp_map := 0,
       converting := \<lparr>nxt = CT_INVALID_ID32, req_info = g_invalid_req_info\<lparr>req_time := req_time r\<rparr>\<rparr>,
       pending := DRC_RES_INVALID_ACTION, convert_q := DRC_LIST_INIT, part_id := ucast part,
       node := (node b)\<lparr>node_idx := idx\<rparr>\<rparr>"

definition drc_request_create ::
  "('c drc_page_ctx_scheme) drc_world \<Rightarrow> 'c drc_page_ctx_scheme \<Rightarrow> page_id_t \<Rightarrow> drc_req_info_t \<Rightarrow> bool
     \<Rightarrow> drc_req_owner_result_t \<Rightarrow> uint32 \<Rightarrow> uint32 \<Rightarrow> ('c drc_page_ctx_scheme) request_result option" where
  "drc_request_create w ctx pagid r is_try result part idx =
     do { found \<leftarrow> buf_lookup ctx pagid;
          case found of
            Some x \<Rightarrow> drc_request_allocated w ctx pagid r is_try result x (Some idx)
          | None \<Rightarrow>
              if DRC_STOP_DCS_IO_FOR_REFORMING (env w 2) (req_version r) pagid then
                do { ctx \<leftarrow> buf_free ctx idx; Some (CT_ERROR, result, r, ctx) }
              else do {
                bucket \<leftarrow> buf_bucket ctx pagid;
                b \<leftarrow> buf_get ctx idx;
                g \<leftarrow> drc_res_attach (global_buf_res ctx) bucket idx (drc_new_buf_res r pagid part idx b);
                if DRC_STOP_DCS_IO_FOR_REFORMING (env w 3) (req_version r) pagid then
                  do { m \<leftarrow> drc_res_map_remove (res_map g) bucket pagid;
                       ctx \<leftarrow> buf_put (ctx\<lparr>global_buf_res := g\<lparr>res_map := m\<rparr>\<rparr>) idx zero_buf_res;
                       ctx \<leftarrow> buf_free ctx idx;
                       Some (CT_ERROR, result, r, ctx) }
                else do {
                  g \<leftarrow> drc_part_link g idx;
                  Some (CT_SUCCESS, result\<lparr>res_type := DRC_REQ_OWNER_GRANTED, curr_owner_id := inst_id r,
                          res_readonly_copies := 0\<rparr>, r, ctx\<lparr>global_buf_res := g\<rparr>) } } }"

text \<open>\<open>rw\<close> is the world of the recycle a request may have to run to obtain an item.\<close>

definition drc_request_page_owner ::
  "('c drc_page_ctx_scheme) drc_world \<Rightarrow> ('c drc_page_ctx_scheme) drc_world \<Rightarrow> 'c drc_page_ctx_scheme
     \<Rightarrow> page_id_t \<Rightarrow> drc_req_info_t \<Rightarrow> bool \<Rightarrow> drc_req_owner_result_t
     \<Rightarrow> ('c drc_page_ctx_scheme) request_result option" where
  "drc_request_page_owner w rw ctx pagid r is_try result =
     (let result = result\<lparr>res_type := DRC_REQ_OWNER_INVALID, res_action := DRC_RES_INVALID_ACTION,
                           is_retry := False, res_req_mode := req_mode r\<rparr>;
          r = r\<lparr>req_owner_result := DRC_REQ_OWNER_WAITING\<rparr> in
      if inst_id r \<ge> CT_MAX_INSTANCES \<or> IS_INVALID_PAGID pagid then Some (CT_ERROR, result, r, ctx)
      else if \<not> dtc_dcs_readable (env w 0) pagid then Some (CT_ERROR, result, r, ctx)
      else do {
        part \<leftarrow> drc_page_partid (env w 0) pagid;
        if DRC_STOP_DCS_IO_FOR_REFORMING (env w 1) (req_version r) pagid then Some (CT_ERROR, result, r, ctx)
        else do {
          found \<leftarrow> buf_lookup ctx pagid;
          case found of
            Some x \<Rightarrow> drc_request_allocated w ctx pagid r is_try result x None
          | None \<Rightarrow>
              do { (idx, ctx) \<leftarrow> buf_alloc (others w 0 ctx);
                   (idx, ctx) \<leftarrow> (if idx = CT_INVALID_ID32 then drc_recycle_items rw ctx False else Some (idx, ctx));
                   if idx = CT_INVALID_ID32 then Some (CT_ERROR, result, r, ctx)
                   else drc_request_create w (others w 1 ctx) pagid r is_try result part idx } } })"

end
