(* ===== verification/Drc_Page_Inv.thy ===== *)
theory Drc_Page_Inv
  imports Drc_Page_Res
begin

text \<open>
  The invariant of the page catalogue as a whole: every linked page satisfies the page
  invariant, the convert queues of different pages are disjoint lists of the lock item pool,
  free items are in no queue, and an item is in use exactly when it is linked. Frame lemmas
  carry it across updates of one page, allocation, linking and removal; the handlers are
  proved from them.
\<close>


section \<open>The invariant of the page catalogue\<close>

interpretation pg: keyed_part_res page_id
  by unfold_locales simp_all

definition page_hash :: "uint32 \<Rightarrow> page_id_t \<Rightarrow> uint32" where
  "page_hash n p = (HASH_SEED * ucast (file_no p) + HASH_SEED * page_no p) mod n"

abbreviation buf_map :: "'c drc_page_ctx_scheme \<Rightarrow> (page_id_t, drc_buf_res_t) drc_res_map" where
  "buf_map c \<equiv> res_map (global_buf_res c)"

abbreviation buf :: "'c drc_page_ctx_scheme \<Rightarrow> uint32 \<Rightarrow> drc_buf_res_t" where
  "buf c x \<equiv> item (buf_map c) x"

abbreviation buf_num :: "'c drc_page_ctx_scheme \<Rightarrow> uint32" where
  "buf_num c \<equiv> item_num (res_pool (buf_map c))"

definition page_ok :: "item_pool_t \<Rightarrow> drc_buf_res_t \<Rightarrow> uint32 list \<Rightarrow> bool" where
  "page_ok pool b ids \<longleftrightarrow> queue_inv pool (convert_q b) ids \<and> page_inv b (reqs pool ids) \<and> is_used b"

text \<open>
  \<open>pctx H K c fl L lfl qs\<close>: \<open>fl\<close> and \<open>lfl\<close> are the free page and lock items, \<open>L\<close> the linked
  pages, \<open>qs x\<close> the queue of page \<open>x\<close>. \<open>H\<close> are page items and \<open>K\<close> lock items held by
  someone else: threads between two critical sections, and the queues of other resources.
\<close>

definition pctx ::
  "uint32 set \<Rightarrow> uint32 set \<Rightarrow> 'c drc_page_ctx_scheme \<Rightarrow> uint32 list \<Rightarrow> uint32 set \<Rightarrow> uint32 list
     \<Rightarrow> (uint32 \<Rightarrow> uint32 list) \<Rightarrow> bool" where
  "pctx H K c fl L lfl qs \<longleftrightarrow>
     gres_rep page_id (page_hash (bucket_num (buf_map c))) (global_buf_res c) fl L \<and> bucket_num (buf_map c) \<noteq> 0 \<and>
     pool_inv (lock_item_pool c) lfl \<and>
     (\<forall>x \<in> L. page_ok (lock_item_pool c) (buf c x) (qs x) \<and> set (qs x) \<inter> (set lfl \<union> K) = {}) \<and>
     (\<forall>x \<in> L. \<forall>y \<in> L. x \<noteq> y \<longrightarrow> set (qs x) \<inter> set (qs y) = {}) \<and>
     (\<forall>x. x < buf_num c \<longrightarrow> is_used (buf c x) \<longrightarrow> x \<in> L) \<and>
     H \<inter> (set fl \<union> L) = {} \<and> (\<forall>x \<in> H. x < buf_num c) \<and>
     K \<inter> set lfl = {} \<and> (\<forall>i \<in> K. i < item_num (lock_item_pool c))"

definition ctx_ok :: "uint32 set \<Rightarrow> uint32 set \<Rightarrow> 'c drc_page_ctx_scheme \<Rightarrow> bool" where
  "ctx_ok H K c \<longleftrightarrow> (\<exists>fl L lfl qs. pctx H K c fl L lfl qs)"

text \<open>The lock items \<open>K\<close> are left alone.\<close>

definition keeps :: "uint32 set \<Rightarrow> 'c drc_page_ctx_scheme \<Rightarrow> 'c drc_page_ctx_scheme \<Rightarrow> bool" where
  "keeps K c c' \<longleftrightarrow> (\<forall>i \<in> K. items (lock_item_pool c') i = items (lock_item_pool c) i) \<and>
     item_num (lock_item_pool c') = item_num (lock_item_pool c) \<and>
     buf_num c' = buf_num c \<and> bucket_num (buf_map c') = bucket_num (buf_map c)"

lemma keeps_refl [simp]: "keeps K c c"
  by (simp add: keeps_def)

lemma keeps_trans: "keeps K a b \<Longrightarrow> keeps K b c \<Longrightarrow> keeps K a c"
  by (simp add: keeps_def)

lemma keeps_mono: "keeps K a b \<Longrightarrow> K' \<subseteq> K \<Longrightarrow> keeps K' a b"
  by (auto simp: keeps_def)

lemma pctxD:
  assumes "pctx H K c fl L lfl qs"
  shows "gres_rep page_id (page_hash (bucket_num (buf_map c))) (global_buf_res c) fl L" "bucket_num (buf_map c) \<noteq> 0"
    "pool_inv (lock_item_pool c) lfl"
    "x \<in> L \<Longrightarrow> page_ok (lock_item_pool c) (buf c x) (qs x)"
    "x \<in> L \<Longrightarrow> set (qs x) \<inter> (set lfl \<union> K) = {}"
    "x \<in> L \<Longrightarrow> y \<in> L \<Longrightarrow> x \<noteq> y \<Longrightarrow> set (qs x) \<inter> set (qs y) = {}"
    "x < buf_num c \<Longrightarrow> is_used (buf c x) \<Longrightarrow> x \<in> L"
    "H \<inter> (set fl \<union> L) = {}" "x \<in> H \<Longrightarrow> x < buf_num c"
    "K \<inter> set lfl = {}" "i \<in> K \<Longrightarrow> i < item_num (lock_item_pool c)"
  using assms unfolding pctx_def by blast+

lemma pctx_linked:
  assumes "pctx H K c fl L lfl qs" "x \<in> L"
  shows "x < buf_num c" "x \<notin> set fl" "res_idx (buf c x) = x" "buf_get c x = Some (buf c x)"
    "qrep (lock_item_pool c) lfl (convert_q (buf c x)) (qs x)"
    "page_inv (buf c x) (reqs (lock_item_pool c) (qs x))" "is_used (buf c x)"
proof -
  note g = pctxD(1)[OF assms(1)]
  show n: "x < buf_num c" "x \<notin> set fl" "res_idx (buf c x) = x"
    using gres_repD(2-4)[OF g assms(2)] by auto
  show "buf_get c x = Some (buf c x)" using n by (simp add: buf_get_def)
  show "qrep (lock_item_pool c) lfl (convert_q (buf c x)) (qs x)"
    "page_inv (buf c x) (reqs (lock_item_pool c) (qs x))" "is_used (buf c x)"
    using pctxD(3)[OF assms(1)] pctxD(4,5)[OF assms] by (auto simp: qrep_def page_ok_def)
qed

lemma buf_bucket_eq:
  "bucket_num (buf_map c) \<noteq> 0 \<Longrightarrow> buf_bucket c p = Some (page_hash (bucket_num (buf_map c)) p)"
  by (simp add: buf_bucket_def drc_get_buf_map_bucket_def drc_page_id_hash_def page_hash_def)

lemma buf_lookup_spec:
  assumes "pctx H K c fl L lfl qs"
  shows "buf_lookup c p = Some None \<longleftrightarrow> (\<forall>x \<in> L. page_id (buf c x) \<noteq> p)"
    "buf_lookup c p = Some (Some x) \<longleftrightarrow> x \<in> L \<and> page_id (buf c x) = p"
    "\<exists>r. buf_lookup c p = Some r"
proof -
  have e: "buf_lookup c p = drc_res_map_lookup (buf_map c) (page_hash (bucket_num (buf_map c)) p) p"
    using buf_bucket_eq[OF pctxD(2)[OF assms], of p] by (simp add: buf_lookup_def buf_bucket_def)
  show "buf_lookup c p = Some None \<longleftrightarrow> (\<forall>x \<in> L. page_id (buf c x) \<noteq> p)"
    "buf_lookup c p = Some (Some x) \<longleftrightarrow> x \<in> L \<and> page_id (buf c x) = p" "\<exists>r. buf_lookup c p = Some r"
    unfolding e using pg.rep_lookup[OF pctxD(1)[OF assms]] by simp_all
qed

text \<open>An operation on one page and its queue, possibly taking lock items \<open>ks\<close> out of the queue.\<close>

lemma pctx_update:
  assumes inv: "pctx H K c fl L lfl qs" and x: "x \<in> L" and id: "same_ident (buf c x) b"
    and q: "qrep pool lfl' (convert_q b) ids" and st: "qstep (lock_item_pool c) lfl (qs x) pool lfl' (ks @ ids)"
    and ks: "set ks \<inter> (set lfl' \<union> set ids) = {}" and p: "page_inv b (reqs pool ids)"
  shows "\<exists>c'. buf_put (c\<lparr>lock_item_pool := pool\<rparr>) x b = Some c' \<and>
           c' = c\<lparr>lock_item_pool := pool, global_buf_res := global_buf_res c'\<rparr> \<and>
           (\<forall>y. buf c' y = (if y = x then b else buf c y)) \<and>
           pctx H (K \<union> set ks) c' fl L lfl' (qs(x := ids)) \<and> keeps K c c'"
proof -
  note l = pctx_linked[OF inv x]
  define c' where "c' = c\<lparr>lock_item_pool := pool, global_buf_res := (global_buf_res c)
      \<lparr>res_map := (buf_map c)\<lparr>res_pool := (res_pool (buf_map c))\<lparr>items := (items (res_pool (buf_map c)))(x := b)\<rparr>\<rparr>\<rparr>\<rparr>"
  have put: "buf_put (c\<lparr>lock_item_pool := pool\<rparr>) x b = Some c'" using l(1) by (simp add: buf_put_def c'_def)
  have it: "buf c' y = (if y = x then b else buf c y)" for y by (simp add: c'_def)
  have nums: "buf_num c' = buf_num c" "bucket_num (buf_map c') = bucket_num (buf_map c)" "lock_item_pool c' = pool"
    by (simp_all add: c'_def)
  have g: "gres_rep page_id (page_hash (bucket_num (buf_map c'))) (global_buf_res c') fl L"
    unfolding nums using pg.rep_put[OF pctxD(1)[OF inv] l(2), of b] id l(3) by (simp add: c'_def same_ident_def)
  have xd: "set (qs x) \<inter> (set lfl \<union> K) = {}" by (rule pctxD(5)[OF inv x])
  have KE: "K \<inter> (set lfl \<union> set (qs x)) = {}" using xd pctxD(10)[OF inv] by blast
  have sets: "set lfl' \<union> set ks \<union> set ids = set lfl \<union> set (qs x)" using st by (auto simp: qstep_def)
  have num: "item_num pool = item_num (lock_item_pool c)" using st by (simp add: qstep_def)
  have keep: "keeps K c c'"
    using st KE nums by (auto simp: keeps_def qstep_def)
  have "page_ok pool (buf c' y) ((qs(x := ids)) y) \<and> set ((qs(x := ids)) y) \<inter> (set lfl' \<union> (K \<union> set ks)) = {}"
    if y: "y \<in> L" for y
  proof (cases "y = x")
    case True
    then show ?thesis
      using q p id l(7) ks KE sets it by (auto simp: page_ok_def qrep_def same_ident_def)
  next
    case False
    have dj: "set (qs y) \<inter> (set lfl \<union> set (qs x)) = {}"
      using pctxD(5)[OF inv y] pctxD(6)[OF inv y x False] by blast
    have qy: "queue_inv (lock_item_pool c) (convert_q (buf c y)) (qs y)" using pctxD(4)[OF inv y] by (simp add: page_ok_def)
    note f = qstep_frame[OF st qy dj]
    have "page_ok pool (buf c y) (qs y)"
      using pctxD(4)[OF inv y] f(1) unfolding page_ok_def f(3) by simp
    moreover have "set (qs y) \<inter> (set lfl' \<union> (K \<union> set ks)) = {}"
      using pctxD(5)[OF inv y] f(2) by auto
    ultimately show ?thesis using False it by simp
  qed
  moreover have "set ((qs(x := ids)) y) \<inter> set ((qs(x := ids)) z) = {}" if "y \<in> L" "z \<in> L" "y \<noteq> z" for y z
  proof -
    have "set (qs u) \<inter> (set lfl \<union> set (qs x)) = {}" if "u \<in> L" "u \<noteq> x" for u
      using pctxD(5)[OF inv that(1)] pctxD(6)[OF inv that(1) x that(2)] by blast
    then show ?thesis using that sets pctxD(6)[OF inv that] by (cases "y = x"; cases "z = x") auto
  qed
  moreover have "is_used (buf c' y) \<Longrightarrow> y < buf_num c \<Longrightarrow> y \<in> L" for y
    using pctxD(7)[OF inv] x it by (auto split: if_splits)
  moreover have "(K \<union> set ks) \<inter> set lfl' = {}" using KE sets ks by blast
  moreover have "i \<in> K \<union> set ks \<Longrightarrow> i < item_num pool" for i
  proof -
    have "i \<in> set (qs x) \<Longrightarrow> i < item_num pool" "i \<in> set lfl \<Longrightarrow> i < item_num pool" for i
      using pctxD(3)[OF inv] pctxD(4)[OF inv x] num by (auto simp: page_ok_def queue_inv_def pool_inv_def)
    then show "i \<in> K \<union> set ks \<Longrightarrow> i < item_num pool" for i
      using pctxD(11)[OF inv] num sets by auto
  qed
  ultimately have "pctx H (K \<union> set ks) c' fl L lfl' (qs(x := ids))"
    unfolding pctx_def nums using g pctxD(2,8)[OF inv] pctxD(9)[OF inv] q by (simp add: qrep_def nums)
  then show ?thesis using put it keep by (intro exI[of _ c']) (simp add: c'_def)
qed


lemma pctx_update_page:
  assumes inv: "pctx H K c fl L lfl qs" and x: "x \<in> L" and id: "same_ident (buf c x) b"
    and q: "convert_q b = convert_q (buf c x)" and p: "page_inv b (reqs (lock_item_pool c) (qs x))"
  shows "\<exists>c'. buf_put c x b = Some c' \<and> c' = c\<lparr>global_buf_res := global_buf_res c'\<rparr> \<and>
           (\<forall>y. buf c' y = (if y = x then b else buf c y)) \<and> pctx H K c' fl L lfl qs \<and> keeps K c c'"
  using pctx_update[OF inv x id, of "lock_item_pool c" lfl "qs x" "[]"] pctx_linked(5)[OF inv x] q p by simp

section \<open>Items\<close>

lemma body_eq_fields:
  "body_eq b b' \<Longrightarrow> is_used b' = is_used b \<and> res_idx b' = res_idx b \<and> page_id b' = page_id b \<and>
     claimed_owner b' = claimed_owner b \<and> convert_q b' = convert_q b"
  unfolding body_eq_def by (elim exE) simp

lemma page_inv_body_eq: "body_eq b b' \<Longrightarrow> page_inv b' rs \<longleftrightarrow> page_inv b rs"
  unfolding body_eq_def page_inv_def by (elim exE) simp

lemma page_ok_body_eq: "body_eq b b' \<Longrightarrow> page_ok pool b' ids \<longleftrightarrow> page_ok pool b ids"
  using body_eq_fields[of b b'] page_inv_body_eq[of b b'] by (simp add: page_ok_def)

text \<open>A change of the page items only; pages are kept, removed, or added with an empty queue.\<close>

lemma pctx_frame:
  assumes inv: "pctx H K c fl L lfl qs" and pool: "lock_item_pool c' = lock_item_pool c"
    and nums: "buf_num c' = buf_num c" "bucket_num (buf_map c') = bucket_num (buf_map c)"
    and g: "gres_rep page_id (page_hash (bucket_num (buf_map c))) (global_buf_res c') fl' L'"
    and L: "\<And>y. y \<in> L' \<Longrightarrow> y \<in> L \<and> body_eq (buf c y) (buf c' y) \<and> qs' y = qs y \<or>
          qs' y = [] \<and> page_ok (lock_item_pool c) (buf c' y) []"
    and used: "\<And>y. y < buf_num c \<Longrightarrow> is_used (buf c' y) \<Longrightarrow> y \<in> L'"
    and H: "H' \<inter> (set fl' \<union> L') = {}" "\<And>y. y \<in> H' \<Longrightarrow> y < buf_num c"
  shows "pctx H' K c' fl' L' lfl qs' \<and> keeps K c c'"
proof -
  have k: "keeps K c c'" using pool nums by (simp add: keeps_def)
  have "page_ok (lock_item_pool c) (buf c' y) (qs' y) \<and> set (qs' y) \<inter> (set lfl \<union> K) = {}" if "y \<in> L'" for y
    using L[OF that] pctxD(4,5)[OF inv, of y] page_ok_body_eq by auto
  moreover have "set (qs' y) \<inter> set (qs' z) = {}" if "y \<in> L'" "z \<in> L'" "y \<noteq> z" for y z
  proof (cases "qs' y = [] \<or> qs' z = []")
    case False
    then have "y \<in> L" "z \<in> L" "qs' y = qs y" "qs' z = qs z" using L that(1,2) by blast+
    then show ?thesis using pctxD(6)[OF inv, of y z] that(3) by simp
  qed auto
  ultimately have "pctx H' K c' fl' L' lfl qs'"
    unfolding pctx_def pool nums using g used H pctxD(2,3,10)[OF inv] pctxD(11)[OF inv] by simp
  then show ?thesis using k by simp
qed

lemma buf_alloc_spec:
  assumes "pctx H K c fl L lfl qs"
  shows "case fl of
      [] \<Rightarrow> buf_alloc c = Some (CT_INVALID_ID32, c)
    | x # fl' \<Rightarrow> \<exists>c'. buf_alloc c = Some (x, c') \<and> x \<noteq> CT_INVALID_ID32 \<and> pctx (insert x H) K c' fl' L lfl qs \<and>
        x \<notin> H \<and> keeps K c c' \<and> (\<forall>y. buf c' y = buf c y)"
proof (cases fl)
  case Nil
  then have "pool_inv (res_pool (buf_map c)) []" using gres_repD(1)[OF pctxD(1)[OF assms]] by simp
  then show ?thesis using Nil by (simp add: buf_alloc_def alloc_item_Nil)
next
  case (Cons x fl')
  note g = pctxD(1)[OF assms, unfolded Cons]
  from pg.rep_alloc[OF g] obtain p where p: "drc_res_pool_alloc_item (res_pool (buf_map c)) = Some (x, p)"
    "items p = items (res_pool (buf_map c))" "item_num p = buf_num c"
    "gres_rep page_id (page_hash (bucket_num (buf_map c)))
       ((global_buf_res c)\<lparr>res_map := (buf_map c)\<lparr>res_pool := p\<rparr>\<rparr>) fl' L" by blast
  define c' where "c' = c\<lparr>global_buf_res := (global_buf_res c)\<lparr>res_map := (buf_map c)\<lparr>res_pool := p\<rparr>\<rparr>\<rparr>"
  have x: "x < buf_num c" "x \<notin> set fl'" "x \<notin> L" "x \<notin> H"
    using gres_repD(1)[OF g] gres_repD(3)[OF g, of x] pctxD(8)[OF assms] Cons by (auto simp: pool_inv_def)
  have it: "buf c' y = buf c y" for y by (simp add: c'_def p(2))
  have g': "gres_rep page_id (page_hash (bucket_num (buf_map c))) (global_buf_res c') fl' L"
    "lock_item_pool c' = lock_item_pool c" "buf_num c' = buf_num c" "bucket_num (buf_map c') = bucket_num (buf_map c)"
    using p(3,4) by (simp_all add: c'_def)
  have H: "insert x H \<inter> (set fl' \<union> L) = {}" "\<And>y. y \<in> insert x H \<Longrightarrow> y < buf_num c"
    using x pctxD(8,9)[OF assms] Cons by auto
  have "pctx (insert x H) K c' fl' L lfl qs \<and> keeps K c c'"
    by (rule pctx_frame[OF assms g'(2-4,1) _ _ H]) (use it pctxD(7)[OF assms] in simp_all)
  then show ?thesis
    using Cons p(1) x it below_neq_invalid[OF x(1)] by (simp add: buf_alloc_def c'_def)
qed

lemma buf_free_spec:
  assumes "pctx H K c fl L lfl qs" "x \<in> H"
  shows "\<exists>c'. buf_free c x = Some c' \<and> pctx (H - {x}) K c' (x # fl) L lfl qs \<and> keeps K c c' \<and>
           (\<forall>y \<in> L. buf c' y = buf c y)"
proof -
  have x: "x < buf_num c" "x \<notin> set fl" "x \<notin> L" using pctxD(8,9)[OF assms(1)] assms(2) by auto
  from pg.rep_free[OF pctxD(1)[OF assms(1)] x] obtain p n where
    p: "drc_res_pool_free_item (res_pool (buf_map c)) x = Some p"
      "items p = (items (res_pool (buf_map c)))(x := (buf c x)\<lparr>nxt := n\<rparr>)" "item_num p = buf_num c"
      "gres_rep page_id (page_hash (bucket_num (buf_map c)))
         ((global_buf_res c)\<lparr>res_map := (buf_map c)\<lparr>res_pool := p\<rparr>\<rparr>) (x # fl) L" by blast
  define c' where "c' = c\<lparr>global_buf_res := (global_buf_res c)\<lparr>res_map := (buf_map c)\<lparr>res_pool := p\<rparr>\<rparr>\<rparr>"
  have it: "buf c' y = (if y = x then (buf c x)\<lparr>nxt := n\<rparr> else buf c y)" for y by (simp add: c'_def p(2))
  have eqL: "buf c' y = buf c y" if "y \<in> L" for y using that x(3) it by auto
  have us: "is_used (buf c' y) = is_used (buf c y)" for y by (simp add: it)
  have g: "gres_rep page_id (page_hash (bucket_num (buf_map c))) (global_buf_res c') (x # fl) L"
    "lock_item_pool c' = lock_item_pool c" "buf_num c' = buf_num c" "bucket_num (buf_map c') = bucket_num (buf_map c)"
    using p(3,4) by (simp_all add: c'_def)
  have H: "(H - {x}) \<inter> (set (x # fl) \<union> L) = {}" "\<And>y. y \<in> H - {x} \<Longrightarrow> y < buf_num c"
    using pctxD(8,9)[OF assms(1)] by auto
  have "pctx (H - {x}) K c' (x # fl) L lfl qs \<and> keeps K c c'"
    by (rule pctx_frame[OF assms(1) g(2-4,1) _ _ H]) (use eqL us pctxD(7)[OF assms(1)] in simp_all)
  then show ?thesis using p(1) eqL by (intro exI[of _ c']) (simp add: buf_free_def c'_def)
qed

lemma buf_free_slot_spec:
  assumes "pctx (H \<union> set_option slot) K c fl L lfl qs" "set_option slot \<inter> H = {}"
  shows "\<exists>c' fl'. buf_free_slot c slot = Some c' \<and> pctx H K c' fl' L lfl qs \<and> keeps K c c' \<and>
           (\<forall>y \<in> L. buf c' y = buf c y)"
proof (cases slot)
  case None
  then show ?thesis using assms by (auto simp: buf_free_slot_def)
next
  case (Some x)
  then have "x \<in> H \<union> set_option slot" and e: "H \<union> set_option slot - {x} = H" using assms(2) by auto
  from buf_free_spec[OF assms(1) this(1)] obtain c' where
    "buf_free c x = Some c'" "pctx H K c' (x # fl) L lfl qs" "keeps K c c'" "\<forall>y \<in> L. buf c' y = buf c y"
    unfolding e by blast
  then show ?thesis using Some by (intro exI[of _ c'] exI[of _ "x # fl"]) (simp add: buf_free_slot_def)
qed


section \<open>Linking and removing pages\<close>

lemma buf_put_unlinked:
  assumes "pctx H K c fl L lfl qs" "x \<in> H" "\<not> is_used b"
  shows "\<exists>c'. buf_put c x b = Some c' \<and> pctx H K c' fl L lfl qs \<and> keeps K c c' \<and>
           (\<forall>y. buf c' y = (if y = x then b else buf c y))"
proof -
  have x: "x < buf_num c" "x \<notin> set fl" "x \<notin> L" using pctxD(8,9)[OF assms(1)] assms(2) by auto
  define c' where "c' = c\<lparr>global_buf_res := (global_buf_res c)\<lparr>res_map := (buf_map c)
      \<lparr>res_pool := (res_pool (buf_map c))\<lparr>items := (items (res_pool (buf_map c)))(x := b)\<rparr>\<rparr>\<rparr>\<rparr>"
  have it: "buf c' y = (if y = x then b else buf c y)" for y by (simp add: c'_def)
  have g: "gres_rep page_id (page_hash (bucket_num (buf_map c))) (global_buf_res c') fl L"
    "lock_item_pool c' = lock_item_pool c" "buf_num c' = buf_num c" "bucket_num (buf_map c') = bucket_num (buf_map c)"
    using pg.rep_put[OF pctxD(1)[OF assms(1)] x(2), of b] x(3) by (simp_all add: c'_def)
  have "pctx H K c' fl L lfl qs \<and> keeps K c c'"
    by (rule pctx_frame[OF assms(1) g(2-4,1) _ _ pctxD(8,9)[OF assms(1)]])
      (use x(3) it assms(3) pctxD(7)[OF assms(1)] in \<open>auto split: if_splits\<close>)
  then show ?thesis using it x(1) by (intro exI[of _ c']) (simp add: buf_put_def c'_def)
qed

lemma new_page_ok:
  assumes "req_ok r"
  shows "page_ok pool (drc_new_buf_res r p part i b) []"
  using assms inst_neq_invalid[of "inst_id r"]
  by (auto simp: page_ok_def drc_new_buf_res_def page_inv_def g_invalid_req_info_def req_ok_def)

lemma create_spec:
  assumes inv: "pctx H K c fl L lfl qs" and i: "i \<in> H" and new: "buf_lookup c p = Some None" and r: "req_ok r"
  shows "\<exists>bucket g1 g2. buf_bucket c p = Some bucket \<and> buf_get c i = Some (buf c i) \<and>
           drc_res_attach (global_buf_res c) bucket i (drc_new_buf_res r p part i (buf c i)) = Some g1 \<and>
           drc_part_link g1 i = Some g2 \<and>
           pctx (H - {i}) K (c\<lparr>global_buf_res := g2\<rparr>) fl (insert i L) lfl (qs(i := [])) \<and>
           keeps K c (c\<lparr>global_buf_res := g2\<rparr>) \<and>
           body_eq (drc_new_buf_res r p part i (buf c i)) (item (res_map g2) i) \<and>
           (\<forall>j \<in> L. body_eq (buf c j) (item (res_map g2) j))"
proof -
  let ?b = "drc_new_buf_res r p part i (buf c i)"
  have x: "i < buf_num c" "i \<notin> set fl" "i \<notin> L" using pctxD(8,9)[OF inv] i by auto
  note bk = buf_bucket_eq[OF pctxD(2)[OF inv], of p]
  have k: "page_id ?b = p" "res_idx ?b = i" "node_idx (node ?b) = i" by (simp_all add: drc_new_buf_res_def)
  have "drc_res_map_lookup (buf_map c) (page_hash (bucket_num (buf_map c)) p) p = Some None"
    using new bk by (simp add: buf_lookup_def buf_bucket_def)
  then have "\<exists>g1 g2. drc_res_attach (global_buf_res c) (page_hash (bucket_num (buf_map c)) p) i ?b = Some g1 \<and>
      drc_part_link g1 i = Some g2 \<and>
      gres_rep page_id (page_hash (bucket_num (buf_map c))) g2 fl (insert i L) \<and> body_eq ?b (item (res_map g2) i) \<and>
      (\<forall>j. j \<noteq> i \<longrightarrow> body_eq (buf c j) (item (res_map g2) j)) \<and>
      item_num (res_pool (res_map g2)) = buf_num c \<and> bucket_num (res_map g2) = bucket_num (buf_map c)"
    using pg.rep_create[OF pctxD(1)[OF inv] x, of ?b] k by simp
  then obtain g1 g2 where c: "drc_res_attach (global_buf_res c) (page_hash (bucket_num (buf_map c)) p) i ?b = Some g1"
      "drc_part_link g1 i = Some g2" "gres_rep page_id (page_hash (bucket_num (buf_map c))) g2 fl (insert i L)"
      "body_eq ?b (item (res_map g2) i)" "\<And>j. j \<noteq> i \<Longrightarrow> body_eq (buf c j) (item (res_map g2) j)"
      "item_num (res_pool (res_map g2)) = buf_num c" "bucket_num (res_map g2) = bucket_num (buf_map c)" by blast
  define c' where "c' = c\<lparr>global_buf_res := g2\<rparr>"
  have e: "lock_item_pool c' = lock_item_pool c" "buf_num c' = buf_num c" "bucket_num (buf_map c') = bucket_num (buf_map c)"
    "gres_rep page_id (page_hash (bucket_num (buf_map c))) (global_buf_res c') fl (insert i L)"
    using c by (simp_all add: c'_def)
  have it: "buf c' j = item (res_map g2) j" for j by (simp add: c'_def)
  have bi: "body_eq (buf c j) (buf c' j)" if "j \<in> L" for j
  proof -
    have "j \<noteq> i" using that x(3) by blast
    then show ?thesis using c(5) it by simp
  qed
  have ok: "page_ok (lock_item_pool c) (buf c' i) []"
    unfolding it page_ok_body_eq[OF c(4)] by (rule new_page_ok[OF r])
  have H: "(H - {i}) \<inter> (set fl \<union> insert i L) = {}" "\<And>y. y \<in> H - {i} \<Longrightarrow> y < buf_num c"
    using pctxD(8,9)[OF inv] by auto
  have us: "y \<in> insert i L" if "y < buf_num c" "is_used (buf c' y)" for y
    using that pctxD(7)[OF inv, of y] body_eq_fields[OF c(5), of y] it by auto
  have "pctx (H - {i}) K c' fl (insert i L) lfl (qs(i := [])) \<and> keeps K c c'"
    by (rule pctx_frame[OF inv e _ us H]) (use ok bi x(3) in auto)
  then show ?thesis
    using c(1,2,4) bk x(1) bi unfolding it unfolding c'_def
    by (intro exI[of _ "page_hash (bucket_num (buf_map c)) p"] exI[of _ g1] exI[of _ g2]) (simp add: buf_get_def)
qed


lemma create_abort_spec:
  assumes inv: "pctx H K c fl L lfl qs" and i: "i \<in> H" and new: "buf_lookup c p = Some None"
  shows "\<exists>bucket g1 m c1 c2. buf_bucket c p = Some bucket \<and> buf_get c i = Some (buf c i) \<and>
           drc_res_attach (global_buf_res c) bucket i (drc_new_buf_res r p part i (buf c i)) = Some g1 \<and>
           drc_res_map_remove (res_map g1) bucket p = Some m \<and>
           buf_put (c\<lparr>global_buf_res := g1\<lparr>res_map := m\<rparr>\<rparr>) i zero_buf_res = Some c1 \<and> buf_free c1 i = Some c2 \<and>
           pctx (H - {i}) K c2 (i # fl) L lfl qs \<and> keeps K c c2 \<and> (\<forall>j \<in> L. body_eq (buf c j) (buf c2 j))"
proof -
  let ?b = "drc_new_buf_res r p part i (buf c i)"
  have x: "i < buf_num c" "i \<notin> set fl" "i \<notin> L" using pctxD(8,9)[OF inv] i by auto
  note bk = buf_bucket_eq[OF pctxD(2)[OF inv], of p]
  have k: "page_id ?b = p" by (simp add: drc_new_buf_res_def)
  have "drc_res_map_lookup (buf_map c) (page_hash (bucket_num (buf_map c)) p) p = Some None"
    using new bk by (simp add: buf_lookup_def buf_bucket_def)
  then have "\<exists>g1 m. drc_res_attach (global_buf_res c) (page_hash (bucket_num (buf_map c)) p) i ?b = Some g1 \<and>
      drc_res_map_remove (res_map g1) (page_hash (bucket_num (buf_map c)) p) p = Some m \<and>
      gres_rep page_id (page_hash (bucket_num (buf_map c))) (g1\<lparr>res_map := m\<rparr>) fl L \<and>
      (\<forall>j. j \<noteq> i \<longrightarrow> body_eq (buf c j) (item m j)) \<and>
      item_num (res_pool m) = buf_num c \<and> bucket_num m = bucket_num (buf_map c)"
    using pg.rep_attach_remove[OF pctxD(1)[OF inv] x, of ?b] k by simp
  then obtain g1 m where c: "drc_res_attach (global_buf_res c) (page_hash (bucket_num (buf_map c)) p) i ?b = Some g1"
      "drc_res_map_remove (res_map g1) (page_hash (bucket_num (buf_map c)) p) p = Some m"
      "gres_rep page_id (page_hash (bucket_num (buf_map c))) (g1\<lparr>res_map := m\<rparr>) fl L"
      "\<And>j. j \<noteq> i \<Longrightarrow> body_eq (buf c j) (item m j)"
      "item_num (res_pool m) = buf_num c" "bucket_num m = bucket_num (buf_map c)" by blast
  define g2 where "g2 = g1\<lparr>res_map := m\<lparr>res_pool := (res_pool m)\<lparr>items := (items (res_pool m))(i := zero_buf_res)\<rparr>\<rparr>\<rparr>"
  define c1 where "c1 = c\<lparr>global_buf_res := g2\<rparr>"
  have put: "buf_put (c\<lparr>global_buf_res := g1\<lparr>res_map := m\<rparr>\<rparr>) i zero_buf_res = Some c1"
    using x(1) c(5) by (simp add: buf_put_def c1_def g2_def)
  have e: "lock_item_pool c1 = lock_item_pool c" "buf_num c1 = buf_num c" "bucket_num (buf_map c1) = bucket_num (buf_map c)"
    "gres_rep page_id (page_hash (bucket_num (buf_map c))) (global_buf_res c1) fl L"
    using c(5,6) pg.rep_put[OF c(3) x(2), of zero_buf_res] x(3) by (simp_all add: c1_def g2_def)
  have it: "buf c1 j = (if j = i then zero_buf_res else item m j)" for j by (simp add: c1_def g2_def)
  have ne: "j \<noteq> i" if "j \<in> L" for j using that x(3) by blast
  have bi: "body_eq (buf c j) (buf c1 j)" if "j \<in> L" for j using c(4)[OF ne[OF that]] ne[OF that] it by simp
  have us: "y \<in> L" if "y < buf_num c" "is_used (buf c1 y)" for y
    using that pctxD(7)[OF inv, of y] body_eq_fields[OF c(4), of y] it
    by (auto simp: zero_buf_res_def split: if_splits)
  have c1: "pctx H K c1 fl L lfl qs" "keeps K c c1"
    using pctx_frame[OF inv e _ us pctxD(8,9)[OF inv], of qs] bi by auto
  from buf_free_spec[OF c1(1) i] obtain c2 where
    "buf_free c1 i = Some c2" "pctx (H - {i}) K c2 (i # fl) L lfl qs" "keeps K c1 c2" "\<forall>y \<in> L. buf c2 y = buf c1 y" by blast
  then show ?thesis
    using c(1,2) bk x(1) bi put keeps_trans[OF c1(2)]
    by (intro exI[of _ "page_hash (bucket_num (buf_map c)) p"] exI[of _ g1] exI[of _ m] exI[of _ c1] exI[of _ c2])
      (simp add: buf_get_def)
qed


text \<open>A page taken out of the map and its list, in whichever order, and zeroed.\<close>

lemma removed_spec:
  assumes inv: "pctx H K c fl L lfl qs" and x: "x \<in> L"
    and g: "gres_rep page_id (page_hash (bucket_num (buf_map c))) g fl (L - {x})"
    and it: "\<And>j. body_eq (buf c j) (item (res_map g) j)"
    and nums: "item_num (res_pool (res_map g)) = buf_num c" "bucket_num (res_map g) = bucket_num (buf_map c)"
  shows "\<exists>c'. buf_put (c\<lparr>global_buf_res := g\<rparr>) x zero_buf_res = Some c' \<and>
           pctx (insert x H) K c' fl (L - {x}) lfl qs \<and> keeps K c c' \<and> x \<notin> H \<and>
           (\<forall>j \<in> L - {x}. body_eq (buf c j) (buf c' j))"
proof -
  note l = pctx_linked[OF inv x]
  define c' where "c' = c\<lparr>global_buf_res := g\<lparr>res_map := (res_map g)\<lparr>res_pool := (res_pool (res_map g))
      \<lparr>items := (items (res_pool (res_map g)))(x := zero_buf_res)\<rparr>\<rparr>\<rparr>\<rparr>"
  have put: "buf_put (c\<lparr>global_buf_res := g\<rparr>) x zero_buf_res = Some c'"
    using l(1) nums(1) by (simp add: buf_put_def c'_def)
  have e: "lock_item_pool c' = lock_item_pool c" "buf_num c' = buf_num c" "bucket_num (buf_map c') = bucket_num (buf_map c)"
    "gres_rep page_id (page_hash (bucket_num (buf_map c))) (global_buf_res c') fl (L - {x})"
    using nums pg.rep_put[OF g l(2), of zero_buf_res] by (simp_all add: c'_def)
  have itc: "buf c' j = (if j = x then zero_buf_res else item (res_map g) j)" for j by (simp add: c'_def)
  have bi: "body_eq (buf c j) (buf c' j)" if "j \<in> L - {x}" for j using that it itc by simp
  have us: "y \<in> L - {x}" if "y < buf_num c" "is_used (buf c' y)" for y
    using that pctxD(7)[OF inv, of y] body_eq_fields[OF it[of y]] itc
    by (auto simp: zero_buf_res_def split: if_splits)
  have xH: "x \<notin> H" using pctxD(8)[OF inv] x by blast
  have H: "insert x H \<inter> (set fl \<union> (L - {x})) = {}" "\<And>y. y \<in> insert x H \<Longrightarrow> y < buf_num c"
    using pctxD(8,9)[OF inv] l(1,2) by auto
  have "pctx (insert x H) K c' fl (L - {x}) lfl qs \<and> keeps K c c'"
    by (rule pctx_frame[OF inv e _ us H]) (use bi in auto)
  then show ?thesis using put bi xH by blast
qed

lemma clean_internal_spec:
  assumes inv: "pctx H K c fl L lfl qs" and x: "x \<in> L"
    and b: "bucket = page_hash (bucket_num (buf_map c)) (page_id (buf c x))"
  shows "\<exists>c'. drc_clean_page_owner_internal c x bucket = Some c' \<and>
           pctx (insert x H) K c' fl (L - {x}) lfl qs \<and> keeps K c c' \<and> x \<notin> H \<and>
           (\<forall>j \<in> L - {x}. body_eq (buf c j) (buf c' j))"
proof -
  from pg.rep_remove_unlink[OF pctxD(1)[OF inv] x] obtain m g2 where
    c: "drc_res_map_remove (buf_map c) bucket (page_id (buf c x)) = Some m"
      "drc_part_unlink ((global_buf_res c)\<lparr>res_map := m\<rparr>) x = Some g2"
      "gres_rep page_id (page_hash (bucket_num (buf_map c))) g2 fl (L - {x})"
      "\<And>j. body_eq (buf c j) (item (res_map g2) j)"
      "item_num (res_pool (res_map g2)) = buf_num c" "bucket_num (res_map g2) = bucket_num (buf_map c)"
    unfolding b by blast
  show ?thesis
    using removed_spec[OF inv x c(3-6)] c(1,2) pctx_linked(4)[OF inv x]
    by (simp add: drc_clean_page_owner_internal_def)
qed

lemma release_core_spec:
  assumes inv: "pctx H K c fl L lfl qs" and x: "x \<in> L"
  shows "\<exists>g m bucket c1 c2. drc_part_unlink (global_buf_res c) x = Some g \<and>
           drc_get_buf_map_bucket (res_map g) (file_no (page_id (buf c x))) (page_no (page_id (buf c x))) = Some bucket \<and>
           drc_res_map_remove (res_map g) bucket (page_id (buf c x)) = Some m \<and>
           buf_put (c\<lparr>global_buf_res := g\<lparr>res_map := m\<rparr>\<rparr>) x zero_buf_res = Some c1 \<and> buf_free c1 x = Some c2 \<and>
           pctx H K c2 (x # fl) (L - {x}) lfl qs \<and> keeps K c c2 \<and> (\<forall>j \<in> L - {x}. body_eq (buf c j) (buf c2 j))"
proof -
  let ?h = "page_hash (bucket_num (buf_map c))"
  from pg.rep_unlink_remove[OF pctxD(1)[OF inv] x] obtain g m where
    c: "drc_part_unlink (global_buf_res c) x = Some g"
      "drc_res_map_remove (res_map g) (?h (page_id (buf c x))) (page_id (buf c x)) = Some m"
      "gres_rep page_id ?h (g\<lparr>res_map := m\<rparr>) fl (L - {x})"
      "\<And>j. body_eq (buf c j) (item m j)" "item_num (res_pool m) = buf_num c" "bucket_num m = bucket_num (buf_map c)"
      "bucket_num (res_map g) = bucket_num (buf_map c)" by blast
  have bk: "drc_get_buf_map_bucket (res_map g) (file_no p) (page_no p) = Some (?h p)" for p
    using pctxD(2)[OF inv] c(7) by (simp add: drc_get_buf_map_bucket_def drc_page_id_hash_def page_hash_def)
  have "\<exists>c1. buf_put (c\<lparr>global_buf_res := g\<lparr>res_map := m\<rparr>\<rparr>) x zero_buf_res = Some c1 \<and>
      pctx (insert x H) K c1 fl (L - {x}) lfl qs \<and> keeps K c c1 \<and> x \<notin> H \<and>
      (\<forall>j \<in> L - {x}. body_eq (buf c j) (buf c1 j))"
    using c(4-6) by (intro removed_spec[OF inv x c(3)]) simp_all
  then obtain c1 where c1: "buf_put (c\<lparr>global_buf_res := g\<lparr>res_map := m\<rparr>\<rparr>) x zero_buf_res = Some c1"
      "pctx (insert x H) K c1 fl (L - {x}) lfl qs" "keeps K c c1" "x \<notin> H"
      "\<And>j. j \<in> L - {x} \<Longrightarrow> body_eq (buf c j) (buf c1 j)" by blast
  then obtain c2 where c2: "buf_free c1 x = Some c2" "pctx H K c2 (x # fl) (L - {x}) lfl qs" "keeps K c1 c2"
      "\<forall>y \<in> L - {x}. buf c2 y = buf c1 y"
    using buf_free_spec[OF c1(2), of x] by auto
  then show ?thesis
    using c(1,2) bk c1 keeps_trans[OF c1(3) c2(3)]
    by (intro exI[of _ g] exI[of _ m] exI[of _ "?h (page_id (buf c x))"] exI[of _ c1] exI[of _ c2]) auto
qed

end
