(* ===== verification/Drc_Page_Ops.thy ===== *)
theory Drc_Page_Ops
  imports Drc_Page_Inv
begin

text \<open>
  The handlers of the page API keep the invariant of the catalogue, whatever the other threads
  do in the windows in which a handler holds no lock, as long as they keep the invariant
  themselves and respect the two rules the source states in its comments (\<open>rely\<close>).
\<close>

section \<open>The other threads\<close>

abbreviation linked :: "'c drc_page_ctx_scheme \<Rightarrow> uint32 \<Rightarrow> bool" where
  "linked c x \<equiv> buf_lookup c (page_id (buf c x)) = Some (Some x)"

text \<open>
  What a handler relies on while it holds no lock. The comments of the source: a converting
  page is not recycled, and a page that is being recycled (pending) is not accessible.
\<close>

definition rely :: "'c drc_page_ctx_scheme \<Rightarrow> 'c drc_page_ctx_scheme \<Rightarrow> bool" where
  "rely c c' \<longleftrightarrow>
     (\<forall>x. linked c x \<longrightarrow> cvt_inst (buf c x) \<noteq> CT_INVALID_ID8 \<longrightarrow>
        linked c' x \<and> page_id (buf c' x) = page_id (buf c x) \<and> cvt_inst (buf c' x) \<noteq> CT_INVALID_ID8) \<and>
     (\<forall>x. linked c x \<longrightarrow> pending (buf c x) = DRC_RES_PENDING_ACTION \<longrightarrow>
        linked c' x \<and> page_id (buf c' x) = page_id (buf c x) \<and> pending (buf c' x) = DRC_RES_PENDING_ACTION \<and>
        cvt_inst (buf c' x) = cvt_inst (buf c x) \<and> edp_map (buf c' x) = edp_map (buf c x) \<and>
        claimed_owner (buf c' x) = claimed_owner (buf c x) \<and> readonly_copies (buf c' x) = readonly_copies (buf c x))"

definition stable :: "('c drc_page_ctx_scheme) drc_world \<Rightarrow> bool" where
  "stable w \<longleftrightarrow> (\<forall>n H K c. ctx_ok H K c \<longrightarrow>
     ctx_ok H K (others w n c) \<and> keeps K c (others w n c) \<and> rely c (others w n c))"

lemma stableD:
  assumes "stable w" "ctx_ok H K c"
  shows "ctx_ok H K (others w n c)" "keeps K c (others w n c)" "rely c (others w n c)"
  using assms unfolding stable_def by blast+

lemma stable_id: "others w = (\<lambda>_ c. c) \<Longrightarrow> stable w"
  by (auto simp: stable_def rely_def)

lemma relyD:
  assumes "rely c c'" "linked c x"
  shows "cvt_inst (buf c x) \<noteq> CT_INVALID_ID8 \<Longrightarrow>
      linked c' x \<and> page_id (buf c' x) = page_id (buf c x) \<and> cvt_inst (buf c' x) \<noteq> CT_INVALID_ID8"
    "pending (buf c x) = DRC_RES_PENDING_ACTION \<Longrightarrow>
      linked c' x \<and> page_id (buf c' x) = page_id (buf c x) \<and> pending (buf c' x) = DRC_RES_PENDING_ACTION \<and>
      cvt_inst (buf c' x) = cvt_inst (buf c x) \<and> edp_map (buf c' x) = edp_map (buf c x) \<and>
      claimed_owner (buf c' x) = claimed_owner (buf c x) \<and> readonly_copies (buf c' x) = readonly_copies (buf c x)"
  using assms unfolding rely_def by blast+

lemma ctx_okI: "pctx H K c fl L lfl qs \<Longrightarrow> ctx_ok H K c"
  unfolding ctx_ok_def by blast

lemma ctx_okE:
  assumes "ctx_ok H K c"
  obtains fl L lfl qs where "pctx H K c fl L lfl qs"
  using assms unfolding ctx_ok_def by blast

lemma pctx_linked_iff: "pctx H K c fl L lfl qs \<Longrightarrow> linked c x \<longleftrightarrow> x \<in> L"
  using buf_lookup_spec(2) by blast

lemma pctx_mono:
  assumes p: "pctx H K c fl L lfl qs" and s: "H' \<subseteq> H" "K' \<subseteq> K"
  shows "pctx H' K' c fl L lfl qs"
proof -
  have "set (qs x) \<inter> (set lfl \<union> K') = {}" if "x \<in> L" for x using pctxD(5)[OF p that] s by blast
  moreover have "H' \<inter> (set fl \<union> L) = {}" "K' \<inter> set lfl = {}" using pctxD(8,10)[OF p] s by blast+
  moreover have "x < buf_num c" if "x \<in> H'" for x using pctxD(9)[OF p, of x] that s by blast
  moreover have "i < item_num (lock_item_pool c)" if "i \<in> K'" for i using pctxD(11)[OF p, of i] that s by blast
  ultimately show ?thesis
    unfolding pctx_def using pctxD(1,2,3)[OF p] pctxD(4)[OF p] pctxD(6)[OF p] pctxD(7)[OF p] by simp
qed

lemma ctx_ok_mono: "ctx_ok H K c \<Longrightarrow> H' \<subseteq> H \<Longrightarrow> K' \<subseteq> K \<Longrightarrow> ctx_ok H' K' c"
  by (metis ctx_ok_def pctx_mono)

section \<open>Claim\<close>

lemma copies_invalidated_ok:
  assumes "ctx_ok H K c" "linked c x" "page_id (buf c x) = p" "cvt_inst (buf c x) \<noteq> CT_INVALID_ID8"
  shows "\<exists>c'. drc_copies_invalidated c x p = Some c' \<and> ctx_ok H K c' \<and> keeps K c c'"
proof -
  obtain fl L lfl qs where inv: "pctx H K c fl L lfl qs" using assms(1) by (rule ctx_okE)
  then have x: "x \<in> L" using assms(2) pctx_linked_iff by blast
  note l = pctx_linked[OF inv x]
  let ?b = "(buf c x)\<lparr>readonly_copies := 0\<rparr>"
  have "page_inv ?b (reqs (lock_item_pool c) (qs x))" using l(6) assms(4) by (auto simp: page_inv_def)
  then obtain c' where "buf_put c x ?b = Some c'" "pctx H K c' fl L lfl qs" "keeps K c c'"
    using pctx_update_page[OF inv x, of ?b] by (auto simp: same_ident_def)
  moreover have "is_same_page p (buf c x)" using assms(3) by (simp add: is_same_page_def)
  ultimately show ?thesis using l(4) ctx_okI by (auto simp: drc_copies_invalidated_def)
qed

lemma reply_conflict_ok:
  assumes "ctx_ok H (insert i K) c" "i \<notin> K"
  shows "\<exists>c'. drc_reply_conflict e sid c i = Some c' \<and> ctx_ok H K c' \<and> keeps K c c' \<and>
           global_buf_res c' = global_buf_res c"
proof -
  obtain fl L lfl qs where inv: "pctx H (insert i K) c fl L lfl qs" using assms(1) by (rule ctx_okE)
  have i: "i < item_num (lock_item_pool c)" "i \<notin> set lfl" using pctxD(10,11)[OF inv] by auto
  note p = pctxD(3)[OF inv]
  define pool where "pool = (lock_item_pool c)\<lparr>items := (items (lock_item_pool c))
      (i := (items (lock_item_pool c) i)\<lparr>nxt := free_list (lock_item_pool c)\<rparr>),
      free_list := i, used_num := used_num (lock_item_pool c) - 1\<rparr>"
  have fr: "drc_res_pool_free_item (lock_item_pool c) i = Some pool"
    unfolding pool_def by (rule free_item_eq[OF p i(1)])
  have pi: "pool_inv pool (i # lfl)" unfolding pool_def using pool_inv_give[OF p i] by simp
  have it: "items pool j = items (lock_item_pool c) j" if "j \<noteq> i" for j using that by (simp add: pool_def)
  have num: "item_num pool = item_num (lock_item_pool c)" by (simp add: pool_def)
  define c' where "c' = c\<lparr>sent_errors := sent_errors c @ [\<lparr>src_inst = inst_id (req_info (items (lock_item_pool c) i)),
      src_sid = inst_sid (req_info (items (lock_item_pool c) i)), dst_inst = self_inst e, dst_sid = sid,
      head_rsn = rsn (req_info (items (lock_item_pool c) i))\<rparr>], lock_item_pool := pool\<rparr>"
  have r: "drc_reply_conflict e sid c i = Some c'"
    using i fr below_neq_invalid[OF i(1)] by (simp add: drc_reply_conflict_def c'_def Let_def)
  have "page_ok pool (buf c x) (qs x)" if "x \<in> L" for x
  proof -
    have ne: "j \<noteq> i" if "j \<in> set (qs x)" for j using that pctxD(5)[OF inv \<open>x \<in> L\<close>] by blast
    have "queue_inv pool (convert_q (buf c x)) (qs x) \<longleftrightarrow> queue_inv (lock_item_pool c) (convert_q (buf c x)) (qs x)"
      using it[OF ne] num by (intro queue_inv_pool_cong) simp_all
    moreover have r: "reqs pool (qs x) = reqs (lock_item_pool c) (qs x)" using it[OF ne] by simp
    ultimately show ?thesis using pctxD(4)[OF inv that] unfolding page_ok_def r by blast
  qed
  moreover have "set (qs x) \<inter> (set (i # lfl) \<union> K) = {}" if "x \<in> L" for x using pctxD(5)[OF inv that] by auto
  moreover have "K \<inter> set (i # lfl) = {}" using pctxD(10)[OF inv] assms(2) by auto
  moreover have "global_buf_res c' = global_buf_res c" "lock_item_pool c' = pool" by (simp_all add: c'_def)
  ultimately have "pctx H K c' fl L (i # lfl) qs"
    unfolding pctx_def using pctxD(1,2,8)[OF inv] pctxD(6)[OF inv] pctxD(7)[OF inv] pctxD(9)[OF inv] pctxD(11)[OF inv]
      pi num by auto
  moreover have "items pool j = items (lock_item_pool c) j" if "j \<in> K" for j using it[of j] assms(2) that by blast
  then have "keeps K c c'" using num by (simp add: keeps_def c'_def)
  ultimately show ?thesis using r ctx_okI by (auto simp: c'_def)
qed


abbreviation held :: "uint32 \<Rightarrow> uint32 set" where
  "held i \<equiv> (if i = CT_INVALID_ID32 then {} else {i})"

lemma reply_conflict_step:
  assumes "ctx_ok H (held i \<union> K) c" "held i \<inter> K = {}"
  shows "\<exists>c'. drc_reply_conflict e sid c i = Some c' \<and> ctx_ok H K c' \<and> keeps K c c' \<and>
           global_buf_res c' = global_buf_res c"
proof (cases "i = CT_INVALID_ID32")
  case True
  then show ?thesis using assms(1) by (simp add: drc_reply_conflict_def)
next
  case False
  then show ?thesis using assms reply_conflict_ok[of H i K c e sid] by simp
qed

lemma nxt_converting [simp]: "nxt (converting_update f b) = nxt (b :: drc_buf_res_t)"
  by (cases b) simp

lemma claim_step:
  assumes inv: "pctx H K c fl L lfl qs" and x: "x \<in> L"
    and ok: "claim_ok claim (buf c x)" and gone: "copies_gone claim (buf c x)"
  shows "\<exists>b1 conf pool b2 cvt2 c1. drc_claim_new_page_owner claim (buf c x) = Some b1 \<and>
           drc_convert_next_request now (lock_item_pool c) b1 cvt = Some (conf, pool, b2, cvt2) \<and>
           buf_put (c\<lparr>lock_item_pool := pool\<rparr>) x b2 = Some c1 \<and>
           ctx_ok H (held conf \<union> K) c1 \<and> held conf \<inter> K = {} \<and> keeps K c c1 \<and> linked c1 x \<and>
           (\<forall>y. buf c1 y = (if y = x then b2 else buf c y)) \<and> same_ident (buf c x) b2 \<and>
           (\<exists>q it. b2 = (claim_effect claim (buf c x))\<lparr>convert_q := q, converting := it\<rparr>) \<and>
           (case next_live 0 now (reqs (lock_item_pool c) (qs x)) of
              [] \<Rightarrow> cvt_inst b2 = CT_INVALID_ID8 \<and> req_id cvt2 = req_id cvt
            | r # rs \<Rightarrow> req_info (converting b2) = r \<and> req_id cvt2 = inst_id r \<and> cvt_req_mode cvt2 = req_mode r)"
proof -
  note l = pctx_linked[OF inv x]
  let ?b = "claim_effect claim (buf c x)"
  note e = claim_effect_inv[OF l(6) ok]
  have q: "qrep (lock_item_pool c) lfl (convert_q ?b) (qs x)" using l(5) e(4) by simp
  have pend: "pending ?b \<noteq> DRC_RES_PENDING_ACTION" using e(7) by simp
  from convert_next_spec[OF q e(1,5) pend, of now cvt]
  obtain conf pool b2 cvt2 lfl' ids q' it where
    r: "drc_convert_next_request now (lock_item_pool c) ?b cvt = Some (conf, pool, b2, cvt2)"
    and b2: "b2 = ?b\<lparr>convert_q := q', converting := it\<rparr>" and pi: "page_inv b2 (reqs pool ids)"
    and qr: "qrep pool lfl' q' ids" and d: "cvt_done (lock_item_pool c) lfl (qs x) conf pool lfl' ids"
    and cs: "(case next_live 0 now (reqs (lock_item_pool c) (qs x)) of
       [] \<Rightarrow> cvt_inst b2 = CT_INVALID_ID8 \<and> ids = [] \<and> req_id cvt2 = req_id cvt
     | r # rs \<Rightarrow> req_info it = r \<and> req_id cvt2 = inst_id r \<and> cvt_req_mode cvt2 = req_mode r \<and>
         insts (cvt_readonly_copies cvt2) = insts (readonly_copies ?b) - {inst_id r, claimed_owner ?b} \<and>
         reqs pool ids = (if rs \<noteq> [] \<and> conf \<noteq> CT_INVALID_ID32 then tl rs else rs) \<and>
         (conf \<noteq> CT_INVALID_ID32 \<longrightarrow> rs \<noteq> [] \<and> req_info (items pool conf) = hd rs \<and>
             new_req_conflicts (hd rs) b2))" by blast
  define ks where "ks = (if conf = CT_INVALID_ID32 then [] else [conf])"
  have ks: "set ks = held conf" by (simp add: ks_def)
  have st: "qstep (lock_item_pool c) lfl (qs x) pool lfl' (ks @ ids)" and dj: "set ks \<inter> (set lfl' \<union> set ids) = {}"
    using d by (auto simp: cvt_done_def ks_def)
  have id: "same_ident (buf c x) b2" using e(2) by (simp add: b2 same_ident_def)
  have q2: "convert_q b2 = q'" by (simp add: b2)
  obtain c1 where c1: "buf_put (c\<lparr>lock_item_pool := pool\<rparr>) x b2 = Some c1"
    "\<forall>y. buf c1 y = (if y = x then b2 else buf c y)"
    "pctx H (K \<union> set ks) c1 fl L lfl' (qs(x := ids))" "keeps K c c1"
    using pctx_update[OF inv x id _ st dj pi] qr q2 by blast
  have "set ks \<subseteq> set lfl \<union> set (qs x)" using st by (auto simp: qstep_def)
  then have kd: "held conf \<inter> K = {}" using pctxD(5)[OF inv x] pctxD(10)[OF inv] ks by blast
  have "ctx_ok H (held conf \<union> K) c1" using ctx_okI[OF c1(3)] unfolding ks by (simp add: Un_commute)
  moreover have "linked c1 x" using pctx_linked_iff[OF c1(3)] x by blast
  moreover have "drc_claim_new_page_owner claim (buf c x) = Some ?b" using claim_new_eq[OF l(6) ok] gone by simp
  moreover have "(case next_live 0 now (reqs (lock_item_pool c) (qs x)) of
              [] \<Rightarrow> cvt_inst b2 = CT_INVALID_ID8 \<and> req_id cvt2 = req_id cvt
            | r # rs \<Rightarrow> req_info (converting b2) = r \<and> req_id cvt2 = inst_id r \<and> cvt_req_mode cvt2 = req_mode r)"
    using cs unfolding b2 by (cases "next_live 0 now (reqs (lock_item_pool c) (qs x))") simp_all
  moreover have "\<exists>q it. b2 = ?b\<lparr>convert_q := q, converting := it\<rparr>" using b2 by blast
  ultimately show ?thesis using r c1(1,2,4) kd id by blast
qed


lemma claim_unfold:
  assumes inv: "pctx H K c fl L lfl qs" and x: "x \<in> L" and p: "page_id (buf c x) = claim_page claim"
  shows "drc_claim_page_owner w sid c claim cvt =
    (if \<not> claim_ok claim (buf c x) then Some (cvt\<lparr>req_id := CT_INVALID_ID8\<rparr>, c)
     else do {
       b \<leftarrow> drc_claim_new_page_owner claim (buf c x);
       (conf, pool, b, cvt) \<leftarrow> drc_convert_next_request (\<lambda>k. knl_now (env w k)) (lock_item_pool c) b
         (cvt\<lparr>req_id := CT_INVALID_ID8\<rparr>);
       ctx \<leftarrow> buf_put (c\<lparr>lock_item_pool := pool\<rparr>) x b;
       drc_claim_finish w sid (others w 0 ctx) x (claim_page claim) cvt conf })"
proof -
  have "buf_lookup c (claim_page claim) = Some (Some x)" using buf_lookup_spec(2)[OF inv] x p by blast
  then show ?thesis
    using pctx_linked(4)[OF inv x] unfolding drc_claim_page_owner_def claim_ok_def Let_def by auto
qed

lemma claim_unknown:
  assumes "ctx_ok H K c" "buf_lookup c (claim_page claim) = Some None"
  shows "drc_claim_page_owner w sid c claim cvt = Some (cvt\<lparr>req_id := CT_INVALID_ID8\<rparr>, c)"
  using assms(2) by (simp add: drc_claim_page_owner_def Let_def)

text \<open>The part of the handler after the bucket lock is released.\<close>

lemma claim_tail:
  assumes w: "stable w" and c: "ctx_ok H (held conf \<union> K) c1" "held conf \<inter> K = {}" and x: "linked c1 x"
    and cv: "req_id cvt \<noteq> CT_INVALID_ID8 \<Longrightarrow> cvt_inst (buf c1 x) \<noteq> CT_INVALID_ID8"
    and p: "p = page_id (buf c1 x)"
  shows "\<exists>c'. drc_claim_finish w sid (others w 0 c1) x p cvt conf = Some (cvt, c') \<and> ctx_ok H K c' \<and> keeps K c1 c'"
proof -
  define c2 where "c2 = others w 0 c1"
  note o = stableD[OF w c(1), of 0, folded c2_def]
  obtain c3 where r: "drc_reply_conflict (env w 0) sid c2 conf = Some c3" "ctx_ok H K c3" "keeps K c2 c3"
    "global_buf_res c3 = global_buf_res c2"
    using reply_conflict_step[OF o(1) c(2)] by blast
  have k3: "keeps K c1 c3" using keeps_trans[OF keeps_mono[OF o(2)] r(3)] by blast
  define c4 where "c4 = others w 1 c3"
  note o' = stableD[OF w r(2), of 1, folded c4_def]
  have k4: "keeps K c1 c4" using keeps_trans[OF k3 o'(2)] .
  have fin: "\<exists>c'. drc_copies_invalidated c4 x p = Some c' \<and> ctx_ok H K c' \<and> keeps K c1 c'"
    if n: "req_id cvt \<noteq> CT_INVALID_ID8"
  proof -
    have "linked c2 x" "page_id (buf c2 x) = p" "cvt_inst (buf c2 x) \<noteq> CT_INVALID_ID8"
      using relyD(1)[OF o(3) x] cv[OF n] p by blast+
    moreover have "buf_lookup c3 q = buf_lookup c2 q" for q using r(4) by (simp add: buf_lookup_def)
    ultimately have "linked c3 x" "page_id (buf c3 x) = p" "cvt_inst (buf c3 x) \<noteq> CT_INVALID_ID8"
      using r(4) by simp_all
    then have "linked c4 x" "page_id (buf c4 x) = p" "cvt_inst (buf c4 x) \<noteq> CT_INVALID_ID8"
      using relyD(1)[OF o'(3), of x] by blast+
    from copies_invalidated_ok[OF o'(1) this] show ?thesis using keeps_trans[OF k4] by blast
  qed
  show ?thesis
  proof (cases "req_id cvt \<noteq> CT_INVALID_ID8 \<and> cvt_readonly_copies cvt \<noteq> 0 \<and> cvt_req_mode cvt = DRC_LOCK_EXCLUSIVE")
    case True
    then show ?thesis using fin r(1) o'(1) k4 unfolding c2_def[symmetric] drc_claim_finish_def by (auto simp: c4_def)
  next
    case False
    then show ?thesis using r(1,2) k3 unfolding c2_def[symmetric] drc_claim_finish_def by auto
  qed
qed

lemma lookup_cases:
  assumes "ctx_ok H K c"
  obtains "buf_lookup c p = Some None" | x where "buf_lookup c p = Some (Some x)"
  using assms buf_lookup_spec(3) by (metis ctx_ok_def not_Some_eq)

lemma claim_ok_lemma:
  assumes w: "stable w" and c: "ctx_ok H K c"
    and gone: "\<And>x. buf_lookup c (claim_page claim) = Some (Some x) \<Longrightarrow> claim_ok claim (buf c x) \<Longrightarrow>
       copies_gone claim (buf c x)"
  shows "\<exists>cvt' c'. drc_claim_page_owner w sid c claim cvt = Some (cvt', c') \<and> ctx_ok H K c' \<and> keeps K c c'"
  using c
proof (rule lookup_cases[of H K c "claim_page claim"])
  assume "buf_lookup c (claim_page claim) = Some None"
  then show ?thesis using claim_unknown[OF c] c by simp
next
  fix x assume l: "buf_lookup c (claim_page claim) = Some (Some x)"
  obtain fl L lfl qs where inv: "pctx H K c fl L lfl qs" using c by (rule ctx_okE)
  have x: "x \<in> L" "page_id (buf c x) = claim_page claim" using buf_lookup_spec(2)[OF inv] l by blast+
  note u = claim_unfold[OF inv x, of w sid cvt]
  show ?thesis
  proof (cases "claim_ok claim (buf c x)")
    case False
    then show ?thesis using u c by simp
  next
    case True
    let ?now = "\<lambda>k. knl_now (env w k)"
    obtain b1 conf pool b2 cvt2 c1 where s: "drc_claim_new_page_owner claim (buf c x) = Some b1"
      "drc_convert_next_request ?now (lock_item_pool c) b1 (cvt\<lparr>req_id := CT_INVALID_ID8\<rparr>) = Some (conf, pool, b2, cvt2)"
      "buf_put (c\<lparr>lock_item_pool := pool\<rparr>) x b2 = Some c1" "ctx_ok H (held conf \<union> K) c1" "held conf \<inter> K = {}"
      "keeps K c c1" "linked c1 x" "\<forall>y. buf c1 y = (if y = x then b2 else buf c y)" "same_ident (buf c x) b2"
      "(case next_live 0 ?now (reqs (lock_item_pool c) (qs x)) of
            [] \<Rightarrow> cvt_inst b2 = CT_INVALID_ID8 \<and> req_id cvt2 = req_id (cvt\<lparr>req_id := CT_INVALID_ID8\<rparr>)
          | r # rs \<Rightarrow> req_info (converting b2) = r \<and> req_id cvt2 = inst_id r \<and> cvt_req_mode cvt2 = req_mode r)"
      using claim_step[OF inv x(1) True gone[OF l True], of ?now "cvt\<lparr>req_id := CT_INVALID_ID8\<rparr>"] by blast
    have cv: "cvt_inst (buf c1 x) \<noteq> CT_INVALID_ID8" if "req_id cvt2 \<noteq> CT_INVALID_ID8"
      using s(8,10) that by (auto split: list.splits)
    have pg: "claim_page claim = page_id (buf c1 x)" using s(8,9) x(2) by (simp add: same_ident_def)
    from claim_tail[OF w s(4,5,7) _ pg, where sid = sid and cvt = cvt2] cv obtain c' where
      t: "drc_claim_finish w sid (others w 0 c1) x (claim_page claim) cvt2 conf = Some (cvt2, c')" "ctx_ok H K c'" "keeps K c1 c'" by blast
    then have "drc_claim_page_owner w sid c claim cvt = Some (cvt2, c')"
      unfolding u using True s(1,2,3) by (simp add: Let_def)
    then show ?thesis using t(2) keeps_trans[OF s(6) t(3)] by blast
  qed
qed


section \<open>Request\<close>

lemma keep_wait_try:
  assumes "drc_keep_requester_wait pool r b True = Some (ret, pool', b', r', cv, rt)"
  shows "r' = r"
  using assms by (auto simp: drc_keep_requester_wait_def Let_def split: if_splits elim!: bind_eq_SomeE)

lemma inst_neq_255: "i < CT_MAX_INSTANCES \<Longrightarrow> i \<noteq> CT_INVALID_ID8"
  by auto

text \<open>What a request needs of its caller.\<close>

definition request_ok :: "('c drc_page_ctx_scheme) drc_world \<Rightarrow> drc_req_info_t \<Rightarrow> bool \<Rightarrow> bool" where
  "request_ok w r is_try \<longleftrightarrow> (req_mode r = DRC_LOCK_SHARE \<or> req_mode r = DRC_LOCK_EXCLUSIVE \<and> \<not> is_try) \<and>
     self_inst (env w 5) < CT_MAX_INSTANCES \<and> (inst_id r = self_inst (env w 5) \<or> DAAC_REPLAY_NODE (env w 5))"

lemma page_inv_set_result:
  "page_inv (set_cvt_req ((req_info (converting b))\<lparr>req_owner_result := t\<rparr>) b) rs \<longleftrightarrow> page_inv b rs"
  by (simp add: page_inv_def req_ok_def)

lemma invalidate_copies_ok:
  assumes w: "stable w" and c: "ctx_ok H K c1" and x: "linked c1 x" "cvt_inst (buf c1 x) \<noteq> CT_INVALID_ID8"
    "page_id (buf c1 x) = p"
    and r: "\<not> is_try" "self_inst (env w 5) < CT_MAX_INSTANCES"
      "self_inst (env w 5) \<in> insts rc \<Longrightarrow> DAAC_REPLAY_NODE (env w 5)"
  shows "\<exists>ret c'. drc_request_invalidate w c1 p r is_try rc x = Some (ret, c') \<and> ctx_ok H K c' \<and> keeps K c1 c'"
proof -
  note o = stableD[OF w c, of 2]
  have "linked (others w 2 c1) x" "cvt_inst (buf (others w 2 c1) x) \<noteq> CT_INVALID_ID8"
    "page_id (buf (others w 2 c1) x) = p"
    using relyD(1)[OF o(3) x(1,2)] x(3) by blast+
  from copies_invalidated_ok[OF o(1) this(1,3,2)] obtain c' where
    "drc_copies_invalidated (others w 2 c1) x p = Some c'" "ctx_ok H K c'" "keeps K (others w 2 c1) c'" by blast
  then show ?thesis using o(1,2) keeps_trans r by (auto simp: drc_request_invalidate_def panic_simps Let_def)
qed

lemma free_slot_ok:
  assumes "ctx_ok (H \<union> set_option slot) K c" "set_option slot \<inter> H = {}"
  shows "\<exists>c'. buf_free_slot c slot = Some c' \<and> ctx_ok H K c' \<and> keeps K c c'"
  using assms buf_free_slot_spec ctx_okI by (metis ctx_ok_def)

text \<open>The answer of a request on a page that has an owner.\<close>

lemma request_answer_spec:
  assumes "inst_id r < CT_MAX_INSTANCES" "claimed_owner b < CT_MAX_INSTANCES"
  shows "\<exists>res b'. drc_request_answer r result b cv rt = Some (res, b') \<and> curr_owner_id res = claimed_owner b \<and>
    same_ident b b' \<and> convert_q b' = convert_q b \<and> (\<forall>rs. page_inv b' rs \<longleftrightarrow> page_inv b rs) \<and> cvt_inst b' = cvt_inst b \<and>
    (if cv then insts (res_readonly_copies res) = insts (readonly_copies b) - {inst_id r, claimed_owner b} \<and>
       res_type res = (if claimed_owner b = inst_id r then DRC_REQ_OWNER_ALREADY_OWNER else DRC_REQ_OWNER_CONVERTING)
     else res_type res = DRC_REQ_OWNER_WAITING)"
  using assms by (auto simp: drc_request_answer_def panic_simps page_inv_set_result same_ident_def)

lemma put_wait:
  assumes inv: "pctx H K c fl L lfl qs" and x: "x \<in> L" and id: "same_ident (buf c x) b"
    and q: "qrep pool lfl' (convert_q b) ids" and st: "qstep (lock_item_pool c) lfl (qs x) pool lfl' ids"
    and p: "page_inv b (reqs pool ids)"
  shows "\<exists>c1. buf_put (c\<lparr>lock_item_pool := pool\<rparr>) x b = Some c1 \<and> buf c1 x = b \<and> linked c1 x \<and>
      ctx_ok H K c1 \<and> keeps K c c1"
proof -
  have st': "qstep (lock_item_pool c) lfl (qs x) pool lfl' ([] @ ids)" using st by simp
  obtain c1 where c1: "buf_put (c\<lparr>lock_item_pool := pool\<rparr>) x b = Some c1"
    "\<forall>y. buf c1 y = (if y = x then b else buf c y)" "pctx H K c1 fl L lfl' (qs(x := ids))" "keeps K c c1"
    using pctx_update[OF inv x id q st' _ p] by auto
  have "linked c1 x" using pctx_linked_iff[OF c1(3)] x by blast
  then show ?thesis using c1(1,2,4) ctx_okI[OF c1(3)] by simp
qed

lemma owned_ok:
  assumes w: "stable w" and inv: "pctx (H \<union> set_option slot) K c fl L lfl qs" and sl: "set_option slot \<inter> H = {}"
    and x: "x \<in> L" "page_id (buf c x) = p" and b: "same_ident (buf c x) b" "convert_q b = convert_q (buf c x)"
      "page_inv b (reqs (lock_item_pool c) (qs x))" "claimed_owner b < CT_MAX_INSTANCES" "pending b \<noteq> DRC_RES_PENDING_ACTION"
    and r: "request_ok w r is_try" "inst_id r < CT_MAX_INSTANCES"
  shows "\<exists>ret result' r' c'. drc_request_owned w c p r is_try result x b slot = Some (ret, result', r', c') \<and>
           ctx_ok H K c' \<and> keeps K c c'"
proof -
  have rok: "req_ok r" using r by (auto simp: req_ok_def request_ok_def)
  have q: "qrep (lock_item_pool c) lfl (convert_q b) (qs x)" using pctx_linked(5)[OF inv x(1)] b(2) by simp
  obtain ret pool b1 r1 cv rt lfl1 ids q1 it where
    k: "drc_keep_requester_wait (lock_item_pool c) r b is_try = Some (ret, pool, b1, r1, cv, rt)"
    "b1 = b\<lparr>convert_q := q1, converting := it\<rparr>" "page_inv b1 (reqs pool ids)" "qrep pool lfl1 q1 ids"
    "qstep (lock_item_pool c) lfl (qs x) pool lfl1 ids" "inst_id r1 = inst_id r" "req_ok r1"
    "cv \<Longrightarrow> ret = CT_SUCCESS \<and> req_info it = r1" "is_try \<Longrightarrow> cv \<Longrightarrow> claimed_owner b = inst_id r"
    using keep_wait_spec[OF q b(3,4,5) rok, of is_try] unfolding wait_post_def by blast
  have b1: "same_ident (buf c x) b1" "convert_q b1 = q1" "claimed_owner b1 = claimed_owner b"
    using b(1) by (simp_all add: same_ident_def k(2))
  have put: "\<exists>c1. buf_put (c\<lparr>lock_item_pool := pool\<rparr>) x b2 = Some c1 \<and> buf c1 x = b2 \<and> linked c1 x \<and>
      ctx_ok (H \<union> set_option slot) K c1 \<and> keeps K c c1"
    if h: "same_ident b1 b2" "convert_q b2 = q1" "page_inv b2 (reqs pool ids)" for b2
    using put_wait[OF inv x(1) same_ident_trans[OF b1(1) h(1)] _ k(5) h(3)] h(2) k(4) by blast
  have fin: "\<exists>ret result' r' c'. do { ctx \<leftarrow> buf_free_slot c1 slot; Some (a, res, r1, ctx) } = Some (ret, result', r', c') \<and>
      ctx_ok H K c' \<and> keeps K c c'" if "ctx_ok (H \<union> set_option slot) K c1" "keeps K c c1" for c1 a res
    using free_slot_ok[OF that(1) sl] keeps_trans[OF that(2)] by auto
  obtain res b2 where a: "drc_request_answer r1 result b1 cv rt = Some (res, b2)" "same_ident b1 b2" "convert_q b2 = q1"
      "page_inv b2 (reqs pool ids)" "cvt_inst b2 = cvt_inst b1"
      "if cv then insts (res_readonly_copies res) = insts (readonly_copies b1) - {inst_id r1, claimed_owner b1} \<and>
       res_type res = (if claimed_owner b1 = inst_id r1 then DRC_REQ_OWNER_ALREADY_OWNER else DRC_REQ_OWNER_CONVERTING)
       else res_type res = DRC_REQ_OWNER_WAITING"
    using request_answer_spec[of r1 b1 result cv rt] k(3,6) b1(2,3) b(4) r(2) by auto
  have try_ok: "\<not> is_try \<or> res_type res \<noteq> DRC_REQ_OWNER_CONVERTING" using k(6,9) a(6) b1(3) by (auto split: if_splits)
  obtain c1 where c1: "buf_put (c\<lparr>lock_item_pool := pool\<rparr>) x b2 = Some c1" "buf c1 x = b2" "linked c1 x"
    "ctx_ok (H \<union> set_option slot) K c1" "keeps K c c1" using put[OF a(2,3,4)] by blast
  obtain d1 where d1: "buf_put (c\<lparr>lock_item_pool := pool\<rparr>) x b1 = Some d1"
    "ctx_ok (H \<union> set_option slot) K d1" "keeps K c d1" using put[OF same_ident_refl b1(2) k(3)] by blast
  have pg: "page_id (buf c1 x) = p" using b1(1) a(2) x(2) by (simp add: c1(2) same_ident_def)
  have inval: "\<exists>ret2 c2. drc_request_invalidate w c1 p r1 is_try (res_readonly_copies res) x = Some (ret2, c2) \<and>
      ctx_ok (H \<union> set_option slot) K c2 \<and> keeps K c1 c2" if cv and "req_mode r1 = DRC_LOCK_EXCLUSIVE"
  proof (rule invalidate_copies_ok[OF w c1(4,3) _ pg])
    show "cvt_inst (buf c1 x) \<noteq> CT_INVALID_ID8"
      using k(2,6,8) \<open>cv\<close> inst_neq_255[OF r(2)] by (simp add: c1(2) a(5))
    show "\<not> is_try" using that(2) k(1) keep_wait_try r(1) by (fastforce simp: request_ok_def)
    show "self_inst (env w 5) < CT_MAX_INSTANCES" using r(1) by (simp add: request_ok_def)
    show "DAAC_REPLAY_NODE (env w 5)" if s: "self_inst (env w 5) \<in> insts (res_readonly_copies res)"
    proof -
      have "self_inst (env w 5) \<in> insts (readonly_copies b1) - {inst_id r1, claimed_owner b1}"
        using s a(6) \<open>cv\<close> by simp
      then have "self_inst (env w 5) \<noteq> inst_id r" using k(6) by simp
      then show ?thesis using r(1) by (simp add: request_ok_def)
    qed
  qed
  have eq: "drc_request_owned w c p r is_try result x b slot =
     (if ret \<noteq> CT_SUCCESS then do { ctx \<leftarrow> buf_free_slot d1 slot; Some (CT_ERROR, result, r1, ctx) }
      else if cv \<and> res_readonly_copies res \<noteq> 0 \<and> req_mode r1 = DRC_LOCK_EXCLUSIVE then
        do { (ret, ctx) \<leftarrow> drc_request_invalidate w c1 p r1 is_try (res_readonly_copies res) x;
             ctx \<leftarrow> buf_free_slot ctx slot; Some (ret, res, r1, ctx) }
      else do { ctx \<leftarrow> buf_free_slot c1 slot; Some (ret, res, r1, ctx) })"
    using try_ok by (simp add: drc_request_owned_def k(1) a(1) c1(1) d1(1))
  consider "ret \<noteq> CT_SUCCESS" | "ret = CT_SUCCESS" "\<not> (cv \<and> res_readonly_copies res \<noteq> 0 \<and> req_mode r1 = DRC_LOCK_EXCLUSIVE)"
    | "ret = CT_SUCCESS" "cv" "res_readonly_copies res \<noteq> 0" "req_mode r1 = DRC_LOCK_EXCLUSIVE" by blast
  then show ?thesis
  proof cases
    case 1
    then have e1: "drc_request_owned w c p r is_try result x b slot =
        do { ctx \<leftarrow> buf_free_slot d1 slot; Some (CT_ERROR, result, r1, ctx) }" using eq by simp
    show ?thesis unfolding e1 by (intro fin d1)
  next
    case 2
    then have e2: "drc_request_owned w c p r is_try result x b slot =
        do { ctx \<leftarrow> buf_free_slot c1 slot; Some (ret, res, r1, ctx) }" using eq by auto
    show ?thesis unfolding e2 by (intro fin c1)
  next
    case 3
    then obtain ret2 c2 where i: "drc_request_invalidate w c1 p r1 is_try (res_readonly_copies res) x = Some (ret2, c2)"
      "ctx_ok (H \<union> set_option slot) K c2" "keeps K c1 c2" using inval by blast
    then have e3: "drc_request_owned w c p r is_try result x b slot =
        do { ctx \<leftarrow> buf_free_slot c2 slot; Some (ret2, res, r1, ctx) }" using eq 3 by simp
    show ?thesis unfolding e3 by (intro fin i keeps_trans[OF c1(5) i(3)])
  qed
qed

lemma granted_page_inv:
  assumes "page_inv b rs" "claimed_owner b = CT_INVALID_ID8" "readonly_copies b = 0" "edp_map b = 0" "req_ok r"
  shows "page_inv (set_cvt_req ((req_info (converting b))\<lparr>req_owner_result := t\<rparr>)
           (b\<lparr>claimed_owner := inst_id r, mode := req_mode r\<rparr>)) rs"
  using assms by (auto simp: page_inv_def req_ok_def)

lemma allocated_ok:
  assumes w: "stable w" and c: "ctx_ok (H \<union> set_option slot) K c" and sl: "set_option slot \<inter> H = {}"
    and l: "buf_lookup c p = Some (Some x)"
    and r: "request_ok w r is_try" "inst_id r < CT_MAX_INSTANCES"
  shows "\<exists>ret result' r' c'. drc_request_allocated w c p r is_try result x slot = Some (ret, result', r', c') \<and>
           ctx_ok H K c' \<and> keeps K c c'"
proof -
  obtain fl L lfl qs where inv: "pctx (H \<union> set_option slot) K c fl L lfl qs" using c by (rule ctx_okE)
  have x: "x \<in> L" "page_id (buf c x) = p" using buf_lookup_spec(2)[OF inv] l by blast+
  let ?b = "buf c x"
  note lk = pctx_linked[OF inv x(1)]
  obtain f where f: "buf_free_slot c slot = Some f" "ctx_ok H K f" "keeps K c f" using free_slot_ok[OF c sl] by blast
  have owned: "\<exists>ret result' r' c'. drc_request_owned w c p r is_try result x b slot = Some (ret, result', r', c') \<and>
           ctx_ok H K c' \<and> keeps K c c'"
    if "same_ident ?b b" "convert_q b = convert_q ?b" "page_inv b (reqs (lock_item_pool c) (qs x))"
      "claimed_owner b < CT_MAX_INSTANCES" "pending b \<noteq> DRC_RES_PENDING_ACTION" for b
    using owned_ok[OF w inv sl x that r] by blast
  let ?go = "DAAC_SESSION_IN_RECOVERY (env w 4) \<or> rc_status (env w 4) \<ge> REFORM_RECOVER_DONE \<or> dtc_dcs_readable (env w 4) p"
  consider (pend) "pending ?b = DRC_RES_PENDING_ACTION" | (own) "pending ?b \<noteq> DRC_RES_PENDING_ACTION" "claimed_owner ?b \<noteq> CT_INVALID_ID8"
    | (stop) "pending ?b \<noteq> DRC_RES_PENDING_ACTION" "claimed_owner ?b = CT_INVALID_ID8" "\<not> ?go"
    | (clean) "pending ?b \<noteq> DRC_RES_PENDING_ACTION" "claimed_owner ?b = CT_INVALID_ID8" "?go" by blast
  then show ?thesis
  proof cases
    case pend
    then show ?thesis using f lk(4) by (simp add: drc_request_allocated_def)
  next
    case own
    then have "claimed_owner ?b < CT_MAX_INSTANCES" using page_invD(5)[OF lk(6)] by blast
    then show ?thesis using owned[OF same_ident_refl refl lk(6) _ own(1)] own lk(4) by (simp add: drc_request_allocated_def)
  next
    case stop
    then show ?thesis using f lk(4) by (simp add: drc_request_allocated_def)
  next
    case clean
    obtain b where b: "drc_clean_buf_res ?b = Some b" "page_inv b (reqs (lock_item_pool c) (qs x))" "same_ident ?b b"
      "convert_q b = convert_q ?b"
      "if readonly_copies ?b = 0 \<and> edp_map ?b = 0 then b = ?b
       else claimed_owner b < CT_MAX_INSTANCES \<and> pending b \<noteq> DRC_RES_PENDING_ACTION"
      using clean_buf_res_spec[OF lk(6) clean(2)] by blast
    show ?thesis
    proof (cases "readonly_copies ?b = 0 \<and> edp_map ?b = 0")
      case True
      let ?g = "set_cvt_req ((req_info (converting ?b))\<lparr>req_owner_result := DRC_REQ_OWNER_GRANTED\<rparr>)
           (?b\<lparr>claimed_owner := inst_id r, mode := req_mode r\<rparr>)"
      have "req_ok r" using r by (auto simp: req_ok_def request_ok_def)
      then have "page_inv ?g (reqs (lock_item_pool c) (qs x))" using granted_page_inv[OF lk(6) clean(2)] True by blast
      then obtain c1 where c1: "buf_put c x ?g = Some c1" "pctx (H \<union> set_option slot) K c1 fl L lfl qs" "keeps K c c1"
        using pctx_update_page[OF inv x(1), of ?g] by (auto simp: same_ident_def)
      obtain c2 where c2: "buf_free_slot c1 slot = Some c2" "ctx_ok H K c2" "keeps K c1 c2"
        using free_slot_ok[OF ctx_okI[OF c1(2)] sl] by blast
      then show ?thesis using True b(1,5) c1(1) c2 clean lk(4) keeps_trans[OF c1(3) c2(3)]
        by (auto simp: drc_request_allocated_def Let_def)
    next
      case False
      then have "claimed_owner b < CT_MAX_INSTANCES" "pending b \<noteq> DRC_RES_PENDING_ACTION" using b(5) by auto
      then show ?thesis using owned[OF b(3,4,2)] inst_neq_255[of "claimed_owner b"] clean lk(4) b(1)
        by (simp add: drc_request_allocated_def)
    qed
  qed
qed

lemma create_ok:
  assumes w: "stable w" and c: "ctx_ok (insert i H) K c" "i \<notin> H"
    and r: "request_ok w r is_try" "inst_id r < CT_MAX_INSTANCES"
  shows "\<exists>ret result' r' c'. drc_request_create w c p r is_try result part i = Some (ret, result', r', c') \<and>
           ctx_ok H K c' \<and> keeps K c c'"
  using c(1)
proof (rule lookup_cases[of "insert i H" K c p])
  fix x assume l: "buf_lookup c p = Some (Some x)"
  then show ?thesis using allocated_ok[OF w _ _ l r, of H "Some i" K] c by (simp add: drc_request_create_def)
next
  assume n: "buf_lookup c p = Some None"
  have rok: "req_ok r" using r by (auto simp: req_ok_def request_ok_def)
  obtain fl L lfl qs where inv: "pctx (insert i H) K c fl L lfl qs" using c(1) by (rule ctx_okE)
  have H: "insert i H - {i} = H" using c(2) by blast
  obtain f where f: "buf_free c i = Some f" "pctx H K f (i # fl) L lfl qs" "keeps K c f"
    using buf_free_spec[OF inv, of i] H by auto
  note cr = create_spec[OF inv insertI1 n rok, of part, unfolded H]
  note ab = create_abort_spec[OF inv insertI1 n, of r part, unfolded H]
  show ?thesis
  proof (cases "DRC_STOP_DCS_IO_FOR_REFORMING (env w 2) (req_version r) p")
    case True
    then show ?thesis using n f ctx_okI[OF f(2)] by (simp add: drc_request_create_def)
  next
    case False
    then show ?thesis
      using n cr ab ctx_okI unfolding drc_request_create_def
      by (cases "DRC_STOP_DCS_IO_FOR_REFORMING (env w 3) (req_version r) p") auto
  qed
qed

section \<open>Recycling\<close>

lemma alloc_ok:
  assumes "ctx_ok H K c"
  shows "\<exists>i c'. buf_alloc c = Some (i, c') \<and> ctx_ok (held i \<union> H) K c' \<and> held i \<inter> H = {} \<and> keeps K c c'"
proof -
  obtain fl L lfl qs where inv: "pctx H K c fl L lfl qs" using assms by (rule ctx_okE)
  show ?thesis
  proof (cases fl)
    case Nil
    then show ?thesis using buf_alloc_spec[OF inv] assms by simp
  next
    case (Cons x fl')
    then obtain c' where "buf_alloc c = Some (x, c')" "x \<noteq> CT_INVALID_ID32" "pctx (insert x H) K c' fl' L lfl qs"
      "x \<notin> H" "keeps K c c'" using buf_alloc_spec[OF inv] by auto
    then show ?thesis using ctx_okI by auto
  qed
qed

lemma set_pending_spec:
  assumes inv: "pctx H K c fl L lfl qs" and x: "x \<in> L" and a: "a \<noteq> DRC_RES_CLEAN_EDP_ACTION"
    "a = DRC_RES_PENDING_ACTION \<Longrightarrow> cvt_inst (buf c x) = CT_INVALID_ID8"
  shows "\<exists>c'. set_pending c x a = Some c' \<and> pctx H K c' fl L lfl qs \<and> keeps K c c' \<and> buf c' x = (buf c x)\<lparr>pending := a\<rparr>"
proof -
  note l = pctx_linked[OF inv x]
  have "page_inv ((buf c x)\<lparr>pending := a\<rparr>) (reqs (lock_item_pool c) (qs x))"
    using l(6) a unfolding page_inv_def by auto
  then show ?thesis
    using pctx_update_page[OF inv x, of "(buf c x)\<lparr>pending := a\<rparr>"] l(4)
    by (auto simp: set_pending_def same_ident_def)
qed

lemma recycle_finish_spec:
  assumes inv: "pctx H K c fl L lfl qs" and x: "x \<in> L" and cv: "cvt_inst (buf c x) = CT_INVALID_ID8"
    and b: "bucket = page_hash (bucket_num (buf_map c)) (page_id (buf c x))" and e: "edp_map (buf c x) = 0"
  shows "\<exists>c'. drc_recycle_finish c x bucket = Some (x, c') \<and> ctx_ok (insert x H) K c' \<and> x \<notin> H \<and> x \<noteq> CT_INVALID_ID32 \<and>
           keeps K c c'"
proof -
  note l = pctx_linked[OF inv x]
  let ?b = "(buf c x)\<lparr>readonly_copies := 0, pending := DRC_RES_INVALID_ACTION\<rparr>"
  have "page_inv ?b (reqs (lock_item_pool c) (qs x))" using l(6) cv e unfolding page_inv_def by auto
  then obtain c1 where c1: "buf_put c x ?b = Some c1" "\<forall>y. buf c1 y = (if y = x then ?b else buf c y)"
    "pctx H K c1 fl L lfl qs" "keeps K c c1"
    using pctx_update_page[OF inv x, of ?b] by (auto simp: same_ident_def)
  have "bucket = page_hash (bucket_num (buf_map c1)) (page_id (buf c1 x))"
    using b c1(2,4) by (simp add: keeps_def)
  from clean_internal_spec[OF c1(3) x this] obtain c2 where
    "drc_clean_page_owner_internal c1 x bucket = Some c2" "pctx (insert x H) K c2 fl (L - {x}) lfl qs"
    "keeps K c1 c2" "x \<notin> H" by blast
  then show ?thesis
    using l(1,3,4) c1(1) ctx_okI keeps_trans[OF c1(4)] below_neq_invalid[OF l(1)] by (auto simp: drc_recycle_finish_def)
qed

text \<open>How the items and the invariant stand after an iteration.\<close>

definition recycle_post ::
  "uint32 set \<Rightarrow> uint32 set \<Rightarrow> 'c drc_page_ctx_scheme \<Rightarrow> bool \<Rightarrow> (recycle_next \<times> 'c drc_page_ctx_scheme) option \<Rightarrow> bool" where
  "recycle_post H K c is_batch res \<longleftrightarrow>
     (\<exists>nex c'. res = Some (nex, c') \<and> keeps K c c' \<and>
        (case nex of Return i \<Rightarrow> \<not> is_batch \<and> i \<noteq> CT_INVALID_ID32 \<and> i \<notin> H \<and> ctx_ok (insert i H) K c'
         | _ \<Rightarrow> ctx_ok H K c'))"

lemma recycle_postI:
  "ctx_ok H K c' \<Longrightarrow> keeps K c c' \<Longrightarrow> recycle_post H K c is_batch (Some (Continue i, c'))"
  "ctx_ok H K c' \<Longrightarrow> keeps K c c' \<Longrightarrow> recycle_post H K c is_batch (Some (Break i, c'))"
  by (simp_all add: recycle_post_def)

lemma recycle_post_trans:
  "keeps K c c1 \<Longrightarrow> recycle_post H K c1 is_batch res \<Longrightarrow> recycle_post H K c is_batch res"
  unfolding recycle_post_def using keeps_trans by blast

lemma buf_free_ok:
  assumes "ctx_ok (insert x H) K c" "x \<notin> H"
  shows "\<exists>c'. buf_free c x = Some c' \<and> ctx_ok H K c' \<and> keeps K c c'"
proof -
  obtain fl L lfl qs where inv: "pctx (insert x H) K c fl L lfl qs" using assms(1) by (rule ctx_okE)
  then show ?thesis using buf_free_spec[OF inv, of x] assms(2) ctx_okI by (auto simp: Diff_insert_absorb)
qed

lemma buf_get_ok: "ctx_ok H K c \<Longrightarrow> x < buf_num c \<Longrightarrow> buf_get c x = Some (buf c x)"
  by (simp add: buf_get_def)

text \<open>The second half of an iteration, once the other instances have answered.\<close>

lemma recycle_again:
  assumes c: "ctx_ok H K c" and x: "linked c x" "page_id (buf c x) = p" "pending (buf c x) = DRC_RES_PENDING_ACTION"
    "cvt_inst (buf c x) = CT_INVALID_ID8" "edp_map (buf c x) = 0"
  shows "drc_res_map_lookup (buf_map c) bucket p = Some None \<or>
    drc_res_map_lookup (buf_map c) bucket p = Some (Some x) \<and>
    (\<exists>c'. set_pending c x DRC_RES_INVALID_ACTION = Some c' \<and> ctx_ok H K c' \<and> keeps K c c') \<and>
    (\<exists>c'. drc_recycle_finish c x bucket = Some (x, c') \<and> ctx_ok (insert x H) K c' \<and> x \<notin> H \<and> x \<noteq> CT_INVALID_ID32 \<and>
       keeps K c c') \<and> buf_get c x = Some (buf c x) \<and> is_used (buf c x)"
proof -
  obtain fl L lfl qs where inv: "pctx H K c fl L lfl qs" using c by (rule ctx_okE)
  have xL: "x \<in> L" using x(1) pctx_linked_iff[OF inv] by blast
  note g = pctxD(1)[OF inv]
  have uniq: "y = x" if "y \<in> L" "page_id (buf c y) = p" for y
    using buf_lookup_spec(2)[OF inv, of p y] buf_lookup_spec(2)[OF inv, of p x] that xL x(2) by simp
  show ?thesis
  proof (cases "drc_res_map_lookup (buf_map c) bucket p = Some None")
    case False
    then obtain y where y: "drc_res_map_lookup (buf_map c) bucket p = Some (Some y)"
      using pg.rep_lookup(3)[OF g, of bucket p] by (metis not_Some_eq)
    then have "y = x" "page_hash (bucket_num (buf_map c)) p = bucket"
      using pg.rep_lookup(2)[OF g, of bucket p y] uniq by blast+
    then show ?thesis
      using y set_pending_spec[OF inv xL, of DRC_RES_INVALID_ACTION] recycle_finish_spec[OF inv xL x(4) _ x(5)] x(2) ctx_okI
        pctx_linked(4,7)[OF inv xL] by auto
  qed blast
qed


lemma recycle_commit_ok:
  assumes c: "ctx_ok H K c" and x: "linked c x" "page_id (buf c x) = page_id b" "pending (buf c x) = DRC_RES_PENDING_ACTION"
    "cvt_inst (buf c x) = CT_INVALID_ID8" "edp_map (buf c x) = 0" "claimed_owner (buf c x) = claimed_owner b"
    "readonly_copies (buf c x) = readonly_copies b"
  shows "recycle_post H K c is_batch (drc_recycle_commit w is_batch n idx c x bucket b v ret)"
  using recycle_again[OF c x(1-5), of bucket]
proof (elim disjE conjE exE)
  assume "drc_res_map_lookup (buf_map c) bucket (page_id b) = Some None"
  then show ?thesis using recycle_postI(1)[OF c keeps_refl] by (simp add: drc_recycle_commit_def)
next
  fix p f
  assume a: "drc_res_map_lookup (buf_map c) bucket (page_id b) = Some (Some x)"
    "set_pending c x DRC_RES_INVALID_ACTION = Some p" "ctx_ok H K p" "keeps K c p"
    "drc_recycle_finish c x bucket = Some (x, f)" "ctx_ok (insert x H) K f" "x \<notin> H" "x \<noteq> CT_INVALID_ID32"
    "keeps K c f" "buf_get c x = Some (buf c x)" "is_used (buf c x)"
  obtain d where d: "buf_free f x = Some d" "ctx_ok H K d" "keeps K f d" using buf_free_ok[OF a(6,7)] by blast
  have g: "buf_res_is_recyclable (buf c x)" using x by (simp add: buf_res_is_recyclable_def)
  show ?thesis
    unfolding drc_recycle_commit_def using a g x(2,3,6,7) d(1,2) keeps_trans[OF a(9) d(3)]
    by (auto simp: is_same_page_def recycle_post_def)
qed

lemma recycle_locked_ok:
  assumes w: "stable w" and c: "ctx_ok H K c" and xn: "x < buf_num c"
  shows "recycle_post H K c is_batch (drc_recycle_locked w is_batch n idx c x bucket)"
proof -
  let ?b = "buf c x" and ?v = "trigger_version (env w (3 * n + 1))"
  note get = buf_get_ok[OF c xn]
  obtain fl L lfl qs where inv: "pctx H K c fl L lfl qs" using c by (rule ctx_okE)
  show ?thesis
  proof (cases "(pending ?b \<noteq> DRC_RES_INVALID_ACTION \<or> \<not> is_used ?b) \<or> \<not> buf_res_is_recyclable ?b \<or>
      DRC_STOP_DCS_IO_FOR_REFORMING (env w (3 * n + 2)) ?v (page_id ?b)")
    case True
    then show ?thesis using recycle_postI[OF c keeps_refl] by (auto simp: drc_recycle_locked_def get)
  next
    case False
    then have f: "pending ?b = DRC_RES_INVALID_ACTION" "is_used ?b" "cvt_inst ?b = CT_INVALID_ID8" "edp_map ?b = 0"
      by (auto simp: buf_res_is_recyclable_def)
    have xL: "x \<in> L" using pctxD(7)[OF inv xn f(2)] .
    obtain c1 where c1: "set_pending c x DRC_RES_PENDING_ACTION = Some c1" "pctx H K c1 fl L lfl qs" "keeps K c c1"
      "buf c1 x = ?b\<lparr>pending := DRC_RES_PENDING_ACTION\<rparr>" using set_pending_spec[OF inv xL] f(3) by auto
    have l1: "linked c1 x" using pctx_linked_iff[OF c1(2)] xL by blast
    have p1: "pending (buf c1 x) = DRC_RES_PENDING_ACTION" by (simp add: c1(4))
    define c2 where "c2 = others w (2 * n + 1) c1"
    note o = stableD[OF w ctx_okI[OF c1(2)], of "2 * n + 1", folded c2_def]
    note rr = relyD(2)[OF o(3) l1 p1]
    have r0: "linked c2 x" using rr by blast
    have r: "page_id (buf c2 x) = page_id ?b" "pending (buf c2 x) = DRC_RES_PENDING_ACTION"
      "cvt_inst (buf c2 x) = CT_INVALID_ID8" "edp_map (buf c2 x) = 0" "claimed_owner (buf c2 x) = claimed_owner ?b"
      "readonly_copies (buf c2 x) = readonly_copies ?b"
      using rr f(3,4) by (simp_all add: c1(4))
    define ret where "ret = (if inval_readonly w (page_id ?b) (readonly_copies ?b) (claimed_owner ?b) ?v = CT_SUCCESS
      then inval_owner w (page_id ?b) (claimed_owner ?b) ?v
      else inval_readonly w (page_id ?b) (readonly_copies ?b) (claimed_owner ?b) ?v)"
    have "drc_recycle_locked w is_batch n idx c x bucket = drc_recycle_commit w is_batch n idx c2 x bucket ?b ?v ret"
      using False c1(1) by (simp add: drc_recycle_locked_def get c2_def ret_def Let_def)
    then show ?thesis
      using recycle_post_trans[OF keeps_trans[OF c1(3) o(2)] recycle_commit_ok[OF o(1) r0 r]] by simp
  qed
qed

abbreviation at_pos :: "uint32 \<Rightarrow> 'c drc_page_ctx_scheme \<Rightarrow> 'c drc_page_ctx_scheme" where
  "at_pos x c \<equiv> c\<lparr>global_buf_res := (global_buf_res c)
     \<lparr>res_map := (buf_map c)\<lparr>res_pool := (res_pool (buf_map c))\<lparr>recycle_pos := x\<rparr>\<rparr>\<rparr>\<rparr>"

lemma set_recycle_pos_ok:
  assumes "ctx_ok H K c"
  shows "ctx_ok H K (at_pos x c)" "keeps K c (at_pos x c)"
proof -
  obtain fl L lfl qs where inv: "pctx H K c fl L lfl qs" using assms(1) by (rule ctx_okE)
  note g = pctxD(1)[OF inv]
  have "gres_rep page_id (page_hash (bucket_num (buf_map c))) (global_buf_res (at_pos x c)) fl L"
    using pg.rep_pool[OF g, of "(res_pool (buf_map c))\<lparr>recycle_pos := x\<rparr>" fl] gres_repD(1)[OF g] gres_repD(3)[OF g]
    by simp
  then have "pctx H K (at_pos x c) fl L lfl qs \<and> keeps K c (at_pos x c)"
    using pctxD(7)[OF inv] pctxD(8)[OF inv] pctxD(9)[OF inv]
    by (intro pctx_frame[OF inv, where fl' = fl]) auto
  then show "ctx_ok H K (at_pos x c)" "keeps K c (at_pos x c)" using ctx_okI by blast+
qed


lemma recycle_iter_ok:
  assumes w: "stable w" and c: "ctx_ok H K c" and ne: "buf_num c \<noteq> 0"
  shows "recycle_post H K c is_batch (drc_recycle_iter w is_batch now n idx c)"
proof -
  define x where "x = (recycle_pos (res_pool (buf_map c)) + 1) mod buf_num c"
  define c1 where "c1 = at_pos x c"
  note c1 = set_recycle_pos_ok[OF c, of x, folded c1_def]
  have num: "buf_num c1 = buf_num c" using c1(2) by (simp add: keeps_def)
  have xn: "x < buf_num c1" unfolding num x_def using ne by (simp add: word_mod_less_divisor word_neq_0_conv)
  have bk: "\<exists>b. buf_bucket c2 p = Some b" if "ctx_ok H' K' c2" for H' K' c2 p
    using that buf_bucket_eq pctxD(2) by (metis ctx_ok_def)
  have rest: "recycle_post H K c is_batch
      (if \<not> BUF_RES_IS_OLD (buf c1 x) now then Some (Continue i, c2)
       else if \<not> buf_res_is_recyclable (buf c1 x) then Some (Continue i, c2)
       else do { bucket \<leftarrow> buf_bucket c2 (page_id (buf c1 x));
                 drc_recycle_locked w is_batch n i (others w (2 * n) c2) x bucket })"
    if c2: "ctx_ok H K c2" "keeps K c c2" for c2 i
  proof -
    obtain b where b: "buf_bucket c2 (page_id (buf c1 x)) = Some b" using bk[OF c2(1)] by blast
    note o = stableD[OF w c2(1), of "2 * n"]
    have "x < buf_num (others w (2 * n) c2)" using xn num c2(2) o(2) by (simp add: keeps_def)
    then show ?thesis
      using recycle_post_trans[OF keeps_trans[OF c2(2) o(2)] recycle_locked_ok[OF w o(1)]] b recycle_postI(1)[OF c2]
      by simp
  qed
  obtain i c2 where a: "buf_alloc c1 = Some (i, c2)" "ctx_ok (held i \<union> H) K c2" "held i \<inter> H = {}" "keeps K c1 c2"
    using alloc_ok[OF c1(1)] by blast
  note k2 = keeps_trans[OF c1(2) a(4)]
  define t where "t = (\<not> is_batch \<and> free_list (res_pool (buf_map c)) \<noteq> CT_INVALID_ID32)"
  have tb: "t \<Longrightarrow> \<not> is_batch" by (simp add: t_def)
  have eq: "drc_recycle_iter w is_batch now n idx c =
    (if t \<and> i \<noteq> CT_INVALID_ID32 then Some (Return i, c2)
     else let c3 = (if t then c2 else c1); i = (if t then i else idx) in
       (if \<not> BUF_RES_IS_OLD (buf c1 x) now then Some (Continue i, c3)
       else if \<not> buf_res_is_recyclable (buf c1 x) then Some (Continue i, c3)
       else do { bucket \<leftarrow> buf_bucket c3 (page_id (buf c1 x));
                 drc_recycle_locked w is_batch n i (others w (2 * n) c3) x bucket }))"
    using ne a(1) buf_get_ok[OF c1(1) xn] unfolding drc_recycle_iter_def by (simp add: x_def c1_def t_def Let_def)
  show ?thesis
  proof (cases t)
    case False
    then show ?thesis unfolding eq using rest[OF c1] by (simp add: Let_def)
  next
    case True
    then show ?thesis unfolding eq using rest[of c2] a(2,3) k2 tb
      by (cases "i = CT_INVALID_ID32") (simp_all add: Let_def recycle_post_def)
  qed
qed

lemma recycle_loop_ok:
  assumes w: "stable w" and c: "ctx_ok H K c" and ne: "buf_num c \<noteq> 0 \<or> k = 0"
  shows "recycle_post H K c is_batch (drc_recycle_loop k w is_batch now n idx c)"
  using c ne
proof (induction k arbitrary: n idx c)
  case 0
  then show ?case using recycle_postI(2)[OF _ keeps_refl] by simp
next
  case (Suc k)
  then have "recycle_post H K c is_batch (drc_recycle_iter w is_batch now n idx c)" using recycle_iter_ok[OF w] by blast
  then obtain nex c1 where r: "drc_recycle_iter w is_batch now n idx c = Some (nex, c1)" "keeps K c c1"
    "case nex of Return i \<Rightarrow> \<not> is_batch \<and> i \<noteq> CT_INVALID_ID32 \<and> i \<notin> H \<and> ctx_ok (insert i H) K c1 | _ \<Rightarrow> ctx_ok H K c1"
    unfolding recycle_post_def by blast
  show ?case
  proof (cases nex)
    case (Continue i)
    have "buf_num c1 = buf_num c" using r(2) by (simp add: keeps_def)
    then show ?thesis using Suc.IH[of c1 "Suc n" i] Suc.prems(2) r recycle_post_trans[OF r(2)] Continue by simp
  next
    case (Break i)
    then show ?thesis using r recycle_postI(2) by simp
  next
    case (Return i)
    then show ?thesis using r by (simp add: recycle_post_def)
  qed
qed

lemma loop_not_continue:
  "drc_recycle_loop k w is_batch now n idx c = Some (nex, c') \<Longrightarrow> nex \<noteq> Continue i"
  by (induction k arbitrary: n idx c) (auto elim!: bind_eq_SomeE split: recycle_next.splits)

lemma recycle_items_ok:
  assumes w: "stable w" and c: "ctx_ok H K c" and ne: "is_batch \<Longrightarrow> buf_num c \<noteq> 0"
  shows "\<exists>i c'. drc_recycle_items w c is_batch = Some (i, c') \<and> keeps K c c' \<and>
    (if is_batch then ctx_ok H K c' else ctx_ok (held i \<union> H) K c' \<and> held i \<inter> H = {})"
proof -
  define k where "k = (if is_batch then 1024 else unat (buf_num c))"
  have "buf_num c \<noteq> 0 \<or> k = 0" using ne by (simp add: k_def)
  from recycle_loop_ok[OF w c this, of is_batch "knl_now (env w 0)" 0 CT_INVALID_ID32]
  obtain nex c1 where r: "drc_recycle_loop k w is_batch (knl_now (env w 0)) 0 CT_INVALID_ID32 c = Some (nex, c1)" "keeps K c c1"
    "case nex of Return i \<Rightarrow> \<not> is_batch \<and> i \<noteq> CT_INVALID_ID32 \<and> i \<notin> H \<and> ctx_ok (insert i H) K c1 | _ \<Rightarrow> ctx_ok H K c1"
    unfolding recycle_post_def by blast
  have nc: "nex \<noteq> Continue i" for i using loop_not_continue[of k w is_batch "knl_now (env w 0)"] r(1) by metis
  have eq: "drc_recycle_items w c is_batch = (case nex of Return i \<Rightarrow> Some (i, c1)
      | Break i \<Rightarrow> (if \<not> is_batch then buf_alloc c1 else Some (i, c1)) | Continue i \<Rightarrow> None)"
    using r(1) by (simp add: drc_recycle_items_def k_def)
  show ?thesis
  proof (cases nex)
    case (Continue i)
    then show ?thesis using nc by blast
  next
    case (Break i)
    then have k: "ctx_ok H K c1" using r(3) by simp
    obtain j c2 where "buf_alloc c1 = Some (j, c2)" "ctx_ok (held j \<union> H) K c2" "held j \<inter> H = {}" "keeps K c1 c2"
      using alloc_ok[OF k] by blast
    then show ?thesis
      using eq Break k r(2) keeps_trans[OF r(2), of c2]
      by (intro exI[of _ "if is_batch then i else j"] exI[of _ "if is_batch then c1 else c2"])
        (cases "j = CT_INVALID_ID32"; simp)
  next
    case (Return i)
    then show ?thesis using eq r(2,3) by auto
  qed
qed


lemma recycle_page_ok:
  assumes w: "stable w" and inv: "pctx H K c fl L lfl qs" and x: "x \<in> L" "page_id (buf c x) = p"
    "cvt_inst (buf c x) = CT_INVALID_ID8" "edp_map (buf c x) = 0" "claimed_owner (buf c x) < CT_MAX_INSTANCES"
    and bk: "bucket = page_hash (bucket_num (buf_map c)) p"
  shows "\<exists>c'. drc_recycle_page w c inst p v bucket x = Some c' \<and> ctx_ok H K c' \<and> keeps K c c'"
proof -
  let ?b = "buf c x"
  note get = pctx_linked(3,4)[OF inv x(1)]
  obtain c1 where c1: "set_pending c x DRC_RES_PENDING_ACTION = Some c1" "pctx H K c1 fl L lfl qs" "keeps K c c1"
    "buf c1 x = ?b\<lparr>pending := DRC_RES_PENDING_ACTION\<rparr>" using set_pending_spec[OF inv x(1)] x(3) by auto
  have cp: "buf_res_has_readonly_copies ?b (claimed_owner ?b) = Some (bm_clear (readonly_copies ?b) (claimed_owner ?b) \<noteq> 0)"
    using x(5) by (simp add: buf_res_has_readonly_copies_def panic_simps)
  show ?thesis
  proof (cases "bm_clear (readonly_copies ?b) (claimed_owner ?b) = 0")
    case True
    obtain c2 where c2: "set_pending c1 x DRC_RES_INVALID_ACTION = Some c2" "pctx H K c2 fl L lfl qs" "keeps K c1 c2"
      "buf c2 x = ?b\<lparr>pending := DRC_RES_INVALID_ACTION\<rparr>"
      using set_pending_spec[OF c1(2) x(1), of DRC_RES_INVALID_ACTION] c1(4) by auto
    have "bucket = page_hash (bucket_num (buf_map c2)) (page_id (buf c2 x))"
      using bk x(2) c1(3) c2(3,4) by (simp add: keeps_def)
    from clean_internal_spec[OF c2(2) x(1) this] obtain c3 where
      c3: "drc_clean_page_owner_internal c2 x bucket = Some c3" "pctx (insert x H) K c3 fl (L - {x}) lfl qs" "keeps K c2 c3"
        "x \<notin> H" by blast
    obtain c4 where c4: "buf_free c3 x = Some c4" "ctx_ok H K c4" "keeps K c3 c4"
      using buf_free_ok[OF ctx_okI[OF c3(2)] c3(4)] by blast
    then show ?thesis
      using True c1(1) c2(1) c3(1) cp get keeps_trans[OF keeps_trans[OF keeps_trans[OF c1(3) c2(3)] c3(3)] c4(3)]
      by (simp add: drc_recycle_page_def)
  next
    case False
    have l1: "linked c1 x" using pctx_linked_iff[OF c1(2)] x(1) by blast
    have p1: "pending (buf c1 x) = DRC_RES_PENDING_ACTION" by (simp add: c1(4))
    define c2 where "c2 = others w 0 c1"
    note o = stableD[OF w ctx_okI[OF c1(2)], of 0, folded c2_def]
    note rr = relyD(2)[OF o(3) l1 p1]
    have r0: "linked c2 x" using rr by blast
    have r: "page_id (buf c2 x) = p" "pending (buf c2 x) = DRC_RES_PENDING_ACTION"
      "cvt_inst (buf c2 x) = CT_INVALID_ID8" "edp_map (buf c2 x) = 0"
      using rr x(2,3,4) by (simp_all add: c1(4))
    have k: "keeps K c c2" using keeps_trans[OF c1(3) o(2)] .
    show ?thesis
      using recycle_again[OF o(1) r0 r, of bucket]
    proof (elim disjE conjE exE)
      assume "drc_res_map_lookup (buf_map c2) bucket p = Some None"
      then show ?thesis using False c1(1) cp get o(1) k by (simp add: drc_recycle_page_def c2_def Let_def)
    next
      fix q f
      assume a: "drc_res_map_lookup (buf_map c2) bucket p = Some (Some x)"
        "set_pending c2 x DRC_RES_INVALID_ACTION = Some q" "ctx_ok H K q" "keeps K c2 q"
        "drc_recycle_finish c2 x bucket = Some (x, f)" "ctx_ok (insert x H) K f" "x \<notin> H" "keeps K c2 f"
      obtain d where d: "buf_free f x = Some d" "ctx_ok H K d" "keeps K f d" using buf_free_ok[OF a(6,7)] by blast
      show ?thesis
        using False c1(1) cp get a(1,2,3,5) d(1,2) keeps_trans[OF k a(4)] keeps_trans[OF keeps_trans[OF k a(8)] d(3)]
        by (auto simp: drc_recycle_page_def c2_def Let_def)
    qed
  qed
qed

lemma buf_res_recycle_ok:
  assumes w: "stable w" and c: "ctx_ok H K c" and e: "extent_page_num (env w 0) \<noteq> 0"
  shows "\<exists>c'. drc_buf_res_recycle w c inst tm p v = Some c' \<and> ctx_ok H K c' \<and> keeps K c c'"
proof -
  obtain fl L lfl qs where inv: "pctx H K c fl L lfl qs" using c by (rule ctx_okE)
  define bucket where "bucket = page_hash (bucket_num (buf_map c)) p"
  have bk: "buf_bucket c p = Some bucket" using buf_bucket_eq[OF pctxD(2)[OF inv]] by (simp add: bucket_def)
  have part: "\<exists>i. drc_page_partid (env w 0) p = Some i" using e by (simp add: drc_page_partid_def)
  have lk: "drc_res_map_lookup (buf_map c) bucket p = buf_lookup c p"
    using bk by (simp add: buf_lookup_def buf_bucket_def)
  show ?thesis
    using c
  proof (rule lookup_cases[of H K c p])
    assume "buf_lookup c p = Some None"
    then show ?thesis using c bk part lk by (auto simp: drc_buf_res_recycle_def)
  next
    fix x assume l: "buf_lookup c p = Some (Some x)"
    then have x: "x \<in> L" "page_id (buf c x) = p" using buf_lookup_spec(2)[OF inv] by blast+
    let ?b = "buf c x"
    note get = pctx_linked(4,6)[OF inv x(1)]
    let ?go = "inst < 64 \<and> buf_res_is_recyclable ?b \<and> ucast (claimed_owner ?b) = inst"
    have "\<exists>c'. drc_recycle_page w c inst p v bucket x = Some c' \<and> ctx_ok H K c' \<and> keeps K c c'" if ?go
    proof -
      have "claimed_owner ?b \<noteq> CT_INVALID_ID8" using that by auto
      then have "claimed_owner ?b < CT_MAX_INSTANCES" using page_invD(5)[OF get(2)] by blast
      then show ?thesis using that recycle_page_ok[OF w inv x] bucket_def by (auto simp: buf_res_is_recyclable_def)
    qed
    then show ?thesis using c bk part lk l get(1) by (auto simp: drc_buf_res_recycle_def)
  qed
qed

section \<open>The request handler\<close>

lemma request_ok_lemma:
  assumes w: "stable w" "stable rw" and c: "ctx_ok H K c" and e: "extent_page_num (env w 0) \<noteq> 0"
    and r: "request_ok w r is_try"
  shows "\<exists>ret result' r' c'. drc_request_page_owner w rw c p r is_try result = Some (ret, result', r', c') \<and>
           ctx_ok H K c' \<and> keeps K c c'"
proof -
  let ?r = "r\<lparr>req_owner_result := DRC_REQ_OWNER_WAITING\<rparr>"
  have rk: "request_ok w ?r is_try" using r by (simp add: request_ok_def)
  obtain part where part: "drc_page_partid (env w 0) p = Some part" using e by (simp add: drc_page_partid_def)
  have alloc: "\<exists>ret result' r' c'.
      do { (idx, ctx) \<leftarrow> buf_alloc (others w 0 c);
           (idx, ctx) \<leftarrow> (if idx = CT_INVALID_ID32 then drc_recycle_items rw ctx False else Some (idx, ctx));
           if idx = CT_INVALID_ID32 then Some (CT_ERROR, res, ?r, ctx)
           else drc_request_create w (others w 1 ctx) p ?r is_try res part idx } = Some (ret, result', r', c') \<and>
      ctx_ok H K c' \<and> keeps K c c'" if i: "inst_id r < CT_MAX_INSTANCES" for res
  proof -
    note o = stableD[OF w(1) c, of 0]
    obtain i c1 where a: "buf_alloc (others w 0 c) = Some (i, c1)" "ctx_ok (held i \<union> H) K c1" "held i \<inter> H = {}"
      "keeps K (others w 0 c) c1" using alloc_ok[OF o(1)] by blast
    note k1 = keeps_trans[OF o(2) a(4)]
    obtain j c2 where b: "(if i = CT_INVALID_ID32 then drc_recycle_items rw c1 False else Some (i, c1)) = Some (j, c2)"
      "keeps K c c2" "ctx_ok (held j \<union> H) K c2" "held j \<inter> H = {}"
    proof (cases "i = CT_INVALID_ID32")
      case True
      then have "ctx_ok H K c1" using a(2) by simp
      from recycle_items_ok[OF w(2) this, of False] obtain j c2 where
        "drc_recycle_items rw c1 False = Some (j, c2)" "keeps K c1 c2" "ctx_ok (held j \<union> H) K c2" "held j \<inter> H = {}" by auto
      then show ?thesis using that True keeps_trans[OF k1] by simp
    qed (use a k1 that in simp)
    show ?thesis
    proof (cases "j = CT_INVALID_ID32")
      case True
      then show ?thesis using a(1) b by simp
    next
      case False
      note o1 = stableD[OF w(1) b(3), of 1]
      have "ctx_ok (insert j H) K (others w 1 c2)" "j \<notin> H" using o1(1) b(4) False by simp_all
      from create_ok[OF w(1) this rk, of p res part] i show ?thesis
        using a(1) b(1) False keeps_trans[OF keeps_trans[OF b(2) o1(2)]] by simp blast
    qed
  qed
  have known: "\<exists>ret result' r' c'. drc_request_allocated w c p ?r is_try res x None = Some (ret, result', r', c') \<and>
      ctx_ok H K c' \<and> keeps K c c'" if "inst_id r < CT_MAX_INSTANCES" "buf_lookup c p = Some (Some x)" for x res
    using allocated_ok[OF w(1), of H None K c p x ?r] that c rk by simp
  show ?thesis
    using c
  proof (rule lookup_cases[of H K c p])
    assume "buf_lookup c p = Some None"
    then show ?thesis using alloc c part unfolding drc_request_page_owner_def Let_def by (auto simp: not_le)
  next
    fix x assume "buf_lookup c p = Some (Some x)"
    then show ?thesis using known c part unfolding drc_request_page_owner_def Let_def by (auto simp: not_le)
  qed
qed

section \<open>The remaining handlers\<close>

lemma release_ok:
  assumes c: "ctx_ok H K c" and l: "buf_lookup c p \<noteq> Some None"
  shows "\<exists>rel c'. drc_release_page_owner c old p = Some (CT_SUCCESS, rel, c') \<and> ctx_ok H K c' \<and> keeps K c c'"
  using c
proof (rule lookup_cases[of H K c p])
  assume "buf_lookup c p = Some None"
  then show ?thesis using l by blast
next
  fix x assume lx: "buf_lookup c p = Some (Some x)"
  obtain fl L lfl qs where inv: "pctx H K c fl L lfl qs" using c by (rule ctx_okE)
  have x: "x \<in> L" "page_id (buf c x) = p" using buf_lookup_spec(2)[OF inv] lx by blast+
  note g = pctx_linked(3,4)[OF inv x(1)]
  obtain gr m bucket c1 c2 where r: "drc_part_unlink (global_buf_res c) x = Some gr"
    "drc_get_buf_map_bucket (res_map gr) (file_no p) (page_no p) = Some bucket"
    "drc_res_map_remove (res_map gr) bucket p = Some m"
    "buf_put (c\<lparr>global_buf_res := gr\<lparr>res_map := m\<rparr>\<rparr>) x zero_buf_res = Some c1" "buf_free c1 x = Some c2"
    "pctx H K c2 (x # fl) (L - {x}) lfl qs" "keeps K c c2"
    using release_core_spec[OF inv x(1)] x(2) by auto
  show ?thesis
    using lx g r(1-5,7) ctx_okI[OF r(6)] c
    by (cases "old \<noteq> claimed_owner (buf c x) \<or> cvt_inst (buf c x) \<noteq> CT_INVALID_ID8 \<or> edp_map (buf c x) \<noteq> 0")
      (auto simp: drc_release_page_owner_def)
qed

lemma clean_edp_ok:
  assumes c: "ctx_ok H K c"
  shows "\<exists>ret c'. drc_clean_edp_info c p l = Some (ret, c') \<and> ctx_ok H K c' \<and> keeps K c c'"
  using c
proof (rule lookup_cases[of H K c p])
  assume "buf_lookup c p = Some None"
  then show ?thesis using c by (simp add: drc_clean_edp_info_def)
next
  fix x assume lx: "buf_lookup c p = Some (Some x)"
  obtain fl L lfl qs where inv: "pctx H K c fl L lfl qs" using c by (rule ctx_okE)
  have x: "x \<in> L" using buf_lookup_spec(2)[OF inv] lx by blast
  note g = pctx_linked(4,6)[OF inv x]
  let ?b = "(buf c x)\<lparr>edp_map := 0, latest_edp := CT_INVALID_ID8, latest_edp_lsn := 0\<rparr>"
  have "page_inv ?b (reqs (lock_item_pool c) (qs x))" using g(2) unfolding page_inv_def by auto
  then obtain c' where c': "buf_put c x ?b = Some c'" "pctx H K c' fl L lfl qs" "keeps K c c'"
    using pctx_update_page[OF inv x, of ?b] by (auto simp: same_ident_def)
  show ?thesis
    using lx g(1) c'(1,3) ctx_okI[OF c'(2)] c
    by (cases "l \<ge> lsn (buf c x)") (simp_all add: drc_clean_edp_info_def)
qed

lemma get_owner_ok:
  assumes c: "ctx_ok H K c" and e: "\<not> DAAC_PARTIAL_RECOVER_SESSION e"
  shows "\<exists>ret own act c'. drc_get_page_owner_id e c p = Some (ret, own, act, c') \<and> ctx_ok H K c' \<and> keeps K c c'"
  using c
proof (rule lookup_cases[of H K c p])
  assume "buf_lookup c p = Some None"
  then show ?thesis using c by (simp add: drc_get_page_owner_id_def)
next
  fix x assume lx: "buf_lookup c p = Some (Some x)"
  obtain fl L lfl qs where inv: "pctx H K c fl L lfl qs" using c by (rule ctx_okE)
  have x: "x \<in> L" using buf_lookup_spec(2)[OF inv] lx by blast
  note g = pctx_linked(4,6)[OF inv x]
  show ?thesis
  proof (cases "claimed_owner (buf c x) = CT_INVALID_ID8 \<and> rc_status e \<ge> REFORM_RECOVER_DONE")
    case False
    then show ?thesis using lx g(1) c by (auto simp: drc_get_page_owner_id_def)
  next
    case True
    then obtain b where b: "drc_clean_buf_res (buf c x) = Some b" "page_inv b (reqs (lock_item_pool c) (qs x))"
      "same_ident (buf c x) b" "convert_q b = convert_q (buf c x)"
      using clean_buf_res_spec[OF g(2)] by blast
    then obtain c' where c': "buf_put c x b = Some c'" "pctx H K c' fl L lfl qs" "keeps K c c'"
      using pctx_update_page[OF inv x] by blast
    then show ?thesis using lx g(1) True e b(1) ctx_okI[OF c'(2)] by (auto simp: drc_get_page_owner_id_def)
  qed
qed

section \<open>Sequences of handler calls\<close>

text \<open>
  The calls a master serves. A claim is made by an instance that has been told to convert the
  page, so the copies of the other instances are gone when it is made (\<open>copies_gone\<close>).
\<close>

inductive page_step :: "'c drc_page_ctx_scheme \<Rightarrow> 'c drc_page_ctx_scheme \<Rightarrow> bool" where
  request: "stable w \<Longrightarrow> stable rw \<Longrightarrow> request_ok w r is_try \<Longrightarrow> extent_page_num (env w 0) \<noteq> 0 \<Longrightarrow>
     drc_request_page_owner w rw c p r is_try result = Some (ret, result', r', c') \<Longrightarrow> page_step c c'"
| claim: "stable w \<Longrightarrow>
     (\<And>x. buf_lookup c (claim_page claim) = Some (Some x) \<Longrightarrow> claim_ok claim (buf c x) \<Longrightarrow> copies_gone claim (buf c x)) \<Longrightarrow>
     drc_claim_page_owner w sid c claim cvt = Some (cvt', c') \<Longrightarrow> page_step c c'"
| recycle: "stable w \<Longrightarrow> extent_page_num (env w 0) \<noteq> 0 \<Longrightarrow> drc_buf_res_recycle w c inst tm p v = Some c' \<Longrightarrow> page_step c c'"
| recycle_batch: "stable w \<Longrightarrow> buf_num c \<noteq> 0 \<Longrightarrow> drc_recycle_items w c True = Some (i, c') \<Longrightarrow> page_step c c'"
| release: "drc_release_page_owner c old p = Some (ret, rel, c') \<Longrightarrow> page_step c c'"
| clean_edp: "drc_clean_edp_info c p l = Some (ret, c') \<Longrightarrow> page_step c c'"
| get_owner: "\<not> DAAC_PARTIAL_RECOVER_SESSION e \<Longrightarrow> drc_get_page_owner_id e c p = Some (ret, own, act, c') \<Longrightarrow> page_step c c'"

inductive_cases page_stepE: "page_step c c'"

lemma release_known: "drc_release_page_owner c old p = Some r \<Longrightarrow> buf_lookup c p \<noteq> Some None"
  by (auto simp: drc_release_page_owner_def)

lemma page_step_ok:
  assumes "page_step c c'" "ctx_ok H K c"
  shows "ctx_ok H K c' \<and> keeps K c c'"
  using assms
proof induction
  case (request w rw r is_try c p result ret result' r' c')
  then show ?case using request_ok_lemma[of w rw H K c r is_try p result] by simp
next
  case (claim w c claim sid cvt cvt' c')
  then show ?case using claim_ok_lemma[of w H K c claim sid cvt] by simp
next
  case (recycle w c inst tm p v c')
  then show ?case using buf_res_recycle_ok[of w H K c inst tm p v] by simp
next
  case (recycle_batch w c i c')
  then show ?case using recycle_items_ok[of w H K c True] by simp
next
  case (release c old p ret rel c')
  then show ?case using release_ok[of H K c p old] release_known by fastforce
next
  case (clean_edp c p l ret c')
  then show ?case using clean_edp_ok[of H K c p l] by simp
next
  case (get_owner e c p ret own act c')
  then show ?case using get_owner_ok[of H K c e p] by simp
qed

lemma page_steps_ok:
  assumes "page_step\<^sup>*\<^sup>* c c'" "ctx_ok H K c"
  shows "ctx_ok H K c' \<and> keeps K c c'"
  using assms by (induction rule: rtranclp_induct) (auto dest: page_step_ok intro: keeps_trans)

text \<open>What the invariant says of a page the master knows.\<close>

lemma ctx_ok_page:
  assumes "ctx_ok H K c" "buf_lookup c p = Some (Some x)"
  shows "page_id (buf c x) = p" "buf_get c x = Some (buf c x)" "\<exists>rs. page_inv (buf c x) rs"
proof -
  obtain fl L lfl qs where inv: "pctx H K c fl L lfl qs" using assms(1) by (rule ctx_okE)
  have x: "x \<in> L" "page_id (buf c x) = p" using buf_lookup_spec(2)[OF inv] assms(2) by blast+
  show "page_id (buf c x) = p" "buf_get c x = Some (buf c x)" "\<exists>rs. page_inv (buf c x) rs"
    using x pctx_linked(4,6)[OF inv x(1)] by blast+
qed

end
