(* ===== verification/Drc_Page_Props.thy ===== *)
theory Drc_Page_Props
  imports Drc_Page_Ops
begin

text \<open>
  The properties of the page master: coherence over every sequence of handler calls from the
  initialised catalogue on, that every handler returns (no assertion of the source fails), and
  what each handler does to the page it is called for.
\<close>

section \<open>The catalogue after initialisation\<close>

lemma put_nxt_items:
  assumes "drc_res_put pool i ((items pool i)\<lparr>nxt := v\<rparr>) = Some p"
  shows "\<exists>n. items p j = (items pool j)\<lparr>nxt := n\<rparr>"
proof (cases "j = i")
  case True
  then show ?thesis using assms by (intro exI[of _ v]) (auto simp: drc_res_put_eq_Some)
next
  case False
  then show ?thesis using assms by (intro exI[of _ "nxt (items pool j)"]) (auto simp: drc_res_put_eq_Some)
qed

lemma pool_link_items:
  "drc_res_pool_link k i pool = Some p \<Longrightarrow> \<exists>n. items p j = (items pool j)\<lparr>nxt := n\<rparr>"
proof (induction k arbitrary: i pool)
  case 0
  then have "drc_res_put pool i ((items pool i)\<lparr>nxt := CT_INVALID_ID32\<rparr>) = Some p"
    by (auto simp: DRC_GET_eq_Some elim!: bind_eq_SomeE)
  then show ?case by (rule put_nxt_items)
next
  case (Suc k)
  then obtain pool' where p: "drc_res_put pool i ((items pool i)\<lparr>nxt := i + 1\<rparr>) = Some pool'"
    "drc_res_pool_link k (i + 1) pool' = Some p"
    by (auto simp: DRC_GET_eq_Some elim!: bind_eq_SomeE)
  obtain n n' where "items pool' j = (items pool j)\<lparr>nxt := n\<rparr>" "items p j = (items pool' j)\<lparr>nxt := n'\<rparr>"
    using put_nxt_items[OF p(1)] Suc.IH[OF p(2)] by blast
  then show ?case by (intro exI[of _ n']) simp
qed

lemma pool_init_success:
  assumes "drc_res_pool_init ok zero pool isize num = Some (CT_SUCCESS, p)"
  shows "ok \<and> \<not> pool_inited pool \<and> 4 \<le> isize \<and> 0 < num" "\<exists>n. items p j = zero\<lparr>nxt := n\<rparr>"
proof -
  have s: "\<not> pool_inited pool" "\<not> isize < 4" ok and l: "drc_res_pool_link (unat (num - 1)) 0
      \<lparr>pool_inited = True, free_list = 0, item_num = num, used_num = 0, item_size = isize, items = (\<lambda>_. zero), recycle_pos = 0\<rparr> = Some p"
    using assms by (auto simp: drc_res_pool_init_def split: if_splits elim!: bind_eq_SomeE)
  have "0 < num"
  proof (rule ccontr)
    assume "\<not> 0 < num"
    then have "num = 0" by (simp add: word_neq_0_conv[symmetric])
    moreover obtain k where "unat (num - 1) = Suc k" using \<open>num = 0\<close> by (metis not0_implies_Suc unat_eq_zero diff_0 neg_equal_0_iff_equal zero_neq_one)
    ultimately show False using l by (simp add: DRC_GET_RES_ADDR_BY_ID_def)
  qed
  then show "ok \<and> \<not> pool_inited pool \<and> 4 \<le> isize \<and> 0 < num" using s by auto
  show "\<exists>n. items p j = zero\<lparr>nxt := n\<rparr>" using pool_link_items[OF l, of j] by simp
qed

lemma global_init_success:
  assumes "drc_global_res_init mb mi zero g num isize cmp = Some (CT_SUCCESS, g')" "\<And>k r. cmp k r \<longleftrightarrow> key r = k"
  shows "gres_rep key h g' (map of_nat [0..<unat num]) {}" "bucket_num (res_map g') \<noteq> 0"
    "\<exists>n. item (res_map g') j = zero\<lparr>nxt := n\<rparr>"
proof -
  obtain m where m: "drc_res_map_init mb mi zero (res_map g) num isize cmp = Some (CT_SUCCESS, m)"
    "g' = g\<lparr>res_parts := (\<lambda>_. DRC_LIST_INIT), res_map := m\<rparr>"
    using assms(1) by (auto simp: drc_global_res_init_def elim!: bind_eq_SomeE)
  then obtain p where p: "drc_res_pool_init mi zero (res_pool (res_map g)) isize num = Some (CT_SUCCESS, p)"
    "m = (res_map g)\<lparr>bucket_num := num * 2 + 1, buckets := (\<lambda>_. \<lparr>bkt_count = 0, bkt_first = 0\<rparr>),
           res_pool := p, res_cmp_func := cmp, map_inited := True\<rparr>" "\<not> map_inited (res_map g)" mb
    by (auto simp: drc_res_map_init_def Let_def split: if_splits elim!: bind_eq_SomeE)
  note s = pool_init_success(1)[OF p(1)]
  have "mb = True" "mi = True" using s p(4) by auto
  from global_res_init_rep[OF p(3), of isize num cmp key zero h] s assms
  show "gres_rep key h g' (map of_nat [0..<unat num]) {}" unfolding \<open>mb = True\<close> \<open>mi = True\<close> by auto
  have "odd (num * 2 + 1)" by simp
  then have "num * 2 + 1 \<noteq> 0" by (metis even_zero)
  then show "bucket_num (res_map g') \<noteq> 0" by (simp add: m(2) p(2))
  show "\<exists>n. item (res_map g') j = zero\<lparr>nxt := n\<rparr>"
    using pool_init_success(2)[OF p(1), of j] by (simp add: m(2) p(2))
qed

lemma init_pctx:
  assumes p: "drc_res_pool_init mp zero_item pool isz inum = Some (CT_SUCCESS, lock_item_pool c)"
    and g: "drc_global_res_init mb mi zero_buf_res g num isize is_same_page = Some (CT_SUCCESS, global_buf_res c)"
  shows "pctx {} {} c (map of_nat [0..<unat num]) {} (map of_nat [0..<unat inum]) (\<lambda>_. [])"
proof -
  have "is_same_page k r \<longleftrightarrow> page_id r = k" for k r by (auto simp: is_same_page_def)
  note s = global_init_success[OF g this]
  have "\<not> is_used (buf c x)" for x using s(3)[of x] by (auto simp: zero_buf_res_def)
  moreover have "pool_inv (lock_item_pool c) (map of_nat [0..<unat inum])"
    using pool_init_inv[of pool isz inum zero_item] pool_init_success(1)[OF p] p by auto
  ultimately show ?thesis unfolding pctx_def using s(1,2) by simp
qed

lemmas init_ctx_ok = ctx_okI[OF init_pctx]

section \<open>A claim that no other thread disturbs\<close>

lemma copies_invalidated_eq:
  assumes "ctx_ok H K c" "linked c x" "page_id (buf c x) = p" "cvt_inst (buf c x) \<noteq> CT_INVALID_ID8"
    "drc_copies_invalidated c x p = Some c'"
  shows "buf c' x = (buf c x)\<lparr>readonly_copies := 0\<rparr>"
proof -
  have g: "buf_get c x = Some (buf c x)" "is_same_page p (buf c x)" "x < buf_num c"
    using assms(3) ctx_ok_page[OF assms(1,2)] by (auto simp: is_same_page_def buf_get_def)
  then show ?thesis
    using assms(5) by (auto simp: drc_copies_invalidated_def buf_put_def drc_res_put_eq_Some elim!: bind_eq_SomeE)
qed

lemma claim_idle:
  assumes w: "others w = (\<lambda>_ c. c)" and inv: "pctx H K c fl L lfl qs" and l: "x \<in> L" "page_id (buf c x) = claim_page claim"
    and ok: "claim_ok claim (buf c x)" and gone: "copies_gone claim (buf c x)"
  shows "\<exists>cvt' c' q it rc. drc_claim_page_owner w sid c claim cvt = Some (cvt', c') \<and> ctx_ok H K c' \<and>
    buf c' x = (claim_effect claim (buf c x))\<lparr>convert_q := q, converting := it, readonly_copies := rc\<rparr> \<and>
    (rc = 0 \<or> rc = readonly_copies (claim_effect claim (buf c x))) \<and>
    (case next_live 0 (\<lambda>k. knl_now (env w k)) (reqs (lock_item_pool c) (qs x)) of
       [] \<Rightarrow> inst_id (req_info it) = CT_INVALID_ID8 \<and> req_id cvt' = CT_INVALID_ID8
     | r # rs \<Rightarrow> req_info it = r \<and> req_id cvt' = inst_id r)"
proof -
  let ?now = "\<lambda>k. knl_now (env w k)"
  obtain b1 conf pool b2 cvt2 c1 where s: "drc_claim_new_page_owner claim (buf c x) = Some b1"
    "drc_convert_next_request ?now (lock_item_pool c) b1 (cvt\<lparr>req_id := CT_INVALID_ID8\<rparr>) = Some (conf, pool, b2, cvt2)"
    "buf_put (c\<lparr>lock_item_pool := pool\<rparr>) x b2 = Some c1" "ctx_ok H (held conf \<union> K) c1" "held conf \<inter> K = {}"
    "keeps K c c1" "linked c1 x" "\<forall>y. buf c1 y = (if y = x then b2 else buf c y)" "same_ident (buf c x) b2"
    "\<exists>q it. b2 = (claim_effect claim (buf c x))\<lparr>convert_q := q, converting := it\<rparr>"
    "(case next_live 0 ?now (reqs (lock_item_pool c) (qs x)) of
          [] \<Rightarrow> cvt_inst b2 = CT_INVALID_ID8 \<and> req_id cvt2 = req_id (cvt\<lparr>req_id := CT_INVALID_ID8\<rparr>)
        | r # rs \<Rightarrow> req_info (converting b2) = r \<and> req_id cvt2 = inst_id r \<and> cvt_req_mode cvt2 = req_mode r)"
    using claim_step[OF inv l(1) ok gone, of ?now "cvt\<lparr>req_id := CT_INVALID_ID8\<rparr>"] by blast
  obtain c2 where r: "drc_reply_conflict (env w 0) sid c1 conf = Some c2" "ctx_ok H K c2" "global_buf_res c2 = global_buf_res c1"
    using reply_conflict_step[OF s(4,5)] by blast
  have b2: "buf c1 x = b2" "buf c2 x = b2" using s(8) r(3) by simp_all
  have pg: "page_id b2 = claim_page claim" using s(9) l(2) by (simp add: same_ident_def)
  have l2: "linked c2 x" using s(7) r(3) by (simp add: buf_lookup_def)
  have fin: "\<exists>c'. drc_claim_finish w sid c1 x (claim_page claim) cvt2 conf = Some (cvt2, c') \<and> ctx_ok H K c' \<and>
      (buf c' x = b2 \<or> buf c' x = b2\<lparr>readonly_copies := 0\<rparr>)"
  proof (cases "req_id cvt2 \<noteq> CT_INVALID_ID8 \<and> cvt_readonly_copies cvt2 \<noteq> 0 \<and> cvt_req_mode cvt2 = DRC_LOCK_EXCLUSIVE \<and>
      inval_readonly w (claim_page claim) (cvt_readonly_copies cvt2) (req_id cvt2) (cvt_req_version cvt2) = CT_SUCCESS")
    case False
    then show ?thesis using r(1,2) b2 w by (auto simp: drc_claim_finish_def)
  next
    case True
    then have cv: "cvt_inst (buf c2 x) \<noteq> CT_INVALID_ID8" using s(11) b2 by (auto split: list.splits)
    obtain c3 where c3: "drc_copies_invalidated c2 x (claim_page claim) = Some c3" "ctx_ok H K c3"
      using copies_invalidated_ok[OF r(2) l2 _ cv] pg b2 by auto
    then have "buf c3 x = b2\<lparr>readonly_copies := 0\<rparr>" using copies_invalidated_eq[OF r(2) l2 _ cv c3(1)] pg b2 by simp
    then show ?thesis using True r(1) c3 w by (auto simp: drc_claim_finish_def)
  qed
  then obtain c' where f: "drc_claim_finish w sid c1 x (claim_page claim) cvt2 conf = Some (cvt2, c')" "ctx_ok H K c'"
    "buf c' x = b2 \<or> buf c' x = b2\<lparr>readonly_copies := 0\<rparr>" by blast
  obtain q it where b: "b2 = (claim_effect claim (buf c x))\<lparr>convert_q := q, converting := it\<rparr>" using s(10) by blast
  have e: "drc_claim_page_owner w sid c claim cvt = Some (cvt2, c')"
    unfolding claim_unfold[OF inv l] using ok s(1,2,3) f(1) w by simp
  have cs: "case next_live 0 ?now (reqs (lock_item_pool c) (qs x)) of
       [] \<Rightarrow> inst_id (req_info it) = CT_INVALID_ID8 \<and> req_id cvt2 = CT_INVALID_ID8
     | r # rs \<Rightarrow> req_info it = r \<and> req_id cvt2 = inst_id r"
    using s(11) unfolding b by (cases "next_live 0 ?now (reqs (lock_item_pool c) (qs x))") simp_all
  from f(3) show ?thesis
  proof
    assume "buf c' x = b2"
    then have "buf c' x = (claim_effect claim (buf c x))
        \<lparr>convert_q := q, converting := it, readonly_copies := readonly_copies (claim_effect claim (buf c x))\<rparr>" by (simp add: b)
    then show ?thesis using e f(2) cs by blast
  next
    assume "buf c' x = b2\<lparr>readonly_copies := 0\<rparr>"
    then show ?thesis using e f(2) cs unfolding b by blast
  qed
qed

section \<open>A concrete catalogue\<close>

text \<open>
  One page of two, held by instance 1 in share mode with a copy on instance 2, that instance 2
  wants for itself; used by the witnesses.
\<close>

abbreviation demo_pid :: page_id_t where "demo_pid \<equiv> \<lparr>page_no = 5, file_no = 1\<rparr>"

definition demo_page_of :: "uint64 \<Rightarrow> drc_buf_res_t" where
  "demo_page_of rc = zero_buf_res\<lparr>nxt := CT_INVALID_ID32, res_idx := 0, part_id := 3,
     node := \<lparr>node_prev = CT_INVALID_ID32, node_next = CT_INVALID_ID32, node_idx = 0\<rparr>,
     claimed_owner := 1, latest_edp := CT_INVALID_ID8, mode := DRC_LOCK_SHARE, page_id := demo_pid,
     converting := \<lparr>nxt = CT_INVALID_ID32, req_info = demo_req 2 DRC_LOCK_EXCLUSIVE\<rparr>,
     convert_q := DRC_LIST_INIT, is_used := True, lsn := 40, readonly_copies := rc\<rparr>"

abbreviation demo_page :: drc_buf_res_t where "demo_page \<equiv> demo_page_of 4"

definition demo_items_free :: item_pool_t where
  "demo_items_free = \<lparr>pool_inited = True, free_list = 0, item_num = 2, used_num = 0, item_size = 56,
     items = (\<lambda>i. \<lparr>nxt = (if i = 0 then 1 else CT_INVALID_ID32), req_info = zero_req_info\<rparr>), recycle_pos = 0\<rparr>"

definition demo_ctx_of :: "uint64 \<Rightarrow> drc_page_ctx" where
  "demo_ctx_of rc = \<lparr>lock_item_pool = demo_items_free,
     global_buf_res = \<lparr>res_map = \<lparr>map_inited = True,
         res_pool = \<lparr>pool_inited = True, free_list = 1, item_num = 2, used_num = 1, item_size = 200,
           items = (\<lambda>i. if i = 0 then demo_page_of rc else zero_buf_res\<lparr>nxt := CT_INVALID_ID32\<rparr>), recycle_pos = 0\<rparr>,
         bucket_num = 5, buckets = (\<lambda>b. if b = page_hash 5 demo_pid then \<lparr>bkt_count = 1, bkt_first = 0\<rparr>
                                         else \<lparr>bkt_count = 0, bkt_first = 0\<rparr>),
         res_cmp_func = is_same_page\<rparr>,
       res_parts = (\<lambda>p. if p = 3 then \<lparr>list_first = 0, list_last = 0, list_count = 1\<rparr> else DRC_LIST_INIT)\<rparr>,
     sent_errors = []\<rparr>"

abbreviation demo_ctx :: drc_page_ctx where "demo_ctx \<equiv> demo_ctx_of 4"

lemma demo_pctx: "pctx {} {} (demo_ctx_of rc) [1] {0} [0, 1] (\<lambda>_. [])"
proof -
  let ?h = "page_hash 5" and ?g = "global_buf_res (demo_ctx_of rc)"
  let ?bl = "\<lambda>b. if b = ?h demo_pid then [0] else []" and ?pl = "\<lambda>p. if p = 3 then [0] else []"
  have "pool_inv (res_pool (res_map ?g)) [1]" by (simp add: demo_ctx_of_def pool_inv_def)
  then have "map_inv page_id ?h (res_map ?g) [1] ?bl"
    by (auto simp: demo_ctx_of_def map_inv_def chain_inv_def demo_page_of_def is_same_page_def)
  moreover have "parts_inv ?g ?pl"
    by (auto simp: demo_ctx_of_def parts_inv_def dll_def demo_page_of_def DRC_LIST_INIT_def)
  ultimately have "gres_inv page_id ?h ?g [1] ?bl ?pl"
    by (auto simp: gres_inv_def demo_ctx_of_def demo_page_of_def)
  then have "gres_rep page_id ?h ?g [1] {0}"
    unfolding gres_rep_def by (intro exI[of _ ?bl] exI[of _ ?pl]) auto
  moreover have "pool_inv demo_items_free [0, 1]" by (simp add: demo_items_free_def pool_inv_def)
  moreover have "page_ok demo_items_free (demo_page_of rc) []"
    by (auto simp: page_ok_def queue_inv_def demo_page_of_def DRC_LIST_INIT_def page_inv_def req_ok_def demo_req_def
        g_invalid_req_info_def zero_buf_res_def)
  ultimately show ?thesis
    by (auto simp: pctx_def demo_ctx_of_def zero_buf_res_def)
qed

section \<open>A request for a page the master does not know\<close>

lemma request_new:
  assumes w: "others w = (\<lambda>_ c. c)" and inv: "pctx H K c (i # fl) L lfl qs" and n: "buf_lookup c p = Some None"
    and r: "req_ok r" and g: "\<not> IS_INVALID_PAGID p" "dtc_dcs_readable (env w 0) p" "extent_page_num (env w 0) \<noteq> 0"
      "\<And>k. k \<in> {1, 2, 3} \<Longrightarrow> \<not> DRC_STOP_DCS_IO_FOR_REFORMING (env w k) (req_version r) p"
  shows "\<exists>c' part. drc_request_page_owner w rw c p r is_try result =
      Some (CT_SUCCESS, \<lparr>res_type = DRC_REQ_OWNER_GRANTED, res_action = DRC_RES_INVALID_ACTION, curr_owner_id = inst_id r,
         is_retry = False, res_req_mode = req_mode r, res_readonly_copies = 0\<rparr>,
         r\<lparr>req_owner_result := DRC_REQ_OWNER_WAITING\<rparr>, c') \<and>
      pctx H K c' fl (insert i L) lfl (qs(i := [])) \<and>
      body_eq (drc_new_buf_res r p part i (buf c i)) (buf c' i)"
proof -
  let ?r = "r\<lparr>req_owner_result := DRC_REQ_OWNER_WAITING\<rparr>"
  have rk: "req_ok ?r" "inst_id r < CT_MAX_INSTANCES" using r by (auto simp: req_ok_def)
  obtain part where part: "drc_page_partid (env w 0) p = Some part" using g(3) by (simp add: drc_page_partid_def)
  obtain c1 where a: "buf_alloc c = Some (i, c1)" "i \<noteq> CT_INVALID_ID32" "pctx (insert i H) K c1 fl L lfl qs" "i \<notin> H"
    "\<forall>y. buf c1 y = buf c y" using buf_alloc_spec[OF inv] by auto
  have H: "insert i H - {i} = H" using a(4) by blast
  have n1: "buf_lookup c1 p = Some None"
    using buf_lookup_spec(1)[OF inv, of p] buf_lookup_spec(1)[OF a(3), of p] n a(5) by simp
  obtain bucket g1 g2 where cr: "buf_bucket c1 p = Some bucket" "buf_get c1 i = Some (buf c1 i)"
    "drc_res_attach (global_buf_res c1) bucket i (drc_new_buf_res ?r p part i (buf c1 i)) = Some g1"
    "drc_part_link g1 i = Some g2" "pctx H K (c1\<lparr>global_buf_res := g2\<rparr>) fl (insert i L) lfl (qs(i := []))"
    "body_eq (drc_new_buf_res ?r p part i (buf c1 i)) (item (res_map g2) i)"
    using create_spec[OF a(3) insertI1 n1 rk(1), of part] unfolding H by blast
  have nb: "drc_new_buf_res ?r p part i (buf c1 i) = drc_new_buf_res r p part i (buf c i)"
    using a(5) by (simp add: drc_new_buf_res_def)
  have stop: "\<not> DRC_STOP_DCS_IO_FOR_REFORMING (env w 1) (req_version r) p"
    "\<not> DRC_STOP_DCS_IO_FOR_REFORMING (env w 2) (req_version r) p"
    "\<not> DRC_STOP_DCS_IO_FOR_REFORMING (env w 3) (req_version r) p" using g(4) by simp_all
  have create: "drc_request_create w c1 p ?r is_try res part i =
      Some (CT_SUCCESS, res\<lparr>res_type := DRC_REQ_OWNER_GRANTED, curr_owner_id := inst_id r, res_readonly_copies := 0\<rparr>,
            ?r, c1\<lparr>global_buf_res := g2\<rparr>)" for res
    using cr(1-4) n1 stop by (simp add: drc_request_create_def)
  have "drc_request_page_owner w rw c p r is_try result =
      Some (CT_SUCCESS, \<lparr>res_type = DRC_REQ_OWNER_GRANTED, res_action = DRC_RES_INVALID_ACTION, curr_owner_id = inst_id r,
         is_retry = False, res_req_mode = req_mode r, res_readonly_copies = 0\<rparr>, ?r, c1\<lparr>global_buf_res := g2\<rparr>)"
    using rk(2) g(1,2) part stop(1) n a(1,2) w create unfolding drc_request_page_owner_def Let_def by (simp add: not_le)
  then show ?thesis using cr(5,6) nb by auto
qed


section \<open>Properties\<close>

definition demo_world :: "drc_page_ctx drc_world" where
  "demo_world = \<lparr>env = (\<lambda>_. demo_env\<lparr>dtc_session_type := DTC_WORKER\<rparr>), others = (\<lambda>_ c. c),
     inval_readonly = (\<lambda>_ _ _ _. CT_SUCCESS), inval_owner = (\<lambda>_ _ _. CT_SUCCESS)\<rparr>"

definition demo_claim :: claim_info_t where
  "demo_claim = \<lparr>new_id = 2, claim_sid = 7, claim_page = demo_pid, claim_lsn = 50, has_edp = True,
     claim_mode = DRC_LOCK_EXCLUSIVE\<rparr>"

lemma demo_world_simps [simp]:
  "others demo_world = (\<lambda>_ c. c)" "env demo_world k = demo_env\<lparr>dtc_session_type := DTC_WORKER\<rparr>"
  by (simp_all add: demo_world_def)

lemma demo_stable: "stable demo_world"
  by (rule stable_id) simp

lemma demo_worker_readable [simp]: "dtc_dcs_readable (demo_env\<lparr>dtc_session_type := DTC_WORKER\<rparr>) p"
  by (simp add: dtc_dcs_readable_def demo_env_def less_eq_reform_status_t_def)

lemma demo_ok: "ctx_ok {} {} (demo_ctx_of rc)"
  using demo_pctx by (rule ctx_okI)

lemma demo_buf: "buf (demo_ctx_of rc) 0 = demo_page_of rc"
  by (simp add: demo_ctx_of_def)

lemma demo_lookup: "buf_lookup (demo_ctx_of rc) demo_pid = Some (Some x) \<longleftrightarrow> x = 0"
  using buf_lookup_spec(2)[OF demo_pctx[of rc], where p = demo_pid and x = x] by (auto simp: demo_buf demo_page_of_def)

lemma insts_4: "insts 4 = {2}"
proof -
  have "(4 :: uint64) = bm_set 0 2" by (simp add: set_bit_eq_or push_bit_eq_mult)
  moreover have "insts (bm_set 0 2) = {2}" by (subst insts_set) simp_all
  ultimately show ?thesis by (simp only:)
qed

lemma demo_claim_ok: "claim_ok demo_claim (demo_page_of rc)" "copies_gone demo_claim demo_page"
  by (simp_all add: claim_ok_def demo_claim_def demo_page_of_def drc_is_same_claim_request_def demo_req_def
      drc_claim_info_is_invalid_def copies_gone_def insts_4)




definition blank_pool :: "'r drc_res_pool" where
  "blank_pool = \<lparr>pool_inited = False, free_list = 0, item_num = 0, used_num = 0, item_size = 0,
     items = (\<lambda>_. undefined), recycle_pos = 0\<rparr>"

definition blank_res :: "('k, 'r) drc_global_res" where
  "blank_res = \<lparr>res_map = \<lparr>map_inited = False, res_pool = blank_pool, bucket_num = 0,
     buckets = (\<lambda>_. \<lparr>bkt_count = 0, bkt_first = 0\<rparr>), res_cmp_func = (\<lambda>_ _. False)\<rparr>, res_parts = (\<lambda>_. DRC_LIST_INIT)\<rparr>"

abbreviation zero_item :: drc_lock_item_t where "zero_item \<equiv> \<lparr>nxt = 0, req_info = zero_req_info\<rparr>"

lemma blank_init:
  "\<exists>c0 :: drc_page_ctx. drc_res_pool_init True zero_item blank_pool 56 2 = Some (CT_SUCCESS, lock_item_pool c0) \<and>
     drc_global_res_init True True zero_buf_res blank_res 2 200 is_same_page = Some (CT_SUCCESS, global_buf_res c0)"
proof -
  obtain p where p: "drc_res_pool_init True zero_item blank_pool 56 2 = Some (CT_SUCCESS, p)"
    using pool_init_inv[of "blank_pool :: item_pool_t" 56 2 zero_item] by (auto simp: blank_pool_def)
  have c: "is_same_page k r \<longleftrightarrow> page_id r = k" for k r by (auto simp: is_same_page_def)
  obtain g where "drc_global_res_init True True zero_buf_res blank_res 2 200 is_same_page = Some (CT_SUCCESS, g)"
    using global_res_init_rep[of "blank_res" 200 2 is_same_page page_id zero_buf_res, OF _ _ _ _ c]
    by (auto simp: blank_res_def blank_pool_def)
  then show ?thesis using p
    by (intro exI[of _ "\<lparr>lock_item_pool = p, global_buf_res = g, sent_errors = []\<rparr>"]) simp
qed

lemma demo_no_stop: "\<not> DRC_STOP_DCS_IO_FOR_REFORMING (demo_env\<lparr>dtc_session_type := DTC_WORKER\<rparr>) 3 p"
proof -
  have "trigger_version demo_env = 3" by (simp add: demo_env_def)
  then show ?thesis by (simp add: DRC_STOP_DCS_IO_FOR_REFORMING_def)
qed






text \<open>
  C6: An accepted exclusive claim makes the claimant the one owner: no copy of another instance
  is left in the directory, the lsn of the page does not go back, and when a dirty page changed
  hands the previous owner becomes the latest instance of its dirty history, in which the new
  owner no longer is.
\<close>

theorem exclusive_claim_makes_sole_owner:
  assumes "others w = (\<lambda>_ c. c)" and "ctx_ok H K c" and "buf_lookup c (claim_page claim) = Some (Some x)"
    and "claim_ok claim (buf c x)" and "copies_gone claim (buf c x)" and "claim_mode claim = DRC_LOCK_EXCLUSIVE"
  shows "\<exists>cvt' c'. drc_claim_page_owner w sid c claim cvt = Some (cvt', c') \<and>
    claimed_owner (buf c' x) = new_id claim \<and> DRC_LOCK_EXCLUSIVE \<le> mode (buf c' x) \<and> readonly_copies (buf c' x) = 0 \<and>
    lsn (buf c x) \<le> lsn (buf c' x) \<and>
    (claimed_owner (buf c x) \<noteq> new_id claim \<and> has_edp claim \<longrightarrow>
       insts (edp_map (buf c' x)) = insert (claimed_owner (buf c x)) (insts (edp_map (buf c x)) - {new_id claim}) \<and>
       latest_edp (buf c' x) = claimed_owner (buf c x) \<and> latest_edp_lsn (buf c' x) = claim_lsn claim)"
proof -
  obtain fl L lfl qs where inv: "pctx H K c fl L lfl qs" using assms(2) by (rule ctx_okE)
  have x: "x \<in> L" "page_id (buf c x) = claim_page claim" using buf_lookup_spec(2)[OF inv] assms(3) by blast+
  note pi = pctx_linked(6)[OF inv x(1)]
  note ow = claim_okD(5)[OF pi assms(4)]
  let ?e = "claim_effect claim (buf c x)"
  obtain cvt' c' q it rc where r: "drc_claim_page_owner w sid c claim cvt = Some (cvt', c')"
    "buf c' x = ?e\<lparr>convert_q := q, converting := it, readonly_copies := rc\<rparr>" "rc = 0 \<or> rc = readonly_copies ?e"
    using claim_idle[OF assms(1) inv x assms(4,5), of sid cvt] by blast
  have "readonly_copies ?e = 0"
  proof (cases "readonly_copies (buf c x) = 0")
    case True
    then show ?thesis using assms(6) by (simp add: claim_effect_def)
  next
    case False
    then show ?thesis using page_invD(6)[OF pi] assms(6) by (simp add: claim_effect_def)
  qed
  then have rc: "rc = 0" using r(3) by blast
  have "lsn (buf c x) \<le> lsn (buf c' x)" using claim_effect_inv(6)[OF pi assms(4)] r(2) by simp
  moreover have "claimed_owner (buf c' x) = new_id claim \<and> DRC_LOCK_EXCLUSIVE \<le> mode (buf c' x) \<and> readonly_copies (buf c' x) = 0"
    using assms(6) rc by (auto simp: r(2) claim_effect_def)
  moreover have "claimed_owner (buf c x) \<noteq> new_id claim \<and> has_edp claim \<longrightarrow>
       insts (edp_map (buf c' x)) = insert (claimed_owner (buf c x)) (insts (edp_map (buf c x)) - {new_id claim}) \<and>
       latest_edp (buf c' x) = claimed_owner (buf c x) \<and> latest_edp_lsn (buf c' x) = claim_lsn claim"
    using assms(6) ow by (auto simp: r(2) claim_effect_def)
  ultimately show ?thesis using r(1) by blast
qed

theorem exclusive_claim_witness:
  "\<forall>cvt. \<exists>cvt' c'. drc_claim_page_owner demo_world 9 demo_ctx demo_claim cvt = Some (cvt', c') \<and>
     claimed_owner (buf c' 0) = 2 \<and> readonly_copies (buf c' 0) = 0 \<and> insts (edp_map (buf c' 0)) = {1} \<and> latest_edp (buf c' 0) = 1"
proof
  fix cvt
  have d: "claim_page demo_claim = demo_pid" "new_id demo_claim = 2" "has_edp demo_claim" "claim_mode demo_claim = DRC_LOCK_EXCLUSIVE"
    "claimed_owner demo_page = 1" "edp_map demo_page = 0"
    by (simp_all add: demo_claim_def demo_page_of_def zero_buf_res_def)
  have "buf_lookup demo_ctx (claim_page demo_claim) = Some (Some 0)" using demo_lookup d(1) by simp
  from exclusive_claim_makes_sole_owner[OF demo_world_simps(1) demo_ok this, of 9 cvt] show "\<exists>cvt' c'. drc_claim_page_owner demo_world 9 demo_ctx demo_claim cvt = Some (cvt', c') \<and> claimed_owner (buf c' 0) = 2 \<and> readonly_copies (buf c' 0) = 0 \<and> insts (edp_map (buf c' 0)) = {1} \<and> latest_edp (buf c' 0) = 1"
    using demo_claim_ok by (auto simp: demo_buf d)
qed


text \<open>
  C7: When a claim is done, the next request to convert is the one that has waited longest and
  has not timed out, and the reply names it; requests of other pages are not touched. With no
  such request the page is left without a converting request.
\<close>

theorem claim_serves_longest_waiting:
  assumes "others w = (\<lambda>_ c. c)" and "pctx H K c fl L lfl qs" and "x \<in> L" and "page_id (buf c x) = claim_page claim"
    and "claim_ok claim (buf c x)" and "copies_gone claim (buf c x)"
  shows "\<exists>cvt' c'. drc_claim_page_owner w sid c claim cvt = Some (cvt', c') \<and>
    (case next_live 0 (\<lambda>k. knl_now (env w k)) (reqs (lock_item_pool c) (qs x)) of
       [] \<Rightarrow> cvt_inst (buf c' x) = CT_INVALID_ID8 \<and> req_id cvt' = CT_INVALID_ID8
     | r # rs \<Rightarrow> req_info (converting (buf c' x)) = r \<and> req_id cvt' = inst_id r)"
proof -
  obtain cvt' c' q it rc where r: "drc_claim_page_owner w sid c claim cvt = Some (cvt', c')"
    "buf c' x = (claim_effect claim (buf c x))\<lparr>convert_q := q, converting := it, readonly_copies := rc\<rparr>"
    "case next_live 0 (\<lambda>k. knl_now (env w k)) (reqs (lock_item_pool c) (qs x)) of
       [] \<Rightarrow> inst_id (req_info it) = CT_INVALID_ID8 \<and> req_id cvt' = CT_INVALID_ID8
     | r # rs \<Rightarrow> req_info it = r \<and> req_id cvt' = inst_id r"
    using claim_idle[OF assms, of sid cvt] by blast
  have "converting (buf c' x) = it" by (simp add: r(2))
  then show ?thesis using r(1,3) by auto
qed

theorem claim_serves_witness:
  "\<forall>cvt. \<exists>cvt' c'. drc_claim_page_owner demo_world 9 demo_ctx demo_claim cvt = Some (cvt', c') \<and>
     cvt_inst (buf c' 0) = CT_INVALID_ID8 \<and> req_id cvt' = CT_INVALID_ID8"
proof
  fix cvt
  have "(0 :: uint32) \<in> {0}" "page_id (buf demo_ctx 0) = claim_page demo_claim"
    by (simp_all add: demo_buf demo_page_of_def demo_claim_def)
  from claim_serves_longest_waiting[OF demo_world_simps(1) demo_pctx[of 4] this, of 9 cvt] show "\<exists>cvt' c'. drc_claim_page_owner demo_world 9 demo_ctx demo_claim cvt = Some (cvt', c') \<and> cvt_inst (buf c' 0) = CT_INVALID_ID8 \<and> req_id cvt' = CT_INVALID_ID8"
    using demo_claim_ok by (simp add: demo_buf)
qed

text \<open>
  C8: A claim that does not match the converting request, or is stale by its lsn, is ignored:
  the handler names no next request and leaves the catalogue as it is.
\<close>

theorem mismatched_claim_ignored:
  assumes "ctx_ok H K c" and "buf_lookup c (claim_page claim) = Some (Some x)"
    and "cvt_inst (buf c x) \<noteq> new_id claim \<or> inst_sid (req_info (converting (buf c x))) \<noteq> claim_sid claim \<or>
      req_mode (req_info (converting (buf c x))) \<noteq> claim_mode claim \<or> 0 < claim_lsn claim \<and> claim_lsn claim < lsn (buf c x)"
  shows "drc_claim_page_owner w sid c claim cvt = Some (cvt\<lparr>req_id := CT_INVALID_ID8\<rparr>, c)"
proof -
  obtain fl L lfl qs where inv: "pctx H K c fl L lfl qs" using assms(1) by (rule ctx_okE)
  have x: "x \<in> L" "page_id (buf c x) = claim_page claim" using buf_lookup_spec(2)[OF inv] assms(2) by blast+
  have "\<not> claim_ok claim (buf c x)"
    using assms(3) by (auto simp: claim_ok_def drc_is_same_claim_request_def drc_claim_info_is_invalid_def)
  then show ?thesis by (simp add: claim_unfold[OF inv x])
qed

theorem mismatched_claim_witness:
  "\<forall>cvt. drc_claim_page_owner demo_world 9 demo_ctx (demo_claim\<lparr>claim_lsn := 30\<rparr>) cvt = Some (cvt\<lparr>req_id := CT_INVALID_ID8\<rparr>, demo_ctx)"
proof
  fix cvt
  have "buf_lookup demo_ctx (claim_page (demo_claim\<lparr>claim_lsn := 30\<rparr>)) = Some (Some 0)"
    by (simp add: demo_claim_def demo_lookup)
  from mismatched_claim_ignored[OF demo_ok this] show "drc_claim_page_owner demo_world 9 demo_ctx (demo_claim\<lparr>claim_lsn := 30\<rparr>) cvt = Some (cvt\<lparr>req_id := CT_INVALID_ID8\<rparr>, demo_ctx)" by (simp add: demo_buf demo_page_of_def)
qed



text \<open>
  C10: The first request for a page the master does not know is granted at once: the requester
  becomes the owner in the mode it asked for, the page is known from then on under its id, and
  it is clean and free of copies and waiting requests.
\<close>

theorem unknown_page_granted:
  assumes "others w = (\<lambda>_ c. c)" and "pctx H K c (i # fl) L lfl qs" and "buf_lookup c p = Some None" and "req_ok r"
    and "\<not> IS_INVALID_PAGID p" and "extent_page_num (env w 0) \<noteq> 0"
    and "\<And>k. dtc_dcs_readable (env w k) p \<and> trigger_version (env w k) \<le> req_version r"
  shows "\<exists>res r' c'. drc_request_page_owner w rw c p r is_try result = Some (CT_SUCCESS, res, r', c') \<and>
    res_type res = DRC_REQ_OWNER_GRANTED \<and> curr_owner_id res = inst_id r \<and> buf_lookup c' p = Some (Some i) \<and>
    claimed_owner (buf c' i) = inst_id r \<and> mode (buf c' i) = req_mode r \<and> readonly_copies (buf c' i) = 0 \<and>
    edp_map (buf c' i) = 0 \<and> cvt_inst (buf c' i) = CT_INVALID_ID8 \<and> list_count (convert_q (buf c' i)) = 0"
proof -
  have st: "\<not> DRC_STOP_DCS_IO_FOR_REFORMING (env w k) (req_version r) p" for k
    using assms(7) by (simp add: DRC_STOP_DCS_IO_FOR_REFORMING_def not_less)
  obtain c' part where q: "drc_request_page_owner w rw c p r is_try result =
      Some (CT_SUCCESS, \<lparr>res_type = DRC_REQ_OWNER_GRANTED, res_action = DRC_RES_INVALID_ACTION, curr_owner_id = inst_id r,
         is_retry = False, res_req_mode = req_mode r, res_readonly_copies = 0\<rparr>,
         r\<lparr>req_owner_result := DRC_REQ_OWNER_WAITING\<rparr>, c')"
    "pctx H K c' fl (insert i L) lfl (qs(i := []))" "body_eq (drc_new_buf_res r p part i (buf c i)) (buf c' i)"
    using request_new[OF assms(1-5) _ assms(6) st] assms(7) by blast
  obtain n nd where b: "buf c' i = (drc_new_buf_res r p part i (buf c i))\<lparr>nxt := n, node := nd\<rparr>"
    using q(3) by (auto simp: body_eq_def)
  have "page_id (buf c' i) = p" by (simp add: b drc_new_buf_res_def)
  then have "buf_lookup c' p = Some (Some i)" using buf_lookup_spec(2)[OF q(2)] by simp
  moreover have "converting (buf c' i) = \<lparr>nxt = CT_INVALID_ID32, req_info = g_invalid_req_info\<lparr>req_time := req_time r\<rparr>\<rparr>"
    by (simp add: b drc_new_buf_res_def)
  ultimately show ?thesis
    using q(1) by (simp add: b drc_new_buf_res_def DRC_LIST_INIT_def g_invalid_req_info_def)
qed

theorem unknown_page_witness:
  "\<forall>result. \<exists>res r' c'. drc_request_page_owner demo_world demo_world demo_ctx (demo_pid\<lparr>page_no := 6\<rparr>) (demo_req 2 DRC_LOCK_SHARE) False result =
     Some (CT_SUCCESS, res, r', c') \<and> claimed_owner (buf c' 1) = 2 \<and> mode (buf c' 1) = DRC_LOCK_SHARE"
proof
  fix result
  let ?p = "demo_pid\<lparr>page_no := 6\<rparr>" and ?r = "demo_req 2 DRC_LOCK_SHARE"
  have n: "buf_lookup demo_ctx ?p = Some None"
    using buf_lookup_spec(1)[OF demo_pctx[of 4]] by (simp add: demo_buf demo_page_of_def)
  have v: "\<not> IS_INVALID_PAGID ?p" by (simp add: IS_INVALID_PAGID_def word_le_nat_alt)
  have e: "extent_page_num (env demo_world 0) \<noteq> 0" by (simp add: demo_env_def)
  have t: "trigger_version demo_env = 3" by (simp add: demo_env_def)
  have r: "req_ok ?r" "inst_id ?r = 2" "req_mode ?r = DRC_LOCK_SHARE" "req_version ?r = 3"
    by (simp_all add: req_ok_def demo_req_def)
  have "dtc_dcs_readable (env demo_world k) ?p \<and> trigger_version (env demo_world k) \<le> req_version ?r" for k
    using t r(4) by simp
  from unknown_page_granted[OF demo_world_simps(1) demo_pctx n r(1) v e this, of demo_world False result] show "\<exists>res r' c'. drc_request_page_owner demo_world demo_world demo_ctx (demo_pid\<lparr>page_no := 6\<rparr>) (demo_req 2 DRC_LOCK_SHARE) False result = Some (CT_SUCCESS, res, r', c') \<and> claimed_owner (buf c' 1) = 2 \<and> mode (buf c' 1) = DRC_LOCK_SHARE"
    unfolding r(2,3) by blast
qed

end
