(* ===== verification/Drc_Lock.thy ===== *)
theory Drc_Lock
  imports Drc_Page_Res
begin

text \<open>
  The lock resources of the master (\<open>dtc_drc.c\<close>): the record \<open>drc_master_res_t\<close> and the handlers
  that request, claim, cancel, release, recycle and clean a distributed lock. A lock resource
  keeps its mode, the bitmap of the instances it is granted to, one converting request and the
  queue of waiting ones; the queue uses the lock item pool it shares with the page resources.

  A handler runs under the bucket lock, so it is one step on the context. The exception is
  \<open>drc_request_lock_owner\<close>, which polls until its queued request is the converting one: what the
  other threads do while it sleeps is \<open>others n\<close>, and a poll that never ends is \<open>None\<close>. The
  output parameters \<open>is_granted\<close> and \<open>old_owner_map\<close> are a record that is passed in and returned,
  since some error paths leave them as they were.
\<close>

section \<open>Data\<close>

record drc_master_res_t = drc_part_res +
  res_id :: drid_t
  lk_mode :: uint8
  granted_map :: uint64
  lk_converting :: drc_lock_item_t
  lk_convert_q :: drc_lock_q_t

lemma lk_converting_nxt [simp]: "lk_converting (r\<lparr>nxt := n\<rparr>) = lk_converting r"
  by (cases r) simp

definition zero_drid :: drid_t where
  "zero_drid = \<lparr>key1 = 0, key2 = 0, key3 = 0, key4 = 0\<rparr>"

definition zero_master_res :: drc_master_res_t where
  "zero_master_res = \<lparr>nxt = 0, res_idx = 0, part_id = 0, node = \<lparr>node_prev = 0, node_next = 0, node_idx = 0\<rparr>,
     res_id = zero_drid, lk_mode = 0, granted_map = 0, lk_converting = \<lparr>nxt = 0, req_info = zero_req_info\<rparr>,
     lk_convert_q = \<lparr>list_first = 0, list_last = 0, list_count = 0\<rparr>\<rparr>"

record lock_claim_info_t =
  lk_new_id :: uint8
  lk_claim_mode :: uint8
  lk_claim_sid :: uint16

record drc_lock_reply =
  is_granted :: bool
  old_owner_map :: uint64

record drc_lock_ctx = drc_page_ctx +
  global_lock_res :: "(drid_t, drc_master_res_t) drc_global_res"

definition is_same_lock :: "drid_t \<Rightarrow> drc_master_res_t \<Rightarrow> bool" where
  "is_same_lock lock_id lock_res \<longleftrightarrow>
     key1 (res_id lock_res) = key1 lock_id \<and> key2 (res_id lock_res) = key2 lock_id \<and>
     key3 (res_id lock_res) = key3 lock_id \<and> key4 (res_id lock_res) = key4 lock_id"

abbreviation lk_cvt_inst :: "drc_master_res_t \<Rightarrow> uint8" where
  "lk_cvt_inst r \<equiv> inst_id (req_info (lk_converting r))"

abbreviation set_lk_req :: "drc_req_info_t \<Rightarrow> drc_master_res_t \<Rightarrow> drc_master_res_t" where
  "set_lk_req q r \<equiv> r\<lparr>lk_converting := (lk_converting r)\<lparr>req_info := q\<rparr>\<rparr>"

text \<open>The rows of the matrix; an index past its end is undefined.\<close>

definition g_mode_compatible_matrix :: "uint8 \<Rightarrow> uint8 \<Rightarrow> bool option" where
  "g_mode_compatible_matrix req cur =
     (if req < 3 \<and> cur < 3
      then Some ([[True, True, True], [True, True, False], [True, False, False]] ! unat req ! unat cur)
      else None)"

abbreviation (input) DR_TYPE_TABLE :: uint16 where "DR_TYPE_TABLE \<equiv> 3"

section \<open>Access to a lock\<close>

definition lk_bucket :: "'c drc_lock_ctx_scheme \<Rightarrow> drid_t \<Rightarrow> uint32 option" where
  "lk_bucket ctx lock_id = drc_get_res_map_bucket (res_map (global_lock_res ctx)) (drid_bytes lock_id)"

definition lk_lookup :: "'c drc_lock_ctx_scheme \<Rightarrow> drid_t \<Rightarrow> uint32 option option" where
  "lk_lookup ctx lock_id =
     do { bucket \<leftarrow> lk_bucket ctx lock_id;
          drc_res_map_lookup (res_map (global_lock_res ctx)) bucket lock_id }"

definition drc_get_global_lock_resx_by_id :: "'c drc_lock_ctx_scheme \<Rightarrow> uint32 \<Rightarrow> drc_master_res_t option" where
  "drc_get_global_lock_resx_by_id ctx x = DRC_GET_RES_ADDR_BY_ID (res_pool (res_map (global_lock_res ctx))) x"

abbreviation lk_get :: "'c drc_lock_ctx_scheme \<Rightarrow> uint32 \<Rightarrow> drc_master_res_t option" where
  "lk_get \<equiv> drc_get_global_lock_resx_by_id"

definition lk_set_pool ::
  "'c drc_lock_ctx_scheme \<Rightarrow> drc_master_res_t drc_res_pool \<Rightarrow> 'c drc_lock_ctx_scheme" where
  "lk_set_pool ctx pool = ctx\<lparr>global_lock_res := (global_lock_res ctx)
     \<lparr>res_map := (res_map (global_lock_res ctx))\<lparr>res_pool := pool\<rparr>\<rparr>\<rparr>"

definition lk_put ::
  "'c drc_lock_ctx_scheme \<Rightarrow> uint32 \<Rightarrow> drc_master_res_t \<Rightarrow> 'c drc_lock_ctx_scheme option" where
  "lk_put ctx x r =
     do { pool \<leftarrow> drc_res_put (res_pool (res_map (global_lock_res ctx))) x r; Some (lk_set_pool ctx pool) }"

definition drc_get_global_lock_res_parts :: "'c drc_lock_ctx_scheme \<Rightarrow> uint16 \<Rightarrow> drc_list" where
  "drc_get_global_lock_res_parts ctx part = res_parts (global_lock_res ctx) part"

text \<open>The partition of a lock, and its master; \<open>part_master\<close> is \<open>DRC_PART_MASTER_ID\<close>.\<close>

definition drc_lock_partid :: "drid_t \<Rightarrow> uint32 option" where
  "drc_lock_partid lock_id = drc_resource_id_hash (drid_bytes lock_id) DRC_MAX_PART_NUM"

definition drc_get_lock_master_id :: "(uint16 \<Rightarrow> uint8) \<Rightarrow> drid_t \<Rightarrow> uint8 option" where
  "drc_get_lock_master_id part_master lock_id =
     do { part \<leftarrow> drc_lock_partid lock_id; Some (part_master (ucast part)) }"

section \<open>Creating and releasing\<close>

definition drc_new_lock_res :: "drid_t \<Rightarrow> uint32 \<Rightarrow> uint32 \<Rightarrow> drc_master_res_t \<Rightarrow> drc_master_res_t" where
  "drc_new_lock_res lock_id part i r =
     r\<lparr>res_idx := i, lk_mode := DRC_LOCK_NULL, res_id := lock_id, nxt := CT_INVALID_ID32,
       lk_converting := \<lparr>nxt = CT_INVALID_ID32, req_info = g_invalid_req_info\<rparr>, granted_map := 0,
       lk_convert_q := DRC_LIST_INIT, part_id := ucast part, node := (node r)\<lparr>node_idx := i\<rparr>\<rparr>"

definition drc_create_lock_res ::
  "'c drc_lock_ctx_scheme \<Rightarrow> drid_t \<Rightarrow> uint32 \<Rightarrow> (status_t \<times> 'c drc_lock_ctx_scheme) option" where
  "drc_create_lock_res ctx lock_id bucket =
     do { (item_idx, pool) \<leftarrow> drc_res_pool_alloc_item (res_pool (res_map (global_lock_res ctx)));
          if item_idx = CT_INVALID_ID32 then Some (CT_ERROR, lk_set_pool ctx pool)
          else do {
            let ctx = lk_set_pool ctx pool;
            r \<leftarrow> lk_get ctx item_idx;
            part \<leftarrow> drc_lock_partid lock_id;
            g \<leftarrow> drc_res_attach (global_lock_res ctx) bucket item_idx (drc_new_lock_res lock_id part item_idx r);
            g \<leftarrow> drc_part_link g item_idx;
            Some (CT_SUCCESS, ctx\<lparr>global_lock_res := g\<rparr>) } }"

definition drc_release_lock_res ::
  "'c drc_lock_ctx_scheme \<Rightarrow> uint32 \<Rightarrow> (status_t \<times> 'c drc_lock_ctx_scheme) option" where
  "drc_release_lock_res ctx x =
     do { r \<leftarrow> lk_get ctx x;
          if lk_cvt_inst r \<noteq> CT_INVALID_ID8 \<or> granted_map r > 0 then Some (CT_ERROR, ctx)
          else do {
            g \<leftarrow> drc_part_unlink (global_lock_res ctx) x;
            ctx \<leftarrow> lk_put (ctx\<lparr>global_lock_res := g\<rparr>) x zero_master_res;
            pool \<leftarrow> drc_res_pool_free_item (res_pool (res_map (global_lock_res ctx))) (res_idx r);
            Some (CT_SUCCESS, lk_set_pool ctx pool) } }"

text \<open>The lines of \<open>drc_release_lock_owner\<close> and \<open>drc_recycle_dls_master\<close> that drop a lock nobody uses.\<close>

definition drc_drop_lock_res ::
  "'c drc_lock_ctx_scheme \<Rightarrow> uint32 \<Rightarrow> drid_t \<Rightarrow> uint32 \<Rightarrow> 'c drc_lock_ctx_scheme option" where
  "drc_drop_lock_res ctx bucket lock_id x =
     do { m \<leftarrow> drc_res_map_remove (res_map (global_lock_res ctx)) bucket lock_id;
          (_, ctx) \<leftarrow> drc_release_lock_res (ctx\<lparr>global_lock_res := (global_lock_res ctx)\<lparr>res_map := m\<rparr>\<rparr>) x;
          Some ctx }"

definition dls_clear_granted_map_for_inst ::
  "'c drc_lock_ctx_scheme \<Rightarrow> drid_t \<Rightarrow> uint8 \<Rightarrow> 'c drc_lock_ctx_scheme option" where
  "dls_clear_granted_map_for_inst ctx lock_id inst =
     do { found \<leftarrow> lk_lookup ctx lock_id;
          case found of
            None \<Rightarrow> Some ctx
          | Some x \<Rightarrow>
              do { r \<leftarrow> lk_get ctx x;
                   g \<leftarrow> drc_bitmap64_clear (granted_map r) inst;
                   let r = r\<lparr>granted_map := g\<rparr>;
                   lk_put ctx x (if granted_map r = 0 then r\<lparr>lk_mode := DRC_LOCK_NULL\<rparr> else r) } }"

section \<open>Request\<close>

definition drc_request_lock_owner_add_req_into_cvt_q ::
  "'c drc_lock_ctx_scheme \<Rightarrow> uint32 \<Rightarrow> drc_req_info_t \<Rightarrow> (status_t \<times> 'c drc_lock_ctx_scheme) option" where
  "drc_request_lock_owner_add_req_into_cvt_q ctx x req =
     do { r \<leftarrow> lk_get ctx x;
          (ret, pool, q) \<leftarrow> drc_cvt_q_enqueue (lock_item_pool ctx) (lk_convert_q r) req;
          ctx \<leftarrow> lk_put (ctx\<lparr>lock_item_pool := pool\<rparr>) x (r\<lparr>lk_convert_q := q\<rparr>);
          Some (ret, ctx) }"

text \<open>Whether the mode of the request goes with the mode of the lock, and whom to ask when not.\<close>

definition drc_lock_answer :: "drc_req_info_t \<Rightarrow> drc_master_res_t \<Rightarrow> drc_lock_reply option" where
  "drc_lock_answer req r =
     do { ok \<leftarrow> g_mode_compatible_matrix (req_mode req) (lk_mode r);
          Some (if ok then \<lparr>is_granted = True, old_owner_map = 0\<rparr>
                else \<lparr>is_granted = False, old_owner_map = granted_map r\<rparr>) }"

text \<open>The lines both request handlers have for a lock that is not known yet.\<close>

definition drc_lock_create_converting ::
  "'c drc_lock_ctx_scheme \<Rightarrow> drid_t \<Rightarrow> drc_req_info_t \<Rightarrow> (status_t \<times> 'c drc_lock_ctx_scheme) option" where
  "drc_lock_create_converting ctx lock_id req =
     do { bucket \<leftarrow> lk_bucket ctx lock_id;
          (ret, ctx) \<leftarrow> drc_create_lock_res ctx lock_id bucket;
          if ret \<noteq> CT_SUCCESS then Some (CT_ERROR, ctx)
          else do {
            found \<leftarrow> lk_lookup ctx lock_id;
            x \<leftarrow> found;
            r \<leftarrow> lk_get ctx x;
            ctx \<leftarrow> lk_put ctx x (set_lk_req req r);
            Some (CT_SUCCESS, ctx) } }"

text \<open>
  \<open>drc_request_lock_owner\<close> up to its polling loop: either the handler returns, or the request
  is in the queue of resource \<open>x\<close>.
\<close>

datatype 'c lock_request_step = LockDone status_t drc_lock_reply 'c | LockWait uint32 'c

definition drc_request_lock_owner_begin ::
  "drc_env \<Rightarrow> 'c drc_lock_ctx_scheme \<Rightarrow> drid_t \<Rightarrow> drc_req_info_t \<Rightarrow> drc_lock_reply \<Rightarrow> uint64
     \<Rightarrow> 'c drc_lock_ctx_scheme lock_request_step option" where
  "drc_request_lock_owner_begin e ctx lock_id req out version =
     do { _ \<leftarrow> lk_bucket ctx lock_id;
      if DRC_STOP_DLS_REQ_FOR_REFORMING e version lock_id then Some (LockDone CT_ERROR out ctx)
      else do {
        found \<leftarrow> lk_lookup ctx lock_id;
        case found of
          None \<Rightarrow>
            do { (ret, ctx) \<leftarrow> drc_lock_create_converting ctx lock_id req;
                 knl_panic (ret = CT_SUCCESS);
                 Some (LockDone CT_SUCCESS \<lparr>is_granted = True, old_owner_map = 0\<rparr> ctx) }
        | Some x \<Rightarrow>
            do { r \<leftarrow> lk_get ctx x;
                 if lk_mode r > DRC_LOCK_EXCLUSIVE then Some (LockDone CT_ERROR out ctx)
                 else if lk_cvt_inst r = CT_INVALID_ID8 then
                   do { out \<leftarrow> drc_lock_answer req r;
                        knl_panic (list_count (lk_convert_q r) = 0);
                        ctx \<leftarrow> lk_put ctx x (set_lk_req req r);
                        Some (LockDone CT_SUCCESS out ctx) }
                 else do {
                   owner \<leftarrow> drc_bitmap64_exist (granted_map r) (inst_id req);
                   if owner then Some (LockDone CT_ERROR (out\<lparr>is_granted := False\<rparr>) ctx)
                   else do {
                     (ret, ctx) \<leftarrow> drc_request_lock_owner_add_req_into_cvt_q ctx x req;
                     if ret \<noteq> CT_SUCCESS then Some (LockDone CT_ERROR out ctx)
                     else Some (LockWait x ctx) } } } } }"

partial_function (option) drc_lock_wait_loop ::
  "'c drc_lock_ctx_scheme drc_world \<Rightarrow> nat \<Rightarrow> 'c drc_lock_ctx_scheme \<Rightarrow> drid_t \<Rightarrow> uint32 \<Rightarrow> drc_req_info_t
     \<Rightarrow> drc_lock_reply \<Rightarrow> uint64 \<Rightarrow> (status_t \<times> drc_lock_reply \<times> 'c drc_lock_ctx_scheme) option" where
  "drc_lock_wait_loop w n ctx lock_id x req out version =
     (let ctx = others w n ctx in
      if DRC_STOP_DLS_REQ_FOR_REFORMING (env w (Suc n)) version lock_id then Some (CT_ERROR, out, ctx)
      else do {
        r \<leftarrow> lk_get ctx x;
        knl_panic (lk_cvt_inst r \<noteq> CT_INVALID_ID8);
        if inst_id req = lk_cvt_inst r then
          do { out \<leftarrow> drc_lock_answer req r; Some (CT_SUCCESS, out, ctx) }
        else drc_lock_wait_loop w (Suc n) ctx lock_id x req out version })"

definition drc_request_lock_owner ::
  "'c drc_lock_ctx_scheme drc_world \<Rightarrow> 'c drc_lock_ctx_scheme \<Rightarrow> drid_t \<Rightarrow> drc_req_info_t \<Rightarrow> drc_lock_reply
     \<Rightarrow> uint64 \<Rightarrow> (status_t \<times> drc_lock_reply \<times> 'c drc_lock_ctx_scheme) option" where
  "drc_request_lock_owner w ctx lock_id req out version =
     do { step \<leftarrow> drc_request_lock_owner_begin (env w 0) ctx lock_id req out version;
          case step of
            LockDone ret out ctx \<Rightarrow> Some (ret, out, ctx)
          | LockWait x ctx \<Rightarrow> drc_lock_wait_loop w 0 ctx lock_id x req out version }"

definition drc_try_request_lock_owner ::
  "(nat \<Rightarrow> drc_env) \<Rightarrow> 'c drc_lock_ctx_scheme \<Rightarrow> drid_t \<Rightarrow> drc_req_info_t \<Rightarrow> drc_lock_reply \<Rightarrow> uint64
     \<Rightarrow> (status_t \<times> drc_lock_reply \<times> 'c drc_lock_ctx_scheme) option" where
  "drc_try_request_lock_owner e ctx lock_id req out version =
     (if env_remaster_status (e 0) < REMASTER_DONE then Some (CT_ERROR, out, ctx)
      else do {
       _ \<leftarrow> lk_bucket ctx lock_id;
       if DRC_STOP_DLS_REQ_FOR_REFORMING (e 1) version lock_id then Some (CT_ERROR, out, ctx)
       else do {
        found \<leftarrow> lk_lookup ctx lock_id;
        case found of
          None \<Rightarrow>
            do { (ret, ctx) \<leftarrow> drc_lock_create_converting ctx lock_id req;
                 if ret \<noteq> CT_SUCCESS then Some (CT_ERROR, out, ctx)
                 else Some (CT_SUCCESS, \<lparr>is_granted = True, old_owner_map = 0\<rparr>, ctx) }
        | Some x \<Rightarrow>
            do { r \<leftarrow> lk_get ctx x;
                 if lk_mode r > DRC_LOCK_EXCLUSIVE then Some (CT_ERROR, out, ctx)
                 else if lk_cvt_inst r = CT_INVALID_ID8 then
                   do { ok \<leftarrow> g_mode_compatible_matrix (req_mode req) (lk_mode r);
                        knl_panic (list_count (lk_convert_q r) = 0);
                        ctx \<leftarrow> lk_put ctx x (set_lk_req req r);
                        Some (CT_SUCCESS, \<lparr>is_granted = ok, old_owner_map = granted_map r\<rparr>, ctx) }
                 else Some (CT_ERROR, out, ctx) } } })"

section \<open>Conversion, cancel, claim\<close>

definition drc_convert_lock_owner ::
  "item_pool_t \<Rightarrow> drc_master_res_t \<Rightarrow> (item_pool_t \<times> drc_master_res_t) option" where
  "drc_convert_lock_owner pool r =
     (if list_count (lk_convert_q r) = 0 then
        Some (pool, set_lk_req ((req_info (lk_converting r))\<lparr>inst_id := CT_INVALID_ID8\<rparr>) r)
      else do {
        (lock_item, pool, q) \<leftarrow> drc_cvt_q_dequeue pool (lk_convert_q r);
        let r = r\<lparr>lk_converting := lock_item, lk_convert_q := q\<rparr>;
        knl_panic (lk_cvt_inst r \<noteq> CT_INVALID_ID8);
        Some (pool, r) })"

definition drc_cancel_lock_owner_request_nolock_part ::
  "'c drc_lock_ctx_scheme \<Rightarrow> uint8 \<Rightarrow> drid_t \<Rightarrow> uint32 \<Rightarrow> (status_t \<times> 'c drc_lock_ctx_scheme) option" where
  "drc_cancel_lock_owner_request_nolock_part ctx inst lock_id bucket =
     do { found \<leftarrow> drc_res_map_lookup (res_map (global_lock_res ctx)) bucket lock_id;
          case found of
            None \<Rightarrow> Some (CT_ERROR, ctx)
          | Some x \<Rightarrow>
              do { r \<leftarrow> lk_get ctx x;
                   if lk_cvt_inst r \<noteq> inst then Some (CT_SUCCESS, ctx)
                   else do {
                     (pool, r) \<leftarrow> drc_convert_lock_owner (lock_item_pool ctx) r;
                     ctx \<leftarrow> lk_put (ctx\<lparr>lock_item_pool := pool\<rparr>) x r;
                     Some (CT_SUCCESS, ctx) } } }"

text \<open>The two callers differ in the spin locks they take.\<close>

definition drc_cancel_lock_owner_request ::
  "'c drc_lock_ctx_scheme \<Rightarrow> uint8 \<Rightarrow> drid_t \<Rightarrow> (status_t \<times> 'c drc_lock_ctx_scheme) option" where
  "drc_cancel_lock_owner_request ctx inst lock_id =
     do { bucket \<leftarrow> lk_bucket ctx lock_id;
          drc_cancel_lock_owner_request_nolock_part ctx inst lock_id bucket }"

definition drc_cancel_lock_owner_request_nolock ::
  "'c drc_lock_ctx_scheme \<Rightarrow> uint8 \<Rightarrow> drid_t \<Rightarrow> (status_t \<times> 'c drc_lock_ctx_scheme) option" where
  "drc_cancel_lock_owner_request_nolock ctx inst lock_id =
     do { bucket \<leftarrow> lk_bucket ctx lock_id;
          drc_cancel_lock_owner_request_nolock_part ctx inst lock_id bucket }"

definition drc_lock_bucket_and_stat_with_version_check ::
  "drc_env \<Rightarrow> 'c drc_lock_ctx_scheme \<Rightarrow> drid_t \<Rightarrow> uint64 \<Rightarrow> bool \<Rightarrow> (status_t \<times> uint32) option" where
  "drc_lock_bucket_and_stat_with_version_check e ctx lock_id version is_remaster =
     do { bucket \<leftarrow> lk_bucket ctx lock_id;
          Some (if DRC_STOP_DLS_REQ_FOR_REFORMING e version lock_id \<and> \<not> is_remaster then CT_ERROR else CT_SUCCESS,
                bucket) }"

text \<open>What a claim does to the resource before the next request is served.\<close>

definition drc_grant_claimed :: "lock_claim_info_t \<Rightarrow> drc_master_res_t \<Rightarrow> drc_master_res_t option" where
  "drc_grant_claimed claim r =
     do { knl_panic (lk_new_id claim = lk_cvt_inst r \<and> lk_claim_mode claim = req_mode (req_info (lk_converting r)));
          let r = (if lk_claim_mode claim = DRC_LOCK_EXCLUSIVE then r\<lparr>granted_map := 0\<rparr> else r);
          ex \<leftarrow> drc_bitmap64_exist (granted_map r) (lk_new_id claim);
          knl_panic (\<not> ex \<or> drid_type (res_id r) = DR_TYPE_TABLE);
          g \<leftarrow> drc_bitmap64_set (granted_map r) (lk_new_id claim);
          Some (r\<lparr>granted_map := g, lk_mode := req_mode (req_info (lk_converting r))\<rparr>) }"

definition drc_claim_lock_owner ::
  "drc_env \<Rightarrow> 'c drc_lock_ctx_scheme \<Rightarrow> drid_t \<Rightarrow> lock_claim_info_t \<Rightarrow> uint64 \<Rightarrow> bool
     \<Rightarrow> (status_t \<times> 'c drc_lock_ctx_scheme) option" where
  "drc_claim_lock_owner e ctx lock_id claim version is_remaster =
     do { (ret, bucket) \<leftarrow> drc_lock_bucket_and_stat_with_version_check e ctx lock_id version is_remaster;
          if ret \<noteq> CT_SUCCESS then Some (CT_ERROR, ctx)
          else do {
            found \<leftarrow> drc_res_map_lookup (res_map (global_lock_res ctx)) bucket lock_id;
            x \<leftarrow> found;
            r \<leftarrow> lk_get ctx x;
            r \<leftarrow> drc_grant_claimed claim r;
            (pool, r) \<leftarrow> drc_convert_lock_owner (lock_item_pool ctx) r;
            ctx \<leftarrow> lk_put (ctx\<lparr>lock_item_pool := pool\<rparr>) x r;
            Some (CT_SUCCESS, ctx) } }"

section \<open>Release, clean, recycle\<close>

definition drc_release_lock_owner ::
  "'c drc_lock_ctx_scheme \<Rightarrow> uint8 \<Rightarrow> drid_t \<Rightarrow> (status_t \<times> 'c drc_lock_ctx_scheme) option" where
  "drc_release_lock_owner ctx old_id lock_id =
     do { bucket \<leftarrow> lk_bucket ctx lock_id;
          found \<leftarrow> drc_res_map_lookup (res_map (global_lock_res ctx)) bucket lock_id;
          case found of
            None \<Rightarrow> Some (CT_ERROR, ctx)
          | Some x \<Rightarrow>
              do { r \<leftarrow> lk_get ctx x;
                   ex \<leftarrow> drc_bitmap64_exist (granted_map r) old_id;
                   if \<not> ex then Some (CT_ERROR, ctx)
                   else do {
                     g \<leftarrow> drc_bitmap64_clear (granted_map r) old_id;
                     let r = r\<lparr>granted_map := g\<rparr>;
                     let r = (if granted_map r = 0 then r\<lparr>lk_mode := DRC_LOCK_NULL\<rparr> else r);
                     ctx \<leftarrow> lk_put ctx x r;
                     if granted_map r > 0 \<or> lk_cvt_inst r \<noteq> CT_INVALID_ID8 then Some (CT_SUCCESS, ctx)
                     else do { ctx \<leftarrow> drc_drop_lock_res ctx bucket lock_id x;
                               Some (CT_SUCCESS, ctx) } } } }"

text \<open>One round of \<open>drc_clean_lock_owner_by_part\<close>, and its loop over the partition list.\<close>

definition drc_clean_lock_res_of_inst ::
  "drc_env \<Rightarrow> 'c drc_lock_ctx_scheme \<Rightarrow> uint8 \<Rightarrow> uint32 \<Rightarrow> 'c drc_lock_ctx_scheme option" where
  "drc_clean_lock_res_of_inst e ctx inst x =
     do { r \<leftarrow> lk_get ctx x;
          (pool, q, msgs) \<leftarrow> drc_clean_convert_q (self_inst e) inst (lock_item_pool ctx) (lk_convert_q r);
          let r = r\<lparr>lk_convert_q := q\<rparr>;
          ctx \<leftarrow> lk_put (ctx\<lparr>lock_item_pool := pool, sent_errors := sent_errors ctx @ msgs\<rparr>) x r;
          ctx \<leftarrow> (if lk_cvt_inst r = inst
                 then map_option snd (drc_cancel_lock_owner_request_nolock ctx inst (res_id r))
                 else Some ctx);
          r \<leftarrow> lk_get ctx x;
          ex \<leftarrow> drc_bitmap64_exist (granted_map r) inst;
          if ex then map_option snd (drc_release_lock_owner ctx inst (res_id r)) else Some ctx }"

fun drc_clean_lock_owner_loop ::
  "nat \<Rightarrow> (nat \<Rightarrow> drc_env) \<Rightarrow> 'c drc_lock_ctx_scheme \<Rightarrow> uint8 \<Rightarrow> uint32 \<Rightarrow> 'c drc_lock_ctx_scheme option" where
  "drc_clean_lock_owner_loop 0 e ctx inst lock_idx = Some ctx"
| "drc_clean_lock_owner_loop (Suc k) e ctx inst lock_idx =
     (if env_remaster_status (e k) = REMASTER_FAIL then Some ctx
      else do { r \<leftarrow> lk_get ctx lock_idx;
                _ \<leftarrow> lk_bucket ctx (res_id r);
                ctx \<leftarrow> drc_clean_lock_res_of_inst (e k) ctx inst lock_idx;
                drc_clean_lock_owner_loop k e ctx inst (node_next (node r)) })"

definition drc_clean_lock_owner_by_part ::
  "(nat \<Rightarrow> drc_env) \<Rightarrow> 'c drc_lock_ctx_scheme \<Rightarrow> uint8 \<Rightarrow> drc_list \<Rightarrow> 'c drc_lock_ctx_scheme option" where
  "drc_clean_lock_owner_by_part e ctx inst part_list =
     drc_clean_lock_owner_loop (unat (list_count part_list)) e ctx inst (list_first part_list)"

definition drc_recycle_dls_master ::
  "drc_env \<Rightarrow> 'c drc_lock_ctx_scheme \<Rightarrow> drid_t \<Rightarrow> uint64 \<Rightarrow> uint8
     \<Rightarrow> (status_t \<times> 'c drc_lock_ctx_scheme) option" where
  "drc_recycle_dls_master e ctx lock_id version inst =
     do { bucket \<leftarrow> lk_bucket ctx lock_id;
          if DRC_STOP_DLS_REQ_FOR_REFORMING e version lock_id then Some (CT_ERROR, ctx)
          else do {
            found \<leftarrow> drc_res_map_lookup (res_map (global_lock_res ctx)) bucket lock_id;
            case found of
              None \<Rightarrow> Some (CT_SUCCESS, ctx)
            | Some x \<Rightarrow>
                do { r \<leftarrow> lk_get ctx x;
                     g \<leftarrow> drc_bitmap64_clear (granted_map r) inst;
                     let r = r\<lparr>granted_map := g\<rparr>;
                     ctx \<leftarrow> lk_put ctx x r;
                     if lk_cvt_inst r = CT_INVALID_ID8 \<and> granted_map r = 0 then
                       do { ctx \<leftarrow> drc_drop_lock_res ctx bucket lock_id x; Some (CT_SUCCESS, ctx) }
                     else Some (CT_SUCCESS, ctx) } } }"

end
