(* ===== verification/Drc_Lock_Inv.thy ===== *)
theory Drc_Lock_Inv
  imports Drc_Lock Drc_Page_Inv
begin

text \<open>
  The invariant of the lock catalogue and its preservation. A lock is held by at most one
  instance in exclusive mode, is not held at all in null mode, and nobody waits for it unless
  someone is converting; the convert queues of the locks and the free lock items are disjoint.
  The set \<open>S\<close> of the lock items that are free or queued on a lock does not change, and nothing
  outside it is touched, which is what the page catalogue needs of the lock handlers.
\<close>

section \<open>Families of queues in one pool\<close>

definition queues_ok ::
  "item_pool_t \<Rightarrow> (uint32 \<Rightarrow> drc_lock_q_t) \<Rightarrow> uint32 set \<Rightarrow> (uint32 \<Rightarrow> uint32 list) \<Rightarrow> uint32 list \<Rightarrow> bool" where
  "queues_ok pool q L qs lfl \<longleftrightarrow>
     pool_inv pool lfl \<and> (\<forall>x \<in> L. queue_inv pool (q x) (qs x) \<and> set (qs x) \<inter> set lfl = {}) \<and>
     (\<forall>x \<in> L. \<forall>y \<in> L. x \<noteq> y \<longrightarrow> set (qs x) \<inter> set (qs y) = {})"

abbreviation q_items :: "uint32 set \<Rightarrow> (uint32 \<Rightarrow> uint32 list) \<Rightarrow> uint32 list \<Rightarrow> uint32 set" where
  "q_items L qs lfl \<equiv> set lfl \<union> (\<Union>x \<in> L. set (qs x))"

lemma queues_okD:
  assumes "queues_ok pool q L qs lfl"
  shows "pool_inv pool lfl" "x \<in> L \<Longrightarrow> qrep pool lfl (q x) (qs x)"
    "x \<in> L \<Longrightarrow> y \<in> L \<Longrightarrow> x \<noteq> y \<Longrightarrow> set (qs x) \<inter> set (qs y) = {}"
proof -
  show "pool_inv pool lfl" using assms by (simp add: queues_ok_def)
  show "x \<in> L \<Longrightarrow> qrep pool lfl (q x) (qs x)" using assms by (auto simp: queues_ok_def qrep_def)
  show "x \<in> L \<Longrightarrow> y \<in> L \<Longrightarrow> x \<noteq> y \<Longrightarrow> set (qs x) \<inter> set (qs y) = {}" using assms by (simp add: queues_ok_def)
qed

lemma queues_cong:
  assumes "queues_ok pool q L qs lfl" "\<And>x. x \<in> L' \<Longrightarrow> x \<in> L \<and> q' x = q x \<and> qs' x = qs x"
  shows "queues_ok pool q' L' qs' lfl"
proof -
  have "queue_inv pool (q' x) (qs' x) \<and> set (qs' x) \<inter> set lfl = {}" if "x \<in> L'" for x
    using assms(1) assms(2)[OF that] by (simp add: queues_ok_def)
  moreover have "set (qs' x) \<inter> set (qs' y) = {}" if "x \<in> L'" "y \<in> L'" "x \<noteq> y" for x y
    using assms(2)[OF that(1)] assms(2)[OF that(2)] queues_okD(3)[OF assms(1), of x y] that(3) by simp
  ultimately show ?thesis using queues_okD(1)[OF assms(1)] by (simp add: queues_ok_def)
qed

text \<open>A resource that joins the family has an empty queue.\<close>

lemma queues_insert:
  assumes "queues_ok pool q L qs lfl" "\<And>x. x \<in> L \<Longrightarrow> q' x = q x" "q' y = DRC_LIST_INIT" "y \<notin> L"
  shows "queues_ok pool q' (insert y L) (qs(y := [])) lfl"
proof -
  have "queues_ok pool q' L (qs(y := [])) lfl"
    using assms(2,4) by (intro queues_cong[OF assms(1)]) auto
  then show ?thesis using assms(3) by (simp add: queues_ok_def)
qed

lemma queues_step:
  assumes "queues_ok pool q L qs lfl" "x \<in> L" "qstep pool lfl (qs x) pool' lfl' ids" "qrep pool' lfl' q0 ids"
  shows "queues_ok pool' (q(x := q0)) L (qs(x := ids)) lfl'"
    "y \<in> L \<Longrightarrow> y \<noteq> x \<Longrightarrow> reqs pool' (qs y) = reqs pool (qs y)"
    "q_items L (qs(x := ids)) lfl' = q_items L qs lfl"
    "i \<notin> q_items L qs lfl \<Longrightarrow> items pool' i = items pool i"
    "item_num pool' = item_num pool"
proof -
  have dj: "set (qs y) \<inter> (set lfl \<union> set (qs x)) = {}" if "y \<in> L" "y \<noteq> x" for y
    using queues_okD(2)[OF assms(1) that(1)] queues_okD(3)[OF assms(1) that(1) assms(2) that(2)] by (auto simp: qrep_def)
  have qy: "queue_inv pool (q y) (qs y)" if "y \<in> L" for y using queues_okD(2)[OF assms(1) that] by (simp add: qrep_def)
  note fr = qstep_frame[OF assms(3) qy dj]
  have sets: "set lfl' \<union> set ids = set lfl \<union> set (qs x)" using assms(3) by (simp add: qstep_def)
  have xd: "set (qs x) \<inter> set lfl = {}" using queues_okD(2)[OF assms(1,2)] by (auto simp: qrep_def)
  have new: "set ids \<inter> set lfl' = {}" "queue_inv pool' q0 ids" "pool_inv pool' lfl'"
    using assms(4) by (auto simp: qrep_def)
  have "queue_inv pool' ((q(x := q0)) y) ((qs(x := ids)) y) \<and> set ((qs(x := ids)) y) \<inter> set lfl' = {}" if "y \<in> L" for y
    using new fr[of y] that by (cases "y = x") auto
  moreover have "set ((qs(x := ids)) y) \<inter> set ((qs(x := ids)) z) = {}" if "y \<in> L" "z \<in> L" "y \<noteq> z" for y z
    using dj[of y] dj[of z] queues_okD(3)[OF assms(1) that] that sets by (cases "y = x"; cases "z = x") auto
  ultimately show "queues_ok pool' (q(x := q0)) L (qs(x := ids)) lfl'" using new by (simp add: queues_ok_def)
  show "y \<in> L \<Longrightarrow> y \<noteq> x \<Longrightarrow> reqs pool' (qs y) = reqs pool (qs y)" by (rule fr(3))
  have split: "(\<Union>y \<in> L. set (f y)) = set (f x) \<union> (\<Union>y \<in> L - {x}. set (f y))" for f :: "uint32 \<Rightarrow> uint32 list"
    using assms(2) by auto
  have "(\<Union>y \<in> L - {x}. set ((qs(x := ids)) y)) = (\<Union>y \<in> L - {x}. set (qs y))" by auto
  then show e: "q_items L (qs(x := ids)) lfl' = q_items L qs lfl"
    unfolding split[of qs] split[of "qs(x := ids)"] using sets by auto
  show "i \<notin> q_items L qs lfl \<Longrightarrow> items pool' i = items pool i" "item_num pool' = item_num pool"
    using assms(2,3) by (auto simp: qstep_def)
qed

section \<open>The invariant\<close>

interpretation lk: keyed_part_res res_id
  by unfold_locales simp_all

definition lock_hash :: "uint32 \<Rightarrow> drid_t \<Rightarrow> uint32" where
  "lock_hash n k = drc_resource_id_hash_loop 0 (drid_bytes k) mod n"

abbreviation lock_map :: "'c drc_lock_ctx_scheme \<Rightarrow> (drid_t, drc_master_res_t) drc_res_map" where
  "lock_map c \<equiv> res_map (global_lock_res c)"

abbreviation lock :: "'c drc_lock_ctx_scheme \<Rightarrow> uint32 \<Rightarrow> drc_master_res_t" where
  "lock c x \<equiv> item (lock_map c) x"

abbreviation lock_num :: "'c drc_lock_ctx_scheme \<Rightarrow> uint32" where
  "lock_num c \<equiv> item_num (res_pool (lock_map c))"

lemma is_same_lock_iff: "is_same_lock k r \<longleftrightarrow> res_id r = k"
  by (auto simp: is_same_lock_def intro: drid_t.equality)

definition lk_inv :: "drc_master_res_t \<Rightarrow> drc_req_info_t list \<Rightarrow> bool" where
  "lk_inv r rs \<longleftrightarrow>
     (lk_cvt_inst r = CT_INVALID_ID8 \<longrightarrow> rs = []) \<and>
     (lk_cvt_inst r \<noteq> CT_INVALID_ID8 \<longrightarrow> req_ok (req_info (lk_converting r))) \<and>
     (\<forall>q \<in> set rs. req_ok q) \<and> lk_mode r \<le> DRC_LOCK_EXCLUSIVE \<and>
     (granted_map r \<noteq> 0 \<longrightarrow> lk_mode r \<noteq> DRC_LOCK_NULL) \<and>
     (lk_mode r = DRC_LOCK_EXCLUSIVE \<longrightarrow> (\<exists>i. insts (granted_map r) \<subseteq> {i}))"

definition lock_ident :: "drc_master_res_t \<Rightarrow> drc_master_res_t \<Rightarrow> bool" where
  "lock_ident r r' \<longleftrightarrow> nxt r' = nxt r \<and> res_idx r' = res_idx r \<and> part_id r' = part_id r \<and> node r' = node r \<and> res_id r' = res_id r"

lemma nxt_lk_converting [simp]: "nxt (r\<lparr>lk_converting := cv\<rparr>) = nxt r" for r :: drc_master_res_t
  by (cases r) simp

lemma lock_ident_refl [simp]: "lock_ident r r"
  by (simp add: lock_ident_def)

lemma lock_ident_upd [simp]:
  "lock_ident r (r'\<lparr>lk_mode := m\<rparr>) \<longleftrightarrow> lock_ident r r'" "lock_ident r (r'\<lparr>granted_map := g\<rparr>) \<longleftrightarrow> lock_ident r r'"
  "lock_ident r (r'\<lparr>lk_converting := cv\<rparr>) \<longleftrightarrow> lock_ident r r'" "lock_ident r (r'\<lparr>lk_convert_q := q\<rparr>) \<longleftrightarrow> lock_ident r r'"
  by (simp_all add: lock_ident_def)

text \<open>
  \<open>lctx c fl L pl lfl qs\<close>: \<open>fl\<close> and \<open>lfl\<close> are the free lock resources and lock items, \<open>L\<close> the
  linked locks, \<open>pl p\<close> those of partition \<open>p\<close> in list order, \<open>qs x\<close> the queue of lock \<open>x\<close>.
\<close>

definition lctx ::
  "'c drc_lock_ctx_scheme \<Rightarrow> uint32 list \<Rightarrow> uint32 set \<Rightarrow> (uint16 \<Rightarrow> uint32 list) \<Rightarrow> uint32 list
     \<Rightarrow> (uint32 \<Rightarrow> uint32 list) \<Rightarrow> bool" where
  "lctx c fl L pl lfl qs \<longleftrightarrow>
     gres_at res_id (lock_hash (bucket_num (lock_map c))) (global_lock_res c) fl L pl \<and>
     bucket_num (lock_map c) \<noteq> 0 \<and>
     queues_ok (lock_item_pool c) (\<lambda>x. lk_convert_q (lock c x)) L qs lfl \<and>
     (\<forall>x \<in> L. lk_inv (lock c x) (reqs (lock_item_pool c) (qs x)))"

definition lock_ok :: "uint32 set \<Rightarrow> 'c drc_lock_ctx_scheme \<Rightarrow> bool" where
  "lock_ok S c \<longleftrightarrow> (\<exists>fl L pl lfl qs. lctx c fl L pl lfl qs \<and> S = q_items L qs lfl)"

text \<open>Only the lock items \<open>S\<close> and the lock resources are changed.\<close>

definition touches :: "uint32 set \<Rightarrow> 'c drc_lock_ctx_scheme \<Rightarrow> 'c drc_lock_ctx_scheme \<Rightarrow> bool" where
  "touches S c c' \<longleftrightarrow> global_buf_res c' = global_buf_res c \<and> item_num (lock_item_pool c') = item_num (lock_item_pool c) \<and>
     (\<forall>i. i \<notin> S \<longrightarrow> items (lock_item_pool c') i = items (lock_item_pool c) i) \<and>
     bucket_num (lock_map c') = bucket_num (lock_map c)"

lemma touches_refl [simp]: "touches S c c"
  by (simp add: touches_def)

lemma touches_trans: "touches S a b \<Longrightarrow> touches S b c \<Longrightarrow> touches S a c"
  by (simp add: touches_def)

lemma lctxD:
  assumes "lctx c fl L pl lfl qs"
  shows "gres_at res_id (lock_hash (bucket_num (lock_map c))) (global_lock_res c) fl L pl"
    "gres_rep res_id (lock_hash (bucket_num (lock_map c))) (global_lock_res c) fl L"
    "bucket_num (lock_map c) \<noteq> 0" "queues_ok (lock_item_pool c) (\<lambda>x. lk_convert_q (lock c x)) L qs lfl"
    "x \<in> L \<Longrightarrow> lk_inv (lock c x) (reqs (lock_item_pool c) (qs x))"
  using assms gres_at_rep unfolding lctx_def by blast+

lemma lctx_linked:
  assumes "lctx c fl L pl lfl qs" "x \<in> L"
  shows "x < lock_num c" "x \<notin> set fl" "res_idx (lock c x) = x" "lk_get c x = Some (lock c x)"
    "qrep (lock_item_pool c) lfl (lk_convert_q (lock c x)) (qs x)"
    "lk_inv (lock c x) (reqs (lock_item_pool c) (qs x))"
proof -
  show n: "x < lock_num c" "x \<notin> set fl" "res_idx (lock c x) = x"
    using gres_repD(2-4)[OF lctxD(2)[OF assms(1)] assms(2)] by auto
  show "lk_get c x = Some (lock c x)" using n by (simp add: drc_get_global_lock_resx_by_id_def)
  show "qrep (lock_item_pool c) lfl (lk_convert_q (lock c x)) (qs x)"
    using queues_okD(2)[OF lctxD(4)[OF assms(1)] assms(2)] by simp
  show "lk_inv (lock c x) (reqs (lock_item_pool c) (qs x))" by (rule lctxD(5)[OF assms])
qed

lemma lk_bucket_eq: "bucket_num (lock_map c) \<noteq> 0 \<Longrightarrow> lk_bucket c k = Some (lock_hash (bucket_num (lock_map c)) k)"
  by (simp add: lk_bucket_def drc_get_res_map_bucket_def drc_resource_id_hash_def lock_hash_def)

lemma lk_lookup_eq:
  "bucket_num (lock_map c) \<noteq> 0 \<Longrightarrow>
    lk_lookup c k = drc_res_map_lookup (lock_map c) (lock_hash (bucket_num (lock_map c)) k) k"
  by (simp add: lk_lookup_def lk_bucket_eq)

lemma lk_lookup_spec:
  assumes "lctx c fl L pl lfl qs"
  shows "lk_lookup c k = Some None \<longleftrightarrow> (\<forall>x \<in> L. res_id (lock c x) \<noteq> k)"
    "lk_lookup c k = Some (Some x) \<longleftrightarrow> x \<in> L \<and> res_id (lock c x) = k"
    "\<exists>r. lk_lookup c k = Some r"
  unfolding lk_lookup_eq[OF lctxD(3)[OF assms]] using lk.rep_lookup[OF lctxD(2)[OF assms]] by simp_all

text \<open>The reform snapshots and the outgoing error replies are no part of the invariant.\<close>

lemma lctx_sent [simp]: "lctx (c\<lparr>sent_errors := es\<rparr>) fl L pl lfl qs \<longleftrightarrow> lctx c fl L pl lfl qs"
  by (simp add: lctx_def)

lemma touches_sent [simp]: "touches S (c\<lparr>sent_errors := es\<rparr>) c' \<longleftrightarrow> touches S c c'"
  by (simp add: touches_def)

section \<open>Changes to one lock\<close>

lemma lctx_update:
  assumes inv: "lctx c fl L pl lfl qs" and x: "x \<in> L" and id: "lock_ident (lock c x) r"
    and q: "qrep pool lfl' (lk_convert_q r) ids" and st: "qstep (lock_item_pool c) lfl (qs x) pool lfl' ids"
    and p: "lk_inv r (reqs pool ids)"
  shows "\<exists>c'. lk_put (c\<lparr>lock_item_pool := pool\<rparr>) x r = Some c' \<and>
           c' = c\<lparr>lock_item_pool := pool, global_lock_res := global_lock_res c'\<rparr> \<and>
           (\<forall>y. lock c' y = (if y = x then r else lock c y)) \<and>
           lctx c' fl L pl lfl' (qs(x := ids)) \<and> q_items L (qs(x := ids)) lfl' = q_items L qs lfl \<and>
           touches (q_items L qs lfl) c c'"
proof -
  note l = lctx_linked[OF inv x]
  define c' where "c' = c\<lparr>lock_item_pool := pool, global_lock_res := (global_lock_res c)
      \<lparr>res_map := (lock_map c)\<lparr>res_pool := (res_pool (lock_map c))\<lparr>items := (items (res_pool (lock_map c)))(x := r)\<rparr>\<rparr>\<rparr>\<rparr>"
  have put: "lk_put (c\<lparr>lock_item_pool := pool\<rparr>) x r = Some c'" using l(1) by (simp add: lk_put_def lk_set_pool_def c'_def)
  have it: "lock c' y = (if y = x then r else lock c y)" for y by (simp add: c'_def)
  have nums: "bucket_num (lock_map c') = bucket_num (lock_map c)" "lock_item_pool c' = pool" by (simp_all add: c'_def)
  have g: "gres_at res_id (lock_hash (bucket_num (lock_map c'))) (global_lock_res c') fl L pl"
    unfolding nums using lk.at_put[OF lctxD(1)[OF inv] l(2), of r] id l(3) by (simp add: c'_def lock_ident_def)
  note s = queues_step[OF lctxD(4)[OF inv] x st q]
  have f: "(\<lambda>y. lk_convert_q (lock c' y)) = (\<lambda>y. lk_convert_q (lock c y))(x := lk_convert_q r)" by (auto simp: it)
  have "lk_inv (lock c' y) (reqs pool ((qs(x := ids)) y))" if "y \<in> L" for y
    using p s(2)[of y] lctxD(5)[OF inv that] that by (cases "y = x") (simp_all add: it del: map_eq_conv)
  then have "lctx c' fl L pl lfl' (qs(x := ids))"
    unfolding lctx_def using g s(1) lctxD(3)[OF inv] by (simp only: nums f) simp
  moreover have "touches (q_items L qs lfl) c c'"
    using s(4,5) unfolding touches_def nums by (simp add: c'_def)
  ultimately show ?thesis using put it s(3) by (intro exI[of _ c']) (simp add: c'_def)
qed

lemma lctx_update_res:
  assumes inv: "lctx c fl L pl lfl qs" and x: "x \<in> L" and id: "lock_ident (lock c x) r"
    and q: "lk_convert_q r = lk_convert_q (lock c x)" and p: "lk_inv r (reqs (lock_item_pool c) (qs x))"
  shows "\<exists>c'. lk_put c x r = Some c' \<and> c' = c\<lparr>global_lock_res := global_lock_res c'\<rparr> \<and>
           (\<forall>y. lock c' y = (if y = x then r else lock c y)) \<and> lctx c' fl L pl lfl qs \<and>
           touches (q_items L qs lfl) c c'"
  using lctx_update[OF inv x id, of "lock_item_pool c" lfl "qs x"] lctx_linked(5)[OF inv x] q p by simp

lemma lock_body_eq:
  assumes "body_eq r r'"
  shows "res_id r' = res_id r" "res_idx r' = res_idx r" "part_id r' = part_id r" "lk_mode r' = lk_mode r"
    "granted_map r' = granted_map r" "lk_converting r' = lk_converting r" "lk_convert_q r' = lk_convert_q r"
    "lk_inv r' rs \<longleftrightarrow> lk_inv r rs"
  using assms unfolding body_eq_def lk_inv_def by (elim exE; simp)+

section \<open>Creating and dropping\<close>

text \<open>A change of the lock resources only; locks are kept, removed, or added with an empty queue.\<close>

lemma lctx_frame:
  assumes inv: "lctx c fl L pl lfl qs" and pool: "lock_item_pool c' = lock_item_pool c" "global_buf_res c' = global_buf_res c"
    and nums: "bucket_num (lock_map c') = bucket_num (lock_map c)"
    and g: "gres_at res_id (lock_hash (bucket_num (lock_map c))) (global_lock_res c') fl' L' pl'"
    and L: "\<And>y. y \<in> L' \<Longrightarrow> y \<in> L \<and> body_eq (lock c y) (lock c' y)"
    and q: "\<And>y. y \<in> L - L' \<Longrightarrow> qs y = []"
  shows "lctx c' fl' L' pl' lfl qs" "q_items L' qs lfl = q_items L qs lfl" "touches S c c'"
proof -
  have "queues_ok (lock_item_pool c) (\<lambda>x. lk_convert_q (lock c' x)) L' qs lfl"
    using L by (intro queues_cong[OF lctxD(4)[OF inv]]) (auto simp: lock_body_eq)
  moreover have "lk_inv (lock c' y) (reqs (lock_item_pool c) (qs y))" if "y \<in> L'" for y
    using L[OF that] lctxD(5)[OF inv, of y] lock_body_eq(8) by blast
  ultimately show "lctx c' fl' L' pl' lfl qs"
    unfolding lctx_def pool nums using g lctxD(3)[OF inv] by simp
  have "(\<Union>y \<in> L'. set (qs y)) = (\<Union>y \<in> L. set (qs y))"
  proof
    show "(\<Union>y \<in> L'. set (qs y)) \<subseteq> (\<Union>y \<in> L. set (qs y))" using L by blast
    show "(\<Union>y \<in> L. set (qs y)) \<subseteq> (\<Union>y \<in> L'. set (qs y))"
    proof
      fix i
      assume "i \<in> (\<Union>y \<in> L. set (qs y))"
      then obtain y where y: "y \<in> L" "i \<in> set (qs y)" by blast
      then have "y \<in> L'" using q[of y] by (cases "y \<in> L'") auto
      then show "i \<in> (\<Union>y \<in> L'. set (qs y))" using y by blast
    qed
  qed
  then show "q_items L' qs lfl = q_items L qs lfl" by simp
  show "touches S c c'" using pool nums by (simp add: touches_def)
qed

lemma new_lock_inv: "lk_inv (drc_new_lock_res k part i r) []"
  by (simp add: lk_inv_def drc_new_lock_res_def g_invalid_req_info_def)

lemma drc_lock_partid_eq: "drc_lock_partid k = Some (lock_hash DRC_MAX_PART_NUM k)"
  by (simp add: drc_lock_partid_def drc_resource_id_hash_def lock_hash_def)

lemma create_lock_full:
  assumes "lctx c [] L pl lfl qs"
  shows "drc_create_lock_res c k b = Some (CT_ERROR, c)"
  using gres_repD(1)[OF lctxD(2)[OF assms]]
  by (simp add: drc_create_lock_res_def alloc_item_Nil lk_set_pool_def)

lemma create_lock_spec:
  assumes inv: "lctx c (x # fl) L pl lfl qs" and new: "lk_lookup c k = Some None"
  shows "\<exists>c' pl'. drc_create_lock_res c k (lock_hash (bucket_num (lock_map c)) k) = Some (CT_SUCCESS, c') \<and>
           lctx c' fl (insert x L) pl' lfl (qs(x := [])) \<and> x \<notin> L \<and>
           (\<forall>y \<in> L. body_eq (lock c y) (lock c' y)) \<and>
           body_eq (drc_new_lock_res k (lock_hash DRC_MAX_PART_NUM k) x (lock c x)) (lock c' x) \<and>
           touches (q_items L qs lfl) c c' \<and> lock_item_pool c' = lock_item_pool c \<and> sent_errors c' = sent_errors c"
proof -
  note g = lctxD(2)[OF inv]
  from lk.rep_alloc[OF g] obtain p where p: "drc_res_pool_alloc_item (res_pool (lock_map c)) = Some (x, p)"
    "items p = items (res_pool (lock_map c))" "item_num p = lock_num c"
    "gres_rep res_id (lock_hash (bucket_num (lock_map c)))
       ((global_lock_res c)\<lparr>res_map := (lock_map c)\<lparr>res_pool := p\<rparr>\<rparr>) fl L" by blast
  define c1 where "c1 = lk_set_pool c p"
  have c1: "global_lock_res c1 = (global_lock_res c)\<lparr>res_map := (lock_map c)\<lparr>res_pool := p\<rparr>\<rparr>" "lock c1 y = lock c y" for y
    by (simp_all add: c1_def lk_set_pool_def p(2))
  have x: "x < lock_num c" "x \<notin> set fl" "x \<notin> L"
    using gres_repD(1)[OF g] gres_repD(3)[OF g, of x] by (auto simp: pool_inv_def)
  have get: "lk_get c1 x = Some (lock c x)" using x(1) p(3) c1(2)[of x] by (simp add: drc_get_global_lock_resx_by_id_def c1(1))
  define r where "r = drc_new_lock_res k (lock_hash DRC_MAX_PART_NUM k) x (lock c x)"
  have r: "res_id r = k" "res_idx r = x" "node_idx (node r) = x" by (simp_all add: r_def drc_new_lock_res_def)
  have look: "drc_res_map_lookup (lock_map c1) (lock_hash (bucket_num (lock_map c)) (res_id r)) (res_id r) = Some None"
    using lk.rep_lookup(1)[OF p(4)] lk_lookup_spec(1)[OF inv, of k] new r(1) by (simp add: c1(1) p(2))
  from lk.rep_create[OF p(4)[folded c1(1)] _ x(2,3) look r(2,3)] obtain g1 g2 where
    gg: "drc_res_attach (global_lock_res c1) (lock_hash (bucket_num (lock_map c)) k) x r = Some g1" "drc_part_link g1 x = Some g2"
      "gres_rep res_id (lock_hash (bucket_num (lock_map c))) g2 fl (insert x L)" "body_eq r (item (res_map g2) x)"
      "\<And>j. j \<noteq> x \<Longrightarrow> body_eq (lock c j) (item (res_map g2) j)" "bucket_num (res_map g2) = bucket_num (lock_map c)"
    using x(1) r(1) p(3) c1(2) by (auto simp: c1(1))
  then obtain pl' where at: "gres_at res_id (lock_hash (bucket_num (lock_map c))) g2 fl (insert x L) pl'"
    by (auto simp: gres_rep_at)
  define c2 where "c2 = c1\<lparr>global_lock_res := g2\<rparr>"
  have s: "lock_item_pool c2 = lock_item_pool c" "global_buf_res c2 = global_buf_res c" "global_lock_res c2 = g2"
    "sent_errors c2 = sent_errors c" by (simp_all add: c2_def c1_def lk_set_pool_def)
  have "drc_create_lock_res c k (lock_hash (bucket_num (lock_map c)) k) = Some (CT_SUCCESS, c2)"
    using p(1) x(1) p(3) gg(1,2) below_neq_invalid[OF x(1)]
    by (simp add: drc_create_lock_res_def get drc_lock_partid_eq c2_def flip: c1_def r_def)
  moreover have "lctx c2 fl (insert x L) pl' lfl (qs(x := []))"
  proof -
    have "queues_ok (lock_item_pool c) (\<lambda>y. lk_convert_q (item (res_map g2) y)) (insert x L) (qs(x := [])) lfl"
    proof (rule queues_insert[OF lctxD(4)[OF inv]])
      fix y
      assume "y \<in> L"
      then show "lk_convert_q (item (res_map g2) y) = lk_convert_q (lock c y)" using x(3) by (intro lock_body_eq(7) gg(5)) auto
    next
      show "lk_convert_q (item (res_map g2) x) = DRC_LIST_INIT"
        using lock_body_eq(7)[OF gg(4)] by (simp add: r_def drc_new_lock_res_def)
    qed (rule x(3))
    moreover have "lk_inv (item (res_map g2) y) (reqs (lock_item_pool c) ((qs(x := [])) y))" if "y \<in> insert x L" for y
      using that x(3) gg(4) gg(5)[of y] lctxD(5)[OF inv, of y] new_lock_inv lock_body_eq(8)
      by (cases "y = x") (auto simp: r_def)
    ultimately show ?thesis
      unfolding lctx_def s gg(6) using at lctxD(3)[OF inv] by simp
  qed
  moreover have "touches (q_items L qs lfl) c c2" using s gg(6) by (simp add: touches_def)
  moreover have "body_eq (lock c y) (lock c2 y)" if "y \<in> L" for y
  proof -
    have "y \<noteq> x" using that x(3) by blast
    then show ?thesis using gg(5) s(3) by simp
  qed
  ultimately show ?thesis using s x(3) gg(4) r_def by (intro exI[of _ c2] exI[of _ pl']) simp
qed

lemma drop_lock_spec:
  assumes inv: "lctx c fl L pl lfl qs" and x: "x \<in> L" and idle: "lk_cvt_inst (lock c x) = CT_INVALID_ID8" "granted_map (lock c x) = 0"
  shows "\<exists>c'. drc_drop_lock_res c (lock_hash (bucket_num (lock_map c)) (res_id (lock c x))) (res_id (lock c x)) x = Some c' \<and>
           lctx c' (x # fl) (L - {x}) (\<lambda>q. remove1 x (pl q)) lfl qs \<and> q_items (L - {x}) qs lfl = q_items L qs lfl \<and>
           touches (q_items L qs lfl) c c' \<and> (\<forall>y \<in> L - {x}. body_eq (lock c y) (lock c' y)) \<and>
           lock_item_pool c' = lock_item_pool c \<and> sent_errors c' = sent_errors c"
proof -
  note l = lctx_linked[OF inv x]
  from lk.at_remove_unlink[OF lctxD(1)[OF inv] x] obtain m g2 where
    a: "drc_res_map_remove (lock_map c) (lock_hash (bucket_num (lock_map c)) (res_id (lock c x))) (res_id (lock c x)) = Some m"
      "drc_part_unlink ((global_lock_res c)\<lparr>res_map := m\<rparr>) x = Some g2"
      "gres_at res_id (lock_hash (bucket_num (lock_map c))) g2 fl (L - {x}) (\<lambda>q. remove1 x (pl q))"
      "\<And>j. body_eq (lock c j) (item (res_map g2) j)" "item_num (res_pool (res_map g2)) = lock_num c"
      "bucket_num (res_map g2) = bucket_num (lock_map c)" "body_eq (lock c x) (item m x)" "item_num (res_pool m) = lock_num c" by blast
  have um: "lk_get (c\<lparr>global_lock_res := (global_lock_res c)\<lparr>res_map := m\<rparr>\<rparr>) x = Some (item m x)"
    "lk_cvt_inst (item m x) = CT_INVALID_ID8" "granted_map (item m x) = 0" "res_idx (item m x) = x"
    using a(7,8) l(1,3) idle by (simp_all add: drc_get_global_lock_resx_by_id_def lock_body_eq)
  define p3 where "p3 = (res_pool (res_map g2))\<lparr>items := (items (res_pool (res_map g2)))(x := zero_master_res)\<rparr>"
  have at3: "gres_at res_id (lock_hash (bucket_num (lock_map c))) (g2\<lparr>res_map := (res_map g2)\<lparr>res_pool := p3\<rparr>\<rparr>) fl (L - {x}) (\<lambda>q. remove1 x (pl q))"
    unfolding p3_def by (rule lk.at_put[OF a(3) l(2)]) simp
  from lk.at_free[OF at3, of x] obtain p4 n where
    f: "drc_res_pool_free_item p3 x = Some p4" "items p4 = (items p3)(x := (items p3 x)\<lparr>nxt := n\<rparr>)" "item_num p4 = item_num p3"
      "gres_at res_id (lock_hash (bucket_num (lock_map c))) (g2\<lparr>res_map := (res_map g2)\<lparr>res_pool := p4\<rparr>\<rparr>) (x # fl) (L - {x}) (\<lambda>q. remove1 x (pl q))"
    using l(1,2) a(5) by (auto simp: p3_def)
  define c' where "c' = c\<lparr>global_lock_res := g2\<lparr>res_map := (res_map g2)\<lparr>res_pool := p4\<rparr>\<rparr>\<rparr>"
  have s: "lock_item_pool c' = lock_item_pool c" "global_buf_res c' = global_buf_res c" "sent_errors c' = sent_errors c"
    "bucket_num (lock_map c') = bucket_num (lock_map c)" by (simp_all add: c'_def a(6))
  have "drc_drop_lock_res c (lock_hash (bucket_num (lock_map c)) (res_id (lock c x))) (res_id (lock c x)) x = Some c'"
    using a(1,2,5) um l(1) f(1)
    by (simp add: drc_drop_lock_res_def drc_release_lock_res_def lk_put_def lk_set_pool_def c'_def flip: p3_def)
  moreover have b: "body_eq (lock c y) (lock c' y)" if "y \<in> L - {x}" for y
    using that a(4)[of y] by (simp add: c'_def f(2) p3_def)
  moreover have "qs x = []" using l(6) idle(1) by (simp add: lk_inv_def)
  then have q: "\<And>y. y \<in> L - (L - {x}) \<Longrightarrow> qs y = []" by auto
  have gg: "gres_at res_id (lock_hash (bucket_num (lock_map c))) (global_lock_res c') (x # fl) (L - {x}) (\<lambda>q. remove1 x (pl q))"
    using f(4) by (simp add: c'_def)
  have L: "\<And>y. y \<in> L - {x} \<Longrightarrow> y \<in> L \<and> body_eq (lock c y) (lock c' y)" using b by blast
  note lctx_frame[OF inv s(1,2,4) gg L q]
  ultimately show ?thesis using s by blast
qed

section \<open>Conversion\<close>

lemma lk_invD:
  assumes "lk_inv r rs"
  shows "lk_cvt_inst r = CT_INVALID_ID8 \<Longrightarrow> rs = []" "lk_cvt_inst r \<noteq> CT_INVALID_ID8 \<Longrightarrow> req_ok (req_info (lk_converting r))"
    "q \<in> set rs \<Longrightarrow> req_ok q" "lk_mode r \<le> DRC_LOCK_EXCLUSIVE" "granted_map r \<noteq> 0 \<Longrightarrow> lk_mode r \<noteq> DRC_LOCK_NULL"
    "lk_mode r = DRC_LOCK_EXCLUSIVE \<Longrightarrow> \<exists>i. insts (granted_map r) \<subseteq> {i}"
  using assms unfolding lk_inv_def by blast+

lemma req_ok_valid: "req_ok q \<Longrightarrow> inst_id q \<noteq> CT_INVALID_ID8"
  by (auto simp: req_ok_def)

text \<open>The request that converts next, when \<open>rs\<close> are waiting: the first of them, or none.\<close>

definition next_converting :: "drc_req_info_t list \<Rightarrow> drc_master_res_t \<Rightarrow> drc_req_info_t list \<Rightarrow> bool" where
  "next_converting rs r rs' \<longleftrightarrow>
     (case rs of [] \<Rightarrow> lk_cvt_inst r = CT_INVALID_ID8 \<and> rs' = []
      | q # rest \<Rightarrow> req_info (lk_converting r) = q \<and> rs' = rest)"

lemma convert_lock_spec:
  assumes q: "qrep pool lfl (lk_convert_q r) ids" and inv: "lk_inv r (reqs pool ids)"
  shows "\<exists>pool' r' lfl' ids'. drc_convert_lock_owner pool r = Some (pool', r') \<and>
           qrep pool' lfl' (lk_convert_q r') ids' \<and> qstep pool lfl ids pool' lfl' ids' \<and>
           lk_inv r' (reqs pool' ids') \<and> lock_ident r r' \<and> granted_map r' = granted_map r \<and> lk_mode r' = lk_mode r \<and>
           next_converting (reqs pool ids) r' (reqs pool' ids')"
proof (cases ids)
  case Nil
  then have z: "list_count (lk_convert_q r) = 0" using q queue_inv_count(2) by (auto simp: qrep_def)
  define r' where "r' = set_lk_req ((req_info (lk_converting r))\<lparr>inst_id := CT_INVALID_ID8\<rparr>) r"
  have "drc_convert_lock_owner pool r = Some (pool, r')"
    using z by (simp add: drc_convert_lock_owner_def r'_def)
  moreover have "lk_inv r' (reqs pool ids)" using Nil inv by (simp add: lk_inv_def r'_def)
  moreover have "next_converting (reqs pool ids) r' (reqs pool ids)" using Nil by (simp add: next_converting_def r'_def)
  ultimately show ?thesis
    using q by - (rule exI[of _ pool], rule exI[of _ r'], rule exI[of _ lfl], rule exI[of _ ids], simp add: r'_def)
next
  case (Cons x ids')
  from dequeue_spec[OF q[unfolded Cons]] obtain pool' q' where
    d: "drc_cvt_q_dequeue pool (lk_convert_q r) = Some (items pool x, pool', q')" "qrep pool' (x # lfl) q' ids'"
      "qstep pool lfl (x # ids') pool' (x # lfl) ids'" "reqs pool' ids' = reqs pool ids'" by blast
  have n: "list_count (lk_convert_q r) \<noteq> 0" using Cons q queue_inv_count(2) by (auto simp: qrep_def)
  define r' where "r' = r\<lparr>lk_converting := items pool x, lk_convert_q := q'\<rparr>"
  have ok: "req_ok (req_info (items pool x))" using lk_invD(3)[OF inv] Cons by simp
  have "drc_convert_lock_owner pool r = Some (pool', r')"
    using n d(1) req_ok_valid[OF ok] by (simp add: drc_convert_lock_owner_def r'_def)
  moreover have "lk_inv r' (reqs pool' ids')"
    using inv ok req_ok_valid[OF ok] Cons unfolding d(4) by (auto simp: lk_inv_def r'_def)
  ultimately show ?thesis
    using Cons d
    by - (rule exI[of _ pool'], rule exI[of _ r'], rule exI[of _ "x # lfl"], rule exI[of _ ids'],
        simp add: r'_def next_converting_def del: map_eq_conv)
qed

lemma lk_lookup_cases:
  assumes "lctx c fl L pl lfl qs"
  obtains "lk_lookup c k = Some None" | x where "lk_lookup c k = Some (Some x)" "x \<in> L" "res_id (lock c x) = k"
proof -
  obtain f where f: "lk_lookup c k = Some f" using lk_lookup_spec(3)[OF assms] by blast
  then show thesis using that lk_lookup_spec(2)[OF assms, of k] by (cases f) auto
qed

section \<open>Claim and cancel\<close>

definition grant_ok :: "lock_claim_info_t \<Rightarrow> drc_master_res_t \<Rightarrow> bool" where
  "grant_ok claim r \<longleftrightarrow>
     lk_new_id claim = lk_cvt_inst r \<and> lk_claim_mode claim = req_mode (req_info (lk_converting r)) \<and>
     lk_new_id claim < CT_MAX_INSTANCES \<and>
     (lk_claim_mode claim = DRC_LOCK_EXCLUSIVE \<or> lk_new_id claim \<notin> insts (granted_map r) \<or> drid_type (res_id r) = DR_TYPE_TABLE)"

definition granted_res :: "lock_claim_info_t \<Rightarrow> drc_master_res_t \<Rightarrow> drc_master_res_t" where
  "granted_res claim r =
     r\<lparr>granted_map := bm_set (if lk_claim_mode claim = DRC_LOCK_EXCLUSIVE then 0 else granted_map r) (lk_new_id claim),
       lk_mode := lk_claim_mode claim\<rparr>"

lemma grant_claimed_eq: "drc_grant_claimed claim r = (if grant_ok claim r then Some (granted_res claim r) else None)"
proof (cases "lk_new_id claim = lk_cvt_inst r \<and> lk_claim_mode claim = req_mode (req_info (lk_converting r))")
  case True
  then have k: "drc_grant_claimed claim r =
      do { let r = (if lk_claim_mode claim = DRC_LOCK_EXCLUSIVE then r\<lparr>granted_map := 0\<rparr> else r);
           ex \<leftarrow> drc_bitmap64_exist (granted_map r) (lk_new_id claim);
           knl_panic (\<not> ex \<or> drid_type (res_id r) = DR_TYPE_TABLE);
           g \<leftarrow> drc_bitmap64_set (granted_map r) (lk_new_id claim);
           Some (r\<lparr>granted_map := g, lk_mode := lk_claim_mode claim\<rparr>) }"
    by (simp add: drc_grant_claimed_def)
  show ?thesis
  proof (cases "lk_new_id claim < CT_MAX_INSTANCES")
    case False
    then show ?thesis unfolding k by (simp add: grant_ok_def drc_bitmap64_exist_def)
  next
    case less: True
    then show ?thesis
      unfolding k using True
      by (cases "lk_claim_mode claim = DRC_LOCK_EXCLUSIVE") (simp_all add: grant_ok_def granted_res_def panic_simps knl_panic_def)
  qed
next
  case False
  then show ?thesis by (auto simp: drc_grant_claimed_def grant_ok_def)
qed

lemma granted_res_inv:
  assumes "lk_inv r rs" "grant_ok claim r"
  shows "lk_inv (granted_res claim r) rs" "insts (granted_map (granted_res claim r)) =
      insert (lk_new_id claim) (if lk_claim_mode claim = DRC_LOCK_EXCLUSIVE then {} else insts (granted_map r))"
proof -
  have n: "lk_new_id claim < CT_MAX_INSTANCES" "lk_cvt_inst r \<noteq> CT_INVALID_ID8" using assms(2) by (auto simp: grant_ok_def)
  then have m: "lk_claim_mode claim = DRC_LOCK_SHARE \<or> lk_claim_mode claim = DRC_LOCK_EXCLUSIVE"
    using lk_invD(2)[OF assms(1)] assms(2) by (auto simp: grant_ok_def req_ok_def)
  show g: "insts (granted_map (granted_res claim r)) =
      insert (lk_new_id claim) (if lk_claim_mode claim = DRC_LOCK_EXCLUSIVE then {} else insts (granted_map r))"
    using n by (simp add: granted_res_def)
  have "lk_mode (granted_res claim r) = lk_claim_mode claim" "lk_converting (granted_res claim r) = lk_converting r"
    by (simp_all add: granted_res_def)
  then show "lk_inv (granted_res claim r) rs"
    unfolding lk_inv_def g using assms(1) m n(2) by (auto simp: lk_inv_def)
qed

lemma granted_res_fields [simp]:
  "lk_convert_q (granted_res claim r) = lk_convert_q r" "lock_ident r' (granted_res claim r) \<longleftrightarrow> lock_ident r' r"
  "lk_mode (granted_res claim r) = lk_claim_mode claim"
  by (simp_all add: granted_res_def)

lemma lock_ident_trans: "lock_ident a b \<Longrightarrow> lock_ident b c \<Longrightarrow> lock_ident a c"
  by (simp add: lock_ident_def)

text \<open>Serving the next request of a lock whose body became \<open>r\<close>.\<close>

lemma convert_step:
  assumes inv: "lctx c fl L pl lfl qs" and x: "x \<in> L" and r: "lock_ident (lock c x) r"
    "lk_convert_q r = lk_convert_q (lock c x)" "lk_inv r (reqs (lock_item_pool c) (qs x))"
  shows "\<exists>pool r' c' lfl' qs'. drc_convert_lock_owner (lock_item_pool c) r = Some (pool, r') \<and>
           lk_put (c\<lparr>lock_item_pool := pool\<rparr>) x r' = Some c' \<and> lctx c' fl L pl lfl' qs' \<and>
           q_items L qs' lfl' = q_items L qs lfl \<and> touches (q_items L qs lfl) c c' \<and>
           (\<forall>y. y \<noteq> x \<longrightarrow> lock c' y = lock c y \<and> qs' y = qs y) \<and> lock_ident r (lock c' x) \<and> sent_errors c' = sent_errors c \<and>
           granted_map (lock c' x) = granted_map r \<and> lk_mode (lock c' x) = lk_mode r \<and>
           next_converting (reqs (lock_item_pool c) (qs x)) (lock c' x) (reqs (lock_item_pool c') (qs' x))"
proof -
  have "qrep (lock_item_pool c) lfl (lk_convert_q r) (qs x)" using lctx_linked(5)[OF inv x] r(2) by simp
  from convert_lock_spec[OF this r(3)] obtain pool r' lfl' ids' where
    d: "drc_convert_lock_owner (lock_item_pool c) r = Some (pool, r')" "qrep pool lfl' (lk_convert_q r') ids'"
      "qstep (lock_item_pool c) lfl (qs x) pool lfl' ids'" "lk_inv r' (reqs pool ids')" "lock_ident r r'"
      "granted_map r' = granted_map r" "lk_mode r' = lk_mode r"
      "next_converting (reqs (lock_item_pool c) (qs x)) r' (reqs pool ids')" by blast
  from lctx_update[OF inv x lock_ident_trans[OF r(1) d(5)] d(2-4)] obtain c' where
    c: "lk_put (c\<lparr>lock_item_pool := pool\<rparr>) x r' = Some c'" "c' = c\<lparr>lock_item_pool := pool, global_lock_res := global_lock_res c'\<rparr>"
      "\<And>y. lock c' y = (if y = x then r' else lock c y)" "lctx c' fl L pl lfl' (qs(x := ids'))"
      "q_items L (qs(x := ids')) lfl' = q_items L qs lfl" "touches (q_items L qs lfl) c c'" by blast
  have "lock_item_pool c' = pool" "sent_errors c' = sent_errors c" by (subst c(2), simp)+
  then show ?thesis
    using c d by (intro exI[of _ pool] exI[of _ r'] exI[of _ c'] exI[of _ lfl'] exI[of _ "qs(x := ids')"]) auto
qed

lemma claim_lock_spec:
  assumes inv: "lctx c fl L pl lfl qs" and x: "x \<in> L" and go: "\<not> DRC_STOP_DLS_REQ_FOR_REFORMING e version (res_id (lock c x)) \<or> is_remaster"
    and ok: "grant_ok claim (lock c x)"
  shows "\<exists>c' lfl' qs'. drc_claim_lock_owner e c (res_id (lock c x)) claim version is_remaster = Some (CT_SUCCESS, c') \<and>
           lctx c' fl L pl lfl' qs' \<and> q_items L qs' lfl' = q_items L qs lfl \<and> touches (q_items L qs lfl) c c' \<and>
           (\<forall>y. y \<noteq> x \<longrightarrow> lock c' y = lock c y \<and> qs' y = qs y) \<and> res_id (lock c' x) = res_id (lock c x) \<and>
           granted_map (lock c' x) = granted_map (granted_res claim (lock c x)) \<and> lk_mode (lock c' x) = lk_claim_mode claim \<and>
           next_converting (reqs (lock_item_pool c) (qs x)) (lock c' x) (reqs (lock_item_pool c') (qs' x))"
proof -
  note l = lctx_linked[OF inv x] and b = lk_bucket_eq[OF lctxD(3)[OF inv]]
  have look: "drc_res_map_lookup (lock_map c) (lock_hash (bucket_num (lock_map c)) (res_id (lock c x))) (res_id (lock c x)) = Some (Some x)"
    using lk.rep_lookup(2)[OF lctxD(2)[OF inv]] x by simp
  from convert_step[OF inv x, of "granted_res claim (lock c x)"] granted_res_inv(1)[OF l(6) ok]
  obtain pool r' c' lfl' qs' where
    d: "drc_convert_lock_owner (lock_item_pool c) (granted_res claim (lock c x)) = Some (pool, r')"
      "lk_put (c\<lparr>lock_item_pool := pool\<rparr>) x r' = Some c'" "lctx c' fl L pl lfl' qs'"
      "q_items L qs' lfl' = q_items L qs lfl" "touches (q_items L qs lfl) c c'"
      "\<forall>y. y \<noteq> x \<longrightarrow> lock c' y = lock c y \<and> qs' y = qs y" "lock_ident (granted_res claim (lock c x)) (lock c' x)"
      "granted_map (lock c' x) = granted_map (granted_res claim (lock c x))" "lk_mode (lock c' x) = lk_mode (granted_res claim (lock c x))"
      "next_converting (reqs (lock_item_pool c) (qs x)) (lock c' x) (reqs (lock_item_pool c') (qs' x))" by auto
  have "drc_claim_lock_owner e c (res_id (lock c x)) claim version is_remaster = Some (CT_SUCCESS, c')"
    using go b l(4) look ok d(1,2)
    by (auto simp: drc_claim_lock_owner_def drc_lock_bucket_and_stat_with_version_check_def grant_claimed_eq)
  moreover have "res_id (lock c' x) = res_id (lock c x)" using d(7) by (simp add: lock_ident_def granted_res_def)
  ultimately show ?thesis
    using d by (intro exI[of _ c'] exI[of _ lfl'] exI[of _ qs']) (simp del: map_eq_conv)
qed

text \<open>When a claim stops the process.\<close>

lemma claim_lock_stops:
  assumes inv: "lctx c fl L pl lfl qs"
    and go: "\<not> DRC_STOP_DLS_REQ_FOR_REFORMING e version k \<or> is_remaster"
    and bad: "\<forall>x \<in> L. res_id (lock c x) = k \<longrightarrow> \<not> grant_ok claim (lock c x)"
  shows "drc_claim_lock_owner e c k claim version is_remaster = None"
proof -
  note b = lk_bucket_eq[OF lctxD(3)[OF inv], of k]
  consider "lk_lookup c k = Some None" | x where "lk_lookup c k = Some (Some x)" "x \<in> L" "res_id (lock c x) = k"
    by (rule lk_lookup_cases[OF inv])
  then show ?thesis
  proof cases
    case 1
    then show ?thesis using go b lk_lookup_eq[OF lctxD(3)[OF inv], of k]
      by (auto simp: drc_claim_lock_owner_def drc_lock_bucket_and_stat_with_version_check_def)
  next
    case 2
    then show ?thesis using go b bad lctx_linked(4)[OF inv 2(2)] lk_lookup_eq[OF lctxD(3)[OF inv], of k]
      by (auto simp: drc_claim_lock_owner_def drc_lock_bucket_and_stat_with_version_check_def grant_claimed_eq)
  qed
qed

lemma claim_lock_stopped:
  assumes inv: "lctx c fl L pl lfl qs" and "DRC_STOP_DLS_REQ_FOR_REFORMING e version k"
  shows "drc_claim_lock_owner e c k claim version False = Some (CT_ERROR, c)"
  using assms(2) lk_bucket_eq[OF lctxD(3)[OF inv], of k]
  by (simp add: drc_claim_lock_owner_def drc_lock_bucket_and_stat_with_version_check_def)

lemma cancel_lock_spec:
  assumes inv: "lctx c fl L pl lfl qs"
  shows "\<exists>ret c' lfl' qs'. drc_cancel_lock_owner_request c inst k = Some (ret, c') \<and>
           lctx c' fl L pl lfl' qs' \<and> q_items L qs' lfl' = q_items L qs lfl \<and> touches (q_items L qs lfl) c c' \<and>
           sent_errors c' = sent_errors c \<and>
           (\<forall>y. (y \<notin> L \<or> res_id (lock c y) \<noteq> k \<or> lk_cvt_inst (lock c y) \<noteq> inst) \<longrightarrow> lock c' y = lock c y \<and> qs' y = qs y) \<and>
           (\<forall>y \<in> L. res_id (lock c y) = k \<and> lk_cvt_inst (lock c y) = inst \<longrightarrow>
              lock_ident (lock c y) (lock c' y) \<and> granted_map (lock c' y) = granted_map (lock c y) \<and> lk_mode (lock c' y) = lk_mode (lock c y) \<and>
              next_converting (reqs (lock_item_pool c) (qs y)) (lock c' y) (reqs (lock_item_pool c') (qs' y)))"
proof -
  note b = lk_bucket_eq[OF lctxD(3)[OF inv], of k] and e = lk_lookup_eq[OF lctxD(3)[OF inv], of k]
  have same: ?thesis if "drc_cancel_lock_owner_request c inst k = Some (ret, c)"
      "\<forall>y \<in> L. res_id (lock c y) = k \<longrightarrow> lk_cvt_inst (lock c y) \<noteq> inst" for ret
    using that inv by (intro exI[of _ ret] exI[of _ c] exI[of _ lfl] exI[of _ qs]) auto
  consider "lk_lookup c k = Some None" | x where "lk_lookup c k = Some (Some x)" "x \<in> L" "res_id (lock c x) = k"
    by (rule lk_lookup_cases[OF inv])
  then show ?thesis
  proof cases
    case 1
    then have "drc_cancel_lock_owner_request c inst k = Some (CT_ERROR, c)"
      using b e by (simp add: drc_cancel_lock_owner_request_def drc_cancel_lock_owner_request_nolock_part_def)
    then show ?thesis using lk_lookup_spec(1)[OF inv, of k] 1 by (intro same) simp_all
  next
    case 2
    have u: "y = x" if "y \<in> L" "res_id (lock c y) = k" for y
      using lk_lookup_spec(2)[OF inv, of k y] 2(1) that by simp
    note l = lctx_linked[OF inv 2(2)]
    have look: "drc_res_map_lookup (lock_map c) (lock_hash (bucket_num (lock_map c)) k) k = Some (Some x)" using 2(1) e by simp
    show ?thesis
    proof (cases "lk_cvt_inst (lock c x) = inst")
      case False
      then have "drc_cancel_lock_owner_request c inst k = Some (CT_SUCCESS, c)"
        using b look l(4) by (simp add: drc_cancel_lock_owner_request_def drc_cancel_lock_owner_request_nolock_part_def)
      then show ?thesis using u False by (intro same) auto
    next
      case True
      from convert_step[OF inv 2(2) lock_ident_refl refl l(6)] obtain pool r' c' lfl' qs' where
        d: "drc_convert_lock_owner (lock_item_pool c) (lock c x) = Some (pool, r')"
          "lk_put (c\<lparr>lock_item_pool := pool\<rparr>) x r' = Some c'" "lctx c' fl L pl lfl' qs'"
          "q_items L qs' lfl' = q_items L qs lfl" "touches (q_items L qs lfl) c c'"
          "\<forall>y. y \<noteq> x \<longrightarrow> lock c' y = lock c y \<and> qs' y = qs y" "lock_ident (lock c x) (lock c' x)" "sent_errors c' = sent_errors c"
          "granted_map (lock c' x) = granted_map (lock c x)" "lk_mode (lock c' x) = lk_mode (lock c x)"
          "next_converting (reqs (lock_item_pool c) (qs x)) (lock c' x) (reqs (lock_item_pool c') (qs' x))" by (elim exE conjE) (rule that)
      have "drc_cancel_lock_owner_request c inst k = Some (CT_SUCCESS, c')"
        using b look l(4) True d(1,2)
        by (simp add: drc_cancel_lock_owner_request_def drc_cancel_lock_owner_request_nolock_part_def)
      moreover have "\<forall>y. (y \<notin> L \<or> res_id (lock c y) \<noteq> k \<or> lk_cvt_inst (lock c y) \<noteq> inst) \<longrightarrow> lock c' y = lock c y \<and> qs' y = qs y"
      proof (intro allI impI)
        fix y
        assume "y \<notin> L \<or> res_id (lock c y) \<noteq> k \<or> lk_cvt_inst (lock c y) \<noteq> inst"
        then have "y \<noteq> x" using 2(2,3) True by auto
        then show "lock c' y = lock c y \<and> qs' y = qs y" using d(6) by simp
      qed
      moreover have "\<forall>y \<in> L. res_id (lock c y) = k \<and> lk_cvt_inst (lock c y) = inst \<longrightarrow>
          lock_ident (lock c y) (lock c' y) \<and> granted_map (lock c' y) = granted_map (lock c y) \<and> lk_mode (lock c' y) = lk_mode (lock c y) \<and>
          next_converting (reqs (lock_item_pool c) (qs y)) (lock c' y) (reqs (lock_item_pool c') (qs' y))"
      proof (intro ballI impI)
        fix y
        assume "y \<in> L" "res_id (lock c y) = k \<and> lk_cvt_inst (lock c y) = inst"
        then have "y = x" using u by simp
        then show "lock_ident (lock c y) (lock c' y) \<and> granted_map (lock c' y) = granted_map (lock c y) \<and> lk_mode (lock c' y) = lk_mode (lock c y) \<and>
            next_converting (reqs (lock_item_pool c) (qs y)) (lock c' y) (reqs (lock_item_pool c') (qs' y))"
          using d(7,9-11) by (simp del: map_eq_conv)
      qed
      ultimately show ?thesis using d(3-5,8)
        by - (rule exI[of _ CT_SUCCESS], rule exI[of _ c'], rule exI[of _ lfl'], rule exI[of _ qs'], intro conjI; assumption)
    qed
  qed
qed

end
