(* ===== verification/Drc_Lock_Ops.thy ===== *)
theory Drc_Lock_Ops
  imports Drc_Lock_Inv
begin

text \<open>
  The lock handlers under the invariant: what each of them does to the lock it names, that it
  leaves every other lock alone, that it keeps the invariant, and when it stops at an assertion.
  The step relation \<open>lock_step\<close> collects the handlers; the polling loop of a queued request is
  treated last, under a rely condition on the other threads.
\<close>

section \<open>Release and recycle\<close>

abbreviation lk_idle :: "drc_master_res_t \<Rightarrow> bool" where
  "lk_idle r \<equiv> lk_cvt_inst r = CT_INVALID_ID8 \<and> granted_map r = 0"

definition released_res :: "uint8 \<Rightarrow> drc_master_res_t \<Rightarrow> drc_master_res_t" where
  "released_res inst r =
     (let r = r\<lparr>granted_map := bm_clear (granted_map r) inst\<rparr> in
      if granted_map r = 0 then r\<lparr>lk_mode := DRC_LOCK_NULL\<rparr> else r)"

lemma released_res_fields [simp]:
  "granted_map (released_res inst r) = bm_clear (granted_map r) inst" "lk_converting (released_res inst r) = lk_converting r"
  "lk_convert_q (released_res inst r) = lk_convert_q r" "lock_ident r' (released_res inst r) \<longleftrightarrow> lock_ident r' r"
  by (simp_all add: released_res_def Let_def)

lemma cleared_inv: "lk_inv r rs \<Longrightarrow> lk_inv (r\<lparr>granted_map := bm_clear (granted_map r) inst\<rparr>) rs"
  unfolding lk_inv_def by (auto simp flip: insts_eq_empty)

lemma released_inv: "lk_inv r rs \<Longrightarrow> lk_inv (released_res inst r) rs"
  using cleared_inv[of r rs inst] by (auto simp: released_res_def Let_def lk_inv_def)

text \<open>
  What a release does to the catalogue: the body of lock \<open>x\<close> becomes \<open>r\<close>, or the lock is
  dropped when nobody uses it any more.
\<close>

definition shrunk ::
  "drc_master_res_t \<Rightarrow> uint32 \<Rightarrow> 'c drc_lock_ctx_scheme \<Rightarrow> uint32 set \<Rightarrow> (uint16 \<Rightarrow> uint32 list)
     \<Rightarrow> 'c drc_lock_ctx_scheme \<Rightarrow> uint32 set \<Rightarrow> (uint16 \<Rightarrow> uint32 list) \<Rightarrow> bool" where
  "shrunk r x c L pl c' L' pl' \<longleftrightarrow>
     (if lk_idle r then L' = L - {x} \<and> pl' = (\<lambda>q. remove1 x (pl q)) else L' = L \<and> pl' = pl \<and> lock c' x = r) \<and>
     (\<forall>y \<in> L - {x}. body_eq (lock c y) (lock c' y)) \<and>
     lock_item_pool c' = lock_item_pool c \<and> sent_errors c' = sent_errors c"

lemma shrink_spec:
  assumes inv: "lctx c fl L pl lfl qs" and x: "x \<in> L" and r: "lock_ident (lock c x) r"
    "lk_convert_q r = lk_convert_q (lock c x)" "lk_inv r (reqs (lock_item_pool c) (qs x))"
  shows "\<exists>c1 c' fl' L' pl'. lk_put c x r = Some c1 \<and>
           (if lk_idle r then drc_drop_lock_res c1 (lock_hash (bucket_num (lock_map c)) (res_id r)) (res_id r) x = Some c' else c' = c1) \<and>
           lctx c' fl' L' pl' lfl qs \<and> q_items L' qs lfl = q_items L qs lfl \<and> touches (q_items L qs lfl) c c' \<and>
           shrunk r x c L pl c' L' pl'"
proof -
  from lctx_update_res[OF inv x r] obtain c1 where
    c1: "lk_put c x r = Some c1" "c1 = c\<lparr>global_lock_res := global_lock_res c1\<rparr>"
      "\<And>y. lock c1 y = (if y = x then r else lock c y)" "lctx c1 fl L pl lfl qs" "touches (q_items L qs lfl) c c1" by blast
  have s: "lock_item_pool c1 = lock_item_pool c" "sent_errors c1 = sent_errors c" by (subst c1(2), simp)+
  have n: "bucket_num (lock_map c1) = bucket_num (lock_map c)" using c1(5) by (simp add: touches_def)
  have b1: "body_eq (lock c y) (lock c1 y)" if "y \<in> L - {x}" for y using that c1(3) by simp
  show ?thesis
  proof (cases "lk_idle r")
    case False
    then have "shrunk r x c L pl c1 L pl" using s b1 c1(3) by (auto simp: shrunk_def)
    then show ?thesis using c1 False by (intro exI[of _ c1] exI[of _ fl] exI[of _ L] exI[of _ pl] conjI) auto
  next
    case True
    have e: "lock c1 x = r" by (simp add: c1(3))
    from drop_lock_spec[OF c1(4) x] True obtain c' where
      d: "drc_drop_lock_res c1 (lock_hash (bucket_num (lock_map c)) (res_id r)) (res_id r) x = Some c'"
        "lctx c' (x # fl) (L - {x}) (\<lambda>q. remove1 x (pl q)) lfl qs" "q_items (L - {x}) qs lfl = q_items L qs lfl"
        "touches (q_items L qs lfl) c1 c'" "\<forall>y \<in> L - {x}. body_eq (lock c1 y) (lock c' y)"
        "lock_item_pool c' = lock_item_pool c1" "sent_errors c' = sent_errors c1" unfolding e n by blast
    have "body_eq (lock c y) (lock c' y)" if y: "y \<in> L - {x}" for y
    proof -
      have "lock c1 y = lock c y" using y c1(3)[of y] by simp
      then show ?thesis using bspec[OF d(5) y] by simp
    qed
    then have "shrunk r x c L pl c' (L - {x}) (\<lambda>q. remove1 x (pl q))" using True s d(6,7) by (simp add: shrunk_def)
    then show ?thesis
      using c1(1) True d(1-3) touches_trans[OF c1(5) d(4)]
      by - (rule exI[of _ c1], rule exI[of _ c'], rule exI[of _ "x # fl"], rule exI[of _ "L - {x}"], rule exI[of _ "\<lambda>q. remove1 x (pl q)"], simp)
  qed
qed

lemma release_lock_spec:
  assumes inv: "lctx c fl L pl lfl qs" and x: "x \<in> L" and g: "inst \<in> insts (granted_map (lock c x))"
  shows "\<exists>c' fl' L' pl'. drc_release_lock_owner c inst (res_id (lock c x)) = Some (CT_SUCCESS, c') \<and>
           lctx c' fl' L' pl' lfl qs \<and> q_items L' qs lfl = q_items L qs lfl \<and> touches (q_items L qs lfl) c c' \<and>
           shrunk (released_res inst (lock c x)) x c L pl c' L' pl'"
proof -
  note l = lctx_linked[OF inv x] and b = lk_bucket_eq[OF lctxD(3)[OF inv]]
  have look: "drc_res_map_lookup (lock_map c) (lock_hash (bucket_num (lock_map c)) (res_id (lock c x))) (res_id (lock c x)) = Some (Some x)"
    using lk.rep_lookup(2)[OF lctxD(2)[OF inv]] x by simp
  let ?r = "released_res inst (lock c x)"
  have k: "res_id ?r = res_id (lock c x)" by (simp add: released_res_def Let_def)
  from shrink_spec[OF inv x, of ?r] released_inv[OF l(6), of inst] obtain c1 c' fl' L' pl' where
    d: "lk_put c x ?r = Some c1" "if lk_idle ?r then drc_drop_lock_res c1 (lock_hash (bucket_num (lock_map c)) (res_id (lock c x))) (res_id (lock c x)) x = Some c' else c' = c1"
      "lctx c' fl' L' pl' lfl qs" "q_items L' qs lfl = q_items L qs lfl" "touches (q_items L qs lfl) c c'" "shrunk ?r x c L pl c' L' pl'"
    unfolding k by auto
  have "drc_release_lock_owner c inst (res_id (lock c x)) = Some (CT_SUCCESS, c')"
    using b look l(4) g insts_less[OF g] d(1,2)
    by (auto simp: drc_release_lock_owner_def panic_simps word_neq_0_conv Let_def released_res_def split: if_splits)
  then show ?thesis using d(3-6) by blast
qed

lemma release_lock_other:
  assumes inv: "lctx c fl L pl lfl qs" and i: "inst < CT_MAX_INSTANCES"
    and n: "\<And>x. x \<in> L \<Longrightarrow> res_id (lock c x) = k \<Longrightarrow> inst \<notin> insts (granted_map (lock c x))"
  shows "drc_release_lock_owner c inst k = Some (CT_ERROR, c)"
proof -
  note b = lk_bucket_eq[OF lctxD(3)[OF inv], of k] and e = lk_lookup_eq[OF lctxD(3)[OF inv], of k, symmetric]
  show ?thesis
  proof (rule lk_lookup_cases[OF inv, of k])
    assume "lk_lookup c k = Some None"
    then show ?thesis using b by (simp add: drc_release_lock_owner_def e)
  next
    fix x
    assume x: "lk_lookup c k = Some (Some x)" "x \<in> L" "res_id (lock c x) = k"
    then show ?thesis using b n lctx_linked(4)[OF inv x(2)] i by (simp add: drc_release_lock_owner_def e panic_simps)
  qed
qed

lemma recycle_lock_spec:
  assumes inv: "lctx c fl L pl lfl qs" and x: "x \<in> L" and i: "inst < CT_MAX_INSTANCES"
    and go: "\<not> DRC_STOP_DLS_REQ_FOR_REFORMING e version (res_id (lock c x))"
  shows "\<exists>c' fl' L' pl'. drc_recycle_dls_master e c (res_id (lock c x)) version inst = Some (CT_SUCCESS, c') \<and>
           lctx c' fl' L' pl' lfl qs \<and> q_items L' qs lfl = q_items L qs lfl \<and> touches (q_items L qs lfl) c c' \<and>
           shrunk ((lock c x)\<lparr>granted_map := bm_clear (granted_map (lock c x)) inst\<rparr>) x c L pl c' L' pl'"
proof -
  note l = lctx_linked[OF inv x] and b = lk_bucket_eq[OF lctxD(3)[OF inv]]
  have look: "drc_res_map_lookup (lock_map c) (lock_hash (bucket_num (lock_map c)) (res_id (lock c x))) (res_id (lock c x)) = Some (Some x)"
    using lk.rep_lookup(2)[OF lctxD(2)[OF inv]] x by simp
  let ?r = "(lock c x)\<lparr>granted_map := bm_clear (granted_map (lock c x)) inst\<rparr>"
  have k: "res_id ?r = res_id (lock c x)" by simp
  from shrink_spec[OF inv x, of ?r] cleared_inv[OF l(6), of inst] obtain c1 c' fl' L' pl' where
    d: "lk_put c x ?r = Some c1" "if lk_idle ?r then drc_drop_lock_res c1 (lock_hash (bucket_num (lock_map c)) (res_id (lock c x))) (res_id (lock c x)) x = Some c' else c' = c1"
      "lctx c' fl' L' pl' lfl qs" "q_items L' qs lfl = q_items L qs lfl" "touches (q_items L qs lfl) c c'" "shrunk ?r x c L pl c' L' pl'"
    unfolding k by auto
  have "drc_recycle_dls_master e c (res_id (lock c x)) version inst = Some (CT_SUCCESS, c')"
    using b look l(4) i go d(1,2) by (auto simp: drc_recycle_dls_master_def panic_simps Let_def split: if_splits)
  then show ?thesis using d(3-6) by blast
qed

lemma recycle_lock_other:
  assumes inv: "lctx c fl L pl lfl qs" and n: "DRC_STOP_DLS_REQ_FOR_REFORMING e version k \<or> lk_lookup c k = Some None"
  shows "\<exists>ret. drc_recycle_dls_master e c k version inst = Some (ret, c)"
  using n lk_bucket_eq[OF lctxD(3)[OF inv], of k] lk_lookup_eq[OF lctxD(3)[OF inv], of k]
  by (auto simp: drc_recycle_dls_master_def)

lemma clear_granted_spec:
  assumes inv: "lctx c fl L pl lfl qs" and x: "x \<in> L" and i: "inst < CT_MAX_INSTANCES"
  shows "\<exists>c'. dls_clear_granted_map_for_inst c (res_id (lock c x)) inst = Some c' \<and> lctx c' fl L pl lfl qs \<and>
           touches (q_items L qs lfl) c c' \<and> (\<forall>y. lock c' y = (if y = x then released_res inst (lock c x) else lock c y))"
proof -
  note l = lctx_linked[OF inv x]
  have look: "lk_lookup c (res_id (lock c x)) = Some (Some x)" using lk_lookup_spec(2)[OF inv] x by simp
  from lctx_update_res[OF inv x, of "released_res inst (lock c x)"] released_inv[OF l(6), of inst] obtain c' where
    d: "lk_put c x (released_res inst (lock c x)) = Some c'" "\<forall>y. lock c' y = (if y = x then released_res inst (lock c x) else lock c y)"
      "lctx c' fl L pl lfl qs" "touches (q_items L qs lfl) c c'" by auto
  have "dls_clear_granted_map_for_inst c (res_id (lock c x)) inst = Some c'"
    using look l(4) i d(1) by (simp add: dls_clear_granted_map_for_inst_def panic_simps Let_def released_res_def)
  then show ?thesis using d by blast
qed

section \<open>Requests\<close>

lemma lock_mode_cases:
  assumes "(m :: uint8) \<le> DRC_LOCK_EXCLUSIVE"
  obtains "m = DRC_LOCK_NULL" | "m = DRC_LOCK_SHARE" | "m = DRC_LOCK_EXCLUSIVE"
proof -
  have "unat m \<le> 2" using assms by (simp add: word_le_nat_alt)
  then consider "unat m = unat (0 :: uint8)" | "unat m = unat (1 :: uint8)" | "unat m = unat (2 :: uint8)" by fastforce
  then show thesis using that unfolding unat_eq_iff by cases
qed

text \<open>The two modes go together: everything with null, and share with share.\<close>

definition compatible :: "uint8 \<Rightarrow> uint8 \<Rightarrow> bool" where
  "compatible req cur \<longleftrightarrow> req = DRC_LOCK_NULL \<or> cur = DRC_LOCK_NULL \<or> req = DRC_LOCK_SHARE \<and> cur = DRC_LOCK_SHARE"

lemma matrix_compatible:
  assumes "req \<le> DRC_LOCK_EXCLUSIVE" "cur \<le> DRC_LOCK_EXCLUSIVE"
  shows "g_mode_compatible_matrix req cur = Some (compatible req cur)"
  using assms
  by (elim lock_mode_cases) (simp_all add: g_mode_compatible_matrix_def compatible_def)

lemma req_ok_mode: "req_ok q \<Longrightarrow> req_mode q \<le> DRC_LOCK_EXCLUSIVE"
  by (auto simp: req_ok_def word_le_nat_alt)

definition lock_reply_of :: "drc_req_info_t \<Rightarrow> drc_master_res_t \<Rightarrow> drc_lock_reply" where
  "lock_reply_of req r = (if compatible (req_mode req) (lk_mode r) then \<lparr>is_granted = True, old_owner_map = 0\<rparr>
     else \<lparr>is_granted = False, old_owner_map = granted_map r\<rparr>)"

lemma lock_answer_eq: "lk_inv r rs \<Longrightarrow> req_ok req \<Longrightarrow> drc_lock_answer req r = Some (lock_reply_of req r)"
  using matrix_compatible[OF req_ok_mode lk_invD(4)] by (simp add: drc_lock_answer_def lock_reply_of_def)

lemma set_req_inv: "lk_inv r [] \<Longrightarrow> req_ok req \<Longrightarrow> lk_inv (set_lk_req req r) []"
  using req_ok_valid[of req] by (simp add: lk_inv_def)

text \<open>A request becomes the converting one of an idle lock.\<close>

lemma start_converting:
  assumes inv: "lctx c fl L pl lfl qs" and x: "x \<in> L" and idle: "lk_cvt_inst (lock c x) = CT_INVALID_ID8" and ok: "req_ok req"
  shows "\<exists>c'. lk_put c x (set_lk_req req (lock c x)) = Some c' \<and> lctx c' fl L pl lfl qs \<and> touches (q_items L qs lfl) c c' \<and>
           (\<forall>y. lock c' y = (if y = x then set_lk_req req (lock c x) else lock c y)) \<and>
           lock_item_pool c' = lock_item_pool c \<and> sent_errors c' = sent_errors c"
proof -
  note l = lctx_linked[OF inv x]
  have q: "qs x = []" using lk_invD(1)[OF l(6) idle] by simp
  from lctx_update_res[OF inv x, of "set_lk_req req (lock c x)"] l(6) set_req_inv[OF _ ok, of "lock c x"] q
  obtain c' where d: "lk_put c x (set_lk_req req (lock c x)) = Some c'" "c' = c\<lparr>global_lock_res := global_lock_res c'\<rparr>"
      "\<forall>y. lock c' y = (if y = x then set_lk_req req (lock c x) else lock c y)" "lctx c' fl L pl lfl qs" "touches (q_items L qs lfl) c c'"
    by auto
  have "lock_item_pool c' = lock_item_pool c" "sent_errors c' = sent_errors c" by (subst d(2), simp)+
  then show ?thesis using d by blast
qed

lemma create_converting_full:
  assumes "lctx c [] L pl lfl qs"
  shows "drc_lock_create_converting c k req = Some (CT_ERROR, c)"
  by (simp add: drc_lock_create_converting_def lk_bucket_eq[OF lctxD(3)[OF assms]] create_lock_full[OF assms])

lemma create_converting_spec:
  assumes inv: "lctx c (x # fl) L pl lfl qs" and new: "lk_lookup c k = Some None" and ok: "req_ok req"
  shows "\<exists>c' pl'. drc_lock_create_converting c k req = Some (CT_SUCCESS, c') \<and>
           lctx c' fl (insert x L) pl' lfl (qs(x := [])) \<and> q_items (insert x L) (qs(x := [])) lfl = q_items L qs lfl \<and> x \<notin> L \<and>
           touches (q_items L qs lfl) c c' \<and> (\<forall>y \<in> L. body_eq (lock c y) (lock c' y)) \<and>
           res_id (lock c' x) = k \<and> lk_mode (lock c' x) = DRC_LOCK_NULL \<and> granted_map (lock c' x) = 0 \<and>
           req_info (lk_converting (lock c' x)) = req"
proof -
  from create_lock_spec[OF inv new] obtain c1 pl' where
    d: "drc_create_lock_res c k (lock_hash (bucket_num (lock_map c)) k) = Some (CT_SUCCESS, c1)"
      "lctx c1 fl (insert x L) pl' lfl (qs(x := []))" "x \<notin> L" "\<forall>y \<in> L. body_eq (lock c y) (lock c1 y)"
      "body_eq (drc_new_lock_res k (lock_hash DRC_MAX_PART_NUM k) x (lock c x)) (lock c1 x)" "touches (q_items L qs lfl) c c1" by blast
  note f = lock_body_eq[OF d(5), unfolded drc_new_lock_res_def]
  have x: "res_id (lock c1 x) = k" "lk_cvt_inst (lock c1 x) = CT_INVALID_ID8"
    using f(1,6) by (simp_all add: g_invalid_req_info_def)
  have e: "q_items (insert x L) (qs(x := [])) lfl = q_items L qs lfl" using d(3) by (auto split: if_splits)
  have look: "lk_lookup c1 k = Some (Some x)" using lk_lookup_spec(2)[OF d(2)] x by simp
  from start_converting[OF d(2) _ x(2) ok] obtain c2 where
    s: "lk_put c1 x (set_lk_req req (lock c1 x)) = Some c2" "lctx c2 fl (insert x L) pl' lfl (qs(x := []))"
      "touches (q_items L qs lfl) c1 c2" "\<forall>y. lock c2 y = (if y = x then set_lk_req req (lock c1 x) else lock c1 y)"
    unfolding e by blast
  have "drc_lock_create_converting c k req = Some (CT_SUCCESS, c2)"
    using d(1) look s(1) lctx_linked(4)[OF d(2), of x] lk_bucket_eq[OF lctxD(3)[OF inv], of k]
    by (simp add: drc_lock_create_converting_def)
  moreover have "body_eq (lock c y) (lock c2 y)" if y: "y \<in> L" for y
  proof -
    have "lock c2 y = lock c1 y" using y d(3) s(4) by auto
    then show ?thesis using bspec[OF d(4) y] by simp
  qed
  moreover have "res_id (lock c2 x) = k" "lk_mode (lock c2 x) = DRC_LOCK_NULL" "granted_map (lock c2 x) = 0"
    "req_info (lk_converting (lock c2 x)) = req" using s(4) x f(4,5) by simp_all
  ultimately show ?thesis
    using e s(2) d(3) touches_trans[OF d(6) s(3)]
    by - (rule exI[of _ c2], rule exI[of _ pl'], intro conjI ballI; assumption?; blast)
qed

text \<open>A request that has to wait.\<close>

lemma enqueue_lock_full:
  assumes inv: "lctx c fl L pl [] qs" and x: "x \<in> L"
  shows "\<exists>c'. drc_request_lock_owner_add_req_into_cvt_q c x req = Some (CT_ERROR, c') \<and> lctx c' fl L pl [] qs \<and>
           touches (q_items L qs []) c c' \<and> (\<forall>y. lock c' y = lock c y)"
proof -
  note l = lctx_linked[OF inv x]
  from lctx_update_res[OF inv x _ _ l(6)] obtain c' where
    d: "lk_put c x (lock c x) = Some c'" "\<forall>y. lock c' y = lock c y" "lctx c' fl L pl [] qs" "touches (q_items L qs []) c c'" by auto
  then show ?thesis using enqueue_full[OF l(5)] l(4) by (simp add: drc_request_lock_owner_add_req_into_cvt_q_def)
qed

lemma enqueue_lock_spec:
  assumes inv: "lctx c fl L pl (i # lfl) qs" and x: "x \<in> L" and busy: "lk_cvt_inst (lock c x) \<noteq> CT_INVALID_ID8" and ok: "req_ok req"
  shows "\<exists>c'. drc_request_lock_owner_add_req_into_cvt_q c x req = Some (CT_SUCCESS, c') \<and>
           lctx c' fl L pl lfl (qs(x := qs x @ [i])) \<and> q_items L (qs(x := qs x @ [i])) lfl = q_items L qs (i # lfl) \<and>
           touches (q_items L qs (i # lfl)) c c' \<and> reqs (lock_item_pool c') (qs x @ [i]) = reqs (lock_item_pool c) (qs x) @ [req] \<and>
           (\<forall>y. y \<noteq> x \<longrightarrow> lock c' y = lock c y) \<and> lock_ident (lock c x) (lock c' x) \<and> lk_converting (lock c' x) = lk_converting (lock c x) \<and>
           granted_map (lock c' x) = granted_map (lock c x) \<and> lk_mode (lock c' x) = lk_mode (lock c x)"
proof -
  note l = lctx_linked[OF inv x]
  from enqueue_spec[OF l(5), of req] obtain pool q where
    e: "drc_cvt_q_enqueue (lock_item_pool c) (lk_convert_q (lock c x)) req = Some (CT_SUCCESS, pool, q)"
      "qrep pool lfl q (qs x @ [i])" "qstep (lock_item_pool c) (i # lfl) (qs x) pool lfl (qs x @ [i])"
      "reqs pool (qs x @ [i]) = reqs (lock_item_pool c) (qs x) @ [req]" by blast
  define r where "r = (lock c x)\<lparr>lk_convert_q := q\<rparr>"
  have "lk_inv r (reqs pool (qs x @ [i]))" unfolding e(4) using l(6) busy ok by (auto simp: lk_inv_def r_def)
  from lctx_update[OF inv x _ _ e(3) this] e(2) obtain c' where
    d: "lk_put (c\<lparr>lock_item_pool := pool\<rparr>) x r = Some c'" "c' = c\<lparr>lock_item_pool := pool, global_lock_res := global_lock_res c'\<rparr>"
      "\<And>y. lock c' y = (if y = x then r else lock c y)" "lctx c' fl L pl lfl (qs(x := qs x @ [i]))"
      "q_items L (qs(x := qs x @ [i])) lfl = q_items L qs (i # lfl)" "touches (q_items L qs (i # lfl)) c c'"
    by (auto simp: r_def)
  have "lock_item_pool c' = pool" by (subst d(2), simp)
  moreover have "drc_request_lock_owner_add_req_into_cvt_q c x req = Some (CT_SUCCESS, c')"
    using e(1) l(4) d(1) by (simp add: drc_request_lock_owner_add_req_into_cvt_q_def r_def)
  ultimately show ?thesis using d(3-6) e(4) by (intro exI[of _ c']) (simp add: r_def)
qed

section \<open>The request handler\<close>

lemma request_stopped:
  assumes inv: "lctx c fl L pl lfl qs" and "DRC_STOP_DLS_REQ_FOR_REFORMING e version k"
  shows "drc_request_lock_owner_begin e c k req out version = Some (LockDone CT_ERROR out c)"
  using assms(2) lk_bucket_eq[OF lctxD(3)[OF inv], of k] by (simp add: drc_request_lock_owner_begin_def)

lemma request_unknown:
  assumes inv: "lctx c fl L pl lfl qs" and go: "\<not> DRC_STOP_DLS_REQ_FOR_REFORMING e version k" and new: "lk_lookup c k = Some None"
  shows "drc_request_lock_owner_begin e c k req out version =
      do { (ret, c) \<leftarrow> drc_lock_create_converting c k req; knl_panic (ret = CT_SUCCESS);
           Some (LockDone CT_SUCCESS \<lparr>is_granted = True, old_owner_map = 0\<rparr> c) }"
  using go new lk_bucket_eq[OF lctxD(3)[OF inv], of k] by (simp add: drc_request_lock_owner_begin_def)

lemma request_known:
  assumes inv: "lctx c fl L pl lfl qs" and go: "\<not> DRC_STOP_DLS_REQ_FOR_REFORMING e version (res_id (lock c x))"
    and x: "x \<in> L" and ok: "req_ok req"
  shows "drc_request_lock_owner_begin e c (res_id (lock c x)) req out version =
      (if lk_cvt_inst (lock c x) = CT_INVALID_ID8 then
         do { c' \<leftarrow> lk_put c x (set_lk_req req (lock c x)); Some (LockDone CT_SUCCESS (lock_reply_of req (lock c x)) c') }
       else if inst_id req \<in> insts (granted_map (lock c x)) then Some (LockDone CT_ERROR (out\<lparr>is_granted := False\<rparr>) c)
       else do { (ret, c) \<leftarrow> drc_request_lock_owner_add_req_into_cvt_q c x req;
                 if ret \<noteq> CT_SUCCESS then Some (LockDone CT_ERROR out c) else Some (LockWait x c) })"
proof -
  note l = lctx_linked[OF inv x]
  have look: "lk_lookup c (res_id (lock c x)) = Some (Some x)" using lk_lookup_spec(2)[OF inv] x by simp
  have q: "list_count (lk_convert_q (lock c x)) = 0" if "lk_cvt_inst (lock c x) = CT_INVALID_ID8"
    using lk_invD(1)[OF l(6) that] l(5) queue_inv_count(2) by (auto simp: qrep_def)
  have m: "\<not> lk_mode (lock c x) > DRC_LOCK_EXCLUSIVE" using lk_invD(4)[OF l(6)] by (simp add: not_less)
  have i: "inst_id req < CT_MAX_INSTANCES" using ok by (simp add: req_ok_def)
  show ?thesis
    using go look l(4) m q i lk_bucket_eq[OF lctxD(3)[OF inv], of "res_id (lock c x)"]
    by (simp add: drc_request_lock_owner_begin_def lock_answer_eq[OF l(6) ok] panic_simps)
qed

text \<open>What is left of the free lock resources.\<close>

lemma lock_room:
  assumes "lctx c fl L pl lfl qs"
  shows "used_num (res_pool (lock_map c)) < lock_num c \<longleftrightarrow> fl \<noteq> []"
proof -
  have "unat (used_num (res_pool (lock_map c))) + length fl = unat (lock_num c)"
    using gres_repD(1)[OF lctxD(2)[OF assms]] by (simp add: pool_inv_def)
  then show ?thesis by (cases fl) (simp_all add: word_less_nat_alt)
qed

text \<open>The request is still in the queue of lock \<open>x\<close> or is its converting request.\<close>

definition awaits :: "'c drc_lock_ctx_scheme \<Rightarrow> uint32 \<Rightarrow> drc_req_info_t \<Rightarrow> bool" where
  "awaits c x req \<longleftrightarrow> (\<exists>fl L pl lfl qs. lctx c fl L pl lfl qs \<and> x \<in> L \<and>
     (req \<in> set (reqs (lock_item_pool c) (qs x)) \<or> lk_cvt_inst (lock c x) = inst_id req))"

lemma lock_okI: "lctx c fl L pl lfl qs \<Longrightarrow> q_items L qs lfl = S \<Longrightarrow> lock_ok S c"
  unfolding lock_ok_def by blast

lemma request_begin_ok:
  assumes ok: "lock_ok S c" and r: "req_ok req"
    and room: "lk_lookup c k = Some None \<Longrightarrow> used_num (res_pool (lock_map c)) < lock_num c"
  shows "\<exists>st. drc_request_lock_owner_begin e c k req out version = Some st \<and>
           (case st of LockDone ret out' c' \<Rightarrow> lock_ok S c' \<and> touches S c c'
            | LockWait x c' \<Rightarrow> lock_ok S c' \<and> touches S c c' \<and> awaits c' x req \<and> res_id (lock c' x) = k)"
proof -
  obtain fl L pl lfl qs where inv: "lctx c fl L pl lfl qs" and S: "S = q_items L qs lfl" using ok by (auto simp: lock_ok_def)
  show ?thesis
  proof (cases "DRC_STOP_DLS_REQ_FOR_REFORMING e version k")
    case True
    then show ?thesis using request_stopped[OF inv] ok by simp
  next
    case go: False
    show ?thesis
    proof (rule lk_lookup_cases[OF inv, of k])
      assume new: "lk_lookup c k = Some None"
      then obtain x fl' where fl: "fl = x # fl'" using room lock_room[OF inv] by (cases fl) auto
      from create_converting_spec[OF inv[unfolded fl] new r] obtain c' pl' where
        d: "drc_lock_create_converting c k req = Some (CT_SUCCESS, c')" "lctx c' fl' (insert x L) pl' lfl (qs(x := []))"
          "q_items (insert x L) (qs(x := [])) lfl = S" "touches S c c'" unfolding S by blast
      then show ?thesis using request_unknown[OF inv go new, of req out] lock_okI[OF d(2,3)] by simp
    next
      fix x
      assume x: "lk_lookup c k = Some (Some x)" "x \<in> L" "res_id (lock c x) = k"
      note e = request_known[OF inv _ x(2) r, of e version out, unfolded x(3), OF go]
      show ?thesis
      proof (cases "lk_cvt_inst (lock c x) = CT_INVALID_ID8")
        case True
        from start_converting[OF inv x(2) True r] obtain c' where
          d: "lk_put c x (set_lk_req req (lock c x)) = Some c'" "lctx c' fl L pl lfl qs" "touches S c c'" unfolding S by blast
        then show ?thesis using e True lock_okI[OF d(2) S[symmetric]] by simp
      next
        case busy: False
        show ?thesis
        proof (cases "inst_id req \<in> insts (granted_map (lock c x))")
          case True
          then show ?thesis using e busy ok by simp
        next
          case free: False
          show ?thesis
          proof (cases lfl)
            case Nil
            from enqueue_lock_full[OF inv[unfolded Nil] x(2)] obtain c' where
              d: "drc_request_lock_owner_add_req_into_cvt_q c x req = Some (CT_ERROR, c')" "lctx c' fl L pl [] qs" "touches S c c'"
              unfolding S Nil by blast
            then show ?thesis using e busy free lock_okI[OF d(2)] S Nil by simp
          next
            case (Cons i lfl')
            from enqueue_lock_spec[OF inv[unfolded Cons] x(2) busy r] obtain c' where
              d: "drc_request_lock_owner_add_req_into_cvt_q c x req = Some (CT_SUCCESS, c')" "lctx c' fl L pl lfl' (qs(x := qs x @ [i]))"
                "q_items L (qs(x := qs x @ [i])) lfl' = S" "touches S c c'"
                "reqs (lock_item_pool c') (qs x @ [i]) = reqs (lock_item_pool c) (qs x) @ [req]" "lock_ident (lock c x) (lock c' x)"
              unfolding S Cons by blast
            have "awaits c' x req" unfolding awaits_def
              using d(2,5) x(2) by - (rule exI[of _ fl], rule exI[of _ L], rule exI[of _ pl], rule exI[of _ lfl'], rule exI[of _ "qs(x := qs x @ [i])"], simp add: d(5) del: map_append)
            moreover have "res_id (lock c' x) = k" using d(6) x(3) by (simp add: lock_ident_def)
            ultimately show ?thesis using e busy free d(1,4) lock_okI[OF d(2,3)] by simp
          qed
        qed
      qed
    qed
  qed
qed

section \<open>Cleaning after a crash\<close>

definition cleaned_of :: "uint8 \<Rightarrow> drc_master_res_t \<Rightarrow> drc_master_res_t \<Rightarrow> bool" where
  "cleaned_of inst r r' \<longleftrightarrow>
     res_id r' = res_id r \<and> part_id r' = part_id r \<and> list_count (lk_convert_q r') = 0 \<and>
     lk_cvt_inst r' = (if lk_cvt_inst r = inst then CT_INVALID_ID8 else lk_cvt_inst r) \<and>
     insts (granted_map r') = insts (granted_map r) - {inst}"

lemma cleaned_of_body_eq: "cleaned_of inst r r' \<Longrightarrow> body_eq r' r'' \<Longrightarrow> cleaned_of inst r r''"
  using lock_body_eq[of r' r''] by (simp add: cleaned_of_def)

lemma body_eq_cleaned_of: "body_eq r r' \<Longrightarrow> cleaned_of inst r' r'' \<Longrightarrow> cleaned_of inst r r''"
  using lock_body_eq[of r r'] by (simp add: cleaned_of_def)

lemma body_eq_trans: "body_eq a b \<Longrightarrow> body_eq b c \<Longrightarrow> body_eq a c"
proof -
  assume "body_eq a b" "body_eq b c"
  then obtain n nd n' nd' where "b = a\<lparr>nxt := n, node := nd\<rparr>" "c = b\<lparr>nxt := n', node := nd'\<rparr>" unfolding body_eq_def by blast
  then have "c = a\<lparr>nxt := n', node := nd'\<rparr>" by simp
  then show "body_eq a c" unfolding body_eq_def by blast
qed

lemma cancel_nolock_eq: "drc_cancel_lock_owner_request_nolock = drc_cancel_lock_owner_request"
  by (simp add: fun_eq_iff drc_cancel_lock_owner_request_nolock_def drc_cancel_lock_owner_request_def)

text \<open>The queue of the lock is emptied, and its waiters are answered.\<close>

lemma clean_queue_step:
  assumes inv: "lctx c fl L pl lfl qs" and x: "x \<in> L"
  shows "\<exists>pool q c' lfl'. drc_clean_convert_q self inst (lock_item_pool c) (lk_convert_q (lock c x)) =
             Some (pool, q, map (err_reply self) (filter (\<lambda>r. inst_id r \<noteq> inst) (reqs (lock_item_pool c) (qs x)))) \<and>
           lk_put (c\<lparr>lock_item_pool := pool, sent_errors := es\<rparr>) x ((lock c x)\<lparr>lk_convert_q := q\<rparr>) = Some c' \<and>
           lctx c' fl L pl lfl' (qs(x := [])) \<and> q_items L (qs(x := [])) lfl' = q_items L qs lfl \<and>
           touches (q_items L qs lfl) c c' \<and> sent_errors c' = es \<and>
           (\<forall>y. lock c' y = (if y = x then (lock c x)\<lparr>lk_convert_q := q\<rparr> else lock c y))"
proof -
  note l = lctx_linked[OF inv x]
  from clean_q_spec[OF l(5), of self inst] obtain pool q where
    d: "drc_clean_convert_q self inst (lock_item_pool c) (lk_convert_q (lock c x)) =
          Some (pool, q, map (err_reply self) (filter (\<lambda>r. inst_id r \<noteq> inst) (reqs (lock_item_pool c) (qs x))))"
      "qrep pool (rev (qs x) @ lfl) q []" "qstep (lock_item_pool c) lfl (qs x) pool (rev (qs x) @ lfl) []" by blast
  define r where "r = (lock c x)\<lparr>lk_convert_q := q\<rparr>"
  let ?c = "c\<lparr>sent_errors := es\<rparr>"
  have r: "lk_inv r (reqs pool [])" "lock_ident (lock ?c x) r" "qrep pool (rev (qs x) @ lfl) (lk_convert_q r) []"
    using l(6) d(2) by (simp_all add: r_def lk_inv_def)
  have s: "lctx ?c fl L pl lfl qs" "qstep (lock_item_pool ?c) lfl (qs x) pool (rev (qs x) @ lfl) []" using inv d(3) by simp_all
  from lctx_update[OF s(1) x r(2,3) s(2) r(1)] obtain c' where
    u: "lk_put (?c\<lparr>lock_item_pool := pool\<rparr>) x r = Some c'" "c' = ?c\<lparr>lock_item_pool := pool, global_lock_res := global_lock_res c'\<rparr>"
      "\<And>y. lock c' y = (if y = x then r else lock ?c y)" "lctx c' fl L pl (rev (qs x) @ lfl) (qs(x := []))"
      "q_items L (qs(x := [])) (rev (qs x) @ lfl) = q_items L qs lfl" "touches (q_items L qs lfl) ?c c'" by blast
  have "sent_errors c' = es" by (subst u(2), simp)
  moreover have com: "c\<lparr>lock_item_pool := pool, sent_errors := es\<rparr> = ?c\<lparr>lock_item_pool := pool\<rparr>" by simp
  have "lk_put (c\<lparr>lock_item_pool := pool, sent_errors := es\<rparr>) x ((lock c x)\<lparr>lk_convert_q := q\<rparr>) = Some c'"
    unfolding com by (rule u(1)[unfolded r_def])
  ultimately show ?thesis
    using d(1) u(3-) r_def
    by - (rule exI[of _ pool], rule exI[of _ q], rule exI[of _ c'], rule exI[of _ "rev (qs x) @ lfl"], simp)
qed

text \<open>A converting request of the crashed instance is cancelled; the queue is empty by now.\<close>

lemma clean_converting_step:
  assumes inv: "lctx c fl L pl lfl qs" and x: "x \<in> L" and q: "qs x = []"
  shows "\<exists>c' lfl' qs'. (if lk_cvt_inst (lock c x) = inst then map_option snd (drc_cancel_lock_owner_request_nolock c inst (res_id (lock c x))) else Some c) = Some c' \<and>
      lctx c' fl L pl lfl' qs' \<and> q_items L qs' lfl' = q_items L qs lfl \<and> touches (q_items L qs lfl) c c' \<and> (\<forall>y. y \<noteq> x \<longrightarrow> lock c' y = lock c y) \<and>
      lock_ident (lock c x) (lock c' x) \<and> granted_map (lock c' x) = granted_map (lock c x) \<and> list_count (lk_convert_q (lock c' x)) = 0 \<and>
      lk_cvt_inst (lock c' x) = (if lk_cvt_inst (lock c x) = inst then CT_INVALID_ID8 else lk_cvt_inst (lock c x))"
proof (cases "lk_cvt_inst (lock c x) = inst")
  case False
  then show ?thesis
    using inv queue_inv_count(2) lctx_linked(5)[OF inv x] q by (intro exI[of _ c] exI[of _ lfl] exI[of _ qs]) (auto simp: qrep_def)
next
  case True
  let ?k = "res_id (lock c x)"
  from cancel_lock_spec[OF inv, of inst ?k] obtain ret c2 lfl2 qs2 where
    b: "drc_cancel_lock_owner_request c inst ?k = Some (ret, c2)" "lctx c2 fl L pl lfl2 qs2"
      "q_items L qs2 lfl2 = q_items L qs lfl" "touches (q_items L qs lfl) c c2"
      "\<forall>y. (y \<notin> L \<or> res_id (lock c y) \<noteq> ?k \<or> lk_cvt_inst (lock c y) \<noteq> inst) \<longrightarrow> lock c2 y = lock c y \<and> qs2 y = qs y"
      "\<forall>y \<in> L. res_id (lock c y) = ?k \<and> lk_cvt_inst (lock c y) = inst \<longrightarrow>
         lock_ident (lock c y) (lock c2 y) \<and> granted_map (lock c2 y) = granted_map (lock c y) \<and> lk_mode (lock c2 y) = lk_mode (lock c y) \<and>
         next_converting (reqs (lock_item_pool c) (qs y)) (lock c2 y) (reqs (lock_item_pool c2) (qs2 y))"
    by (elim exE conjE) (rule that)
  have bx: "lock_ident (lock c x) (lock c2 x)" "granted_map (lock c2 x) = granted_map (lock c x)"
    "next_converting [] (lock c2 x) (reqs (lock_item_pool c2) (qs2 x))" using bspec[OF b(6) x] True q by simp_all
  have "lock c2 y = lock c y" if "y \<noteq> x" for y
  proof (cases "y \<in> L \<and> res_id (lock c y) = ?k")
    case True
    then have "lk_lookup c ?k = Some (Some y)" "lk_lookup c ?k = Some (Some x)" using lk_lookup_spec(2)[OF inv] x by simp_all
    then show ?thesis using that by simp
  next
    case False
    then show ?thesis using b(5) by blast
  qed
  moreover have "list_count (lk_convert_q (lock c2 x)) = 0"
    using lctx_linked(5)[OF b(2) x] queue_inv_count(2) bx(3) by (auto simp: qrep_def next_converting_def)
  ultimately show ?thesis
    using True b(1-4) bx by (intro exI[of _ c2] exI[of _ lfl2] exI[of _ qs2]) (simp add: cancel_nolock_eq next_converting_def)
qed

lemma clean_one_spec:
  assumes inv: "lctx c fl L pl lfl qs" and x: "x \<in> L" and i: "inst < CT_MAX_INSTANCES"
  shows "\<exists>c' fl' L' pl' lfl' qs'. drc_clean_lock_res_of_inst e c inst x = Some c' \<and> lctx c' fl' L' pl' lfl' qs' \<and>
           q_items L' qs' lfl' = q_items L qs lfl \<and> touches (q_items L qs lfl) c c' \<and>
           (if x \<in> L' then L' = L \<and> pl' = pl \<and> cleaned_of inst (lock c x) (lock c' x)
            else L' = L - {x} \<and> pl' = (\<lambda>q. remove1 x (pl q)) \<and> insts (granted_map (lock c x)) = {inst}) \<and>
           (\<forall>y \<in> L - {x}. body_eq (lock c y) (lock c' y))"
proof -
  let ?S = "q_items L qs lfl" and ?k = "res_id (lock c x)"
  note l = lctx_linked[OF inv x]
  obtain es where es: "es = sent_errors c @ map (err_reply (self_inst e)) (filter (\<lambda>r. inst_id r \<noteq> inst) (reqs (lock_item_pool c) (qs x)))" by blast
  from clean_queue_step[OF inv x, of "self_inst e" inst es] obtain pool q c1 lfl1 where
    a: "drc_clean_convert_q (self_inst e) inst (lock_item_pool c) (lk_convert_q (lock c x)) =
          Some (pool, q, map (err_reply (self_inst e)) (filter (\<lambda>r. inst_id r \<noteq> inst) (reqs (lock_item_pool c) (qs x))))"
      "lk_put (c\<lparr>lock_item_pool := pool, sent_errors := es\<rparr>) x ((lock c x)\<lparr>lk_convert_q := q\<rparr>) = Some c1"
      "lctx c1 fl L pl lfl1 (qs(x := []))" "q_items L (qs(x := [])) lfl1 = ?S" "touches ?S c c1"
      "\<forall>y. lock c1 y = (if y = x then (lock c x)\<lparr>lk_convert_q := q\<rparr> else lock c y)" by blast
  have x1: "res_id (lock c1 x) = ?k" "lk_cvt_inst (lock c1 x) = lk_cvt_inst (lock c x)" "granted_map (lock c1 x) = granted_map (lock c x)"
    "part_id (lock c1 x) = part_id (lock c x)" using a(6) by simp_all
  from clean_converting_step[OF a(3) x fun_upd_same, of inst, unfolded a(4) x1(1-3)]
  obtain c2 lfl2 qs2 where
    b: "(if lk_cvt_inst (lock c x) = inst then map_option snd (drc_cancel_lock_owner_request_nolock c1 inst ?k) else Some c1) = Some c2"
      "lctx c2 fl L pl lfl2 qs2" "q_items L qs2 lfl2 = ?S" "touches ?S c1 c2" "\<forall>y. y \<noteq> x \<longrightarrow> lock c2 y = lock c1 y"
      "lock_ident (lock c1 x) (lock c2 x)" "granted_map (lock c2 x) = granted_map (lock c x)" "list_count (lk_convert_q (lock c2 x)) = 0"
      "lk_cvt_inst (lock c2 x) = (if lk_cvt_inst (lock c x) = inst then CT_INVALID_ID8 else lk_cvt_inst (lock c x))"
    by (elim exE conjE) (rule that)
  have x2: "res_id (lock c2 x) = ?k" "part_id (lock c2 x) = part_id (lock c x)" using b(6) x1 by (simp_all add: lock_ident_def)
  have start: "drc_clean_lock_res_of_inst e c inst x =
      (if inst \<in> insts (granted_map (lock c x)) then map_option snd (drc_release_lock_owner c2 inst ?k) else Some c2)"
    using l(4) a(1,2) b(1) lctx_linked(4)[OF b(2) x] i x2(1) b(7)
    by (auto simp: drc_clean_lock_res_of_inst_def Let_def es panic_simps split: if_splits)
  have eq2: "lock c2 y = lock c y" if "y \<noteq> x" for y using b(5) a(6) that by simp
  note t = touches_trans[OF a(5) b(4)]
  show ?thesis
  proof (cases "inst \<in> insts (granted_map (lock c x))")
    case False
    then have "cleaned_of inst (lock c x) (lock c2 x)" using x2 b(7-9) by (simp add: cleaned_of_def)
    then show ?thesis
      using start False b(2,3) t eq2 x
      by - (rule exI[of _ c2], rule exI[of _ fl], rule exI[of _ L], rule exI[of _ pl], rule exI[of _ lfl2], rule exI[of _ qs2], simp)
  next
    case True
    let ?r = "released_res inst (lock c2 x)"
    from release_lock_spec[OF b(2) x, of inst] True b(7) obtain c3 fl3 L3 pl3 where
      r: "drc_release_lock_owner c2 inst ?k = Some (CT_SUCCESS, c3)" "lctx c3 fl3 L3 pl3 lfl2 qs2" "q_items L3 qs2 lfl2 = ?S"
        "touches ?S c2 c3" "shrunk ?r x c2 L pl c3 L3 pl3"
      unfolding b(3) x2(1) by auto
    have sh: "\<forall>y \<in> L - {x}. body_eq (lock c2 y) (lock c3 y)" using r(5) by (simp add: shrunk_def)
    have keep: "body_eq (lock c y) (lock c3 y)" if "y \<in> L - {x}" for y
      using bspec[OF sh that] eq2[of y] that by simp
    have alt: "if x \<in> L3 then L3 = L \<and> pl3 = pl \<and> cleaned_of inst (lock c x) (lock c3 x)
        else L3 = L - {x} \<and> pl3 = (\<lambda>q. remove1 x (pl q)) \<and> insts (granted_map (lock c x)) = {inst}"
    proof (cases "lk_idle ?r")
      case True2: True
      then have "insts (bm_clear (granted_map (lock c x)) inst) = {}" using b(7) by simp
      then have "insts (granted_map (lock c x)) = {inst}" using True by auto
      then show ?thesis using r(5) True2 by (auto simp: shrunk_def)
    next
      case False
      then have "L3 = L" "pl3 = pl" "lock c3 x = ?r" using r(5) by (auto simp: shrunk_def)
      moreover have "cleaned_of inst (lock c x) ?r"
        using x2 b(7-9) by (simp add: cleaned_of_def) (simp add: released_res_def Let_def)
      ultimately show ?thesis using x by simp
    qed
    have "drc_clean_lock_res_of_inst e c inst x = Some c3" using start True r(1) by simp
    then show ?thesis
      using r(2,3) touches_trans[OF t r(4)] alt keep
      by - (rule exI[of _ c3], rule exI[of _ fl3], rule exI[of _ L3], rule exI[of _ pl3], rule exI[of _ lfl2], rule exI[of _ qs2], simp)
  qed
qed

lemma dll_next:
  assumes "dll nd l (ys @ x # xs)"
  shows "node_next (nd x) = (if xs = [] then CT_INVALID_ID32 else hd xs)"
proof -
  obtain m n where "dseg nd m n (x # xs) (list_last l) CT_INVALID_ID32" using assms by (auto simp: dll_def dseg_append)
  then have "dseg nd x (node_next (nd x)) xs (list_last l) CT_INVALID_ID32" by simp
  then show ?thesis by (cases xs) auto
qed

text \<open>
  The loop over a partition list, from its suffix \<open>xs\<close> on. Unless the remaster fails on the way,
  every lock of the suffix is cleaned, and those that go are the ones the crashed instance alone held.
\<close>

lemma clean_locks_loop_spec:
  assumes "lctx c fl L pl lfl qs" and "pl p = ys @ xs" and "xs \<noteq> [] \<longrightarrow> idx = hd xs" and i: "inst < CT_MAX_INSTANCES"
  shows "\<exists>c' fl' L' pl' lfl' qs'. drc_clean_lock_owner_loop (length xs) e c inst idx = Some c' \<and> lctx c' fl' L' pl' lfl' qs' \<and>
           q_items L' qs' lfl' = q_items L qs lfl \<and> touches (q_items L qs lfl) c c' \<and> L' \<subseteq> L \<and>
           (\<forall>y \<in> L - set xs. y \<in> L' \<and> body_eq (lock c y) (lock c' y)) \<and>
           ((\<exists>j < length xs. env_remaster_status (e j) = REMASTER_FAIL) \<or>
            (\<forall>y \<in> set xs. if y \<in> L' then cleaned_of inst (lock c y) (lock c' y) else insts (granted_map (lock c y)) = {inst}))"
  using assms(1-3)
proof (induction xs arbitrary: c fl L pl lfl qs ys idx)
  case Nil
  then show ?case
    by - (rule exI[of _ c], rule exI[of _ fl], rule exI[of _ L], rule exI[of _ pl], rule exI[of _ lfl], rule exI[of _ qs], simp)
next
  case (Cons x xs)
  let ?S = "q_items L qs lfl"
  have idx: "idx = x" using Cons.prems(3) by simp
  have d: "dll (\<lambda>i. node (lock c i)) (res_parts (global_lock_res c) p) (ys @ x # xs)"
    using gres_atD(1)[OF lctxD(1)[OF Cons.prems(1)], of p] Cons.prems(2) by simp
  have xL: "x \<in> L" using gres_atD(2)[OF lctxD(1)[OF Cons.prems(1)], of x] Cons.prems(2) by (metis in_set_conv_decomp)
  have dist: "distinct (ys @ x # xs)" using d by (simp add: dll_def)
  note l = lctx_linked[OF Cons.prems(1) xL]
  show ?case
  proof (cases "env_remaster_status (e (length xs)) = REMASTER_FAIL")
    case True
    then show ?thesis
      using Cons.prems(1)
      by - (rule exI[of _ c], rule exI[of _ fl], rule exI[of _ L], rule exI[of _ pl], rule exI[of _ lfl], rule exI[of _ qs], auto)
  next
    case run: False
    from clean_one_spec[OF Cons.prems(1) xL i, of "e (length xs)"] obtain c1 fl1 L1 pl1 lfl1 qs1 where
      a: "drc_clean_lock_res_of_inst (e (length xs)) c inst x = Some c1" "lctx c1 fl1 L1 pl1 lfl1 qs1"
        "q_items L1 qs1 lfl1 = ?S" "touches ?S c c1"
        "if x \<in> L1 then L1 = L \<and> pl1 = pl \<and> cleaned_of inst (lock c x) (lock c1 x)
            else L1 = L - {x} \<and> pl1 = (\<lambda>q. remove1 x (pl q)) \<and> insts (granted_map (lock c x)) = {inst}"
        "\<forall>y \<in> L - {x}. body_eq (lock c y) (lock c1 y)" by (elim exE conjE) (rule that)
    obtain ys1 where ys1: "pl1 p = ys1 @ xs"
    proof (cases "x \<in> L1")
      case True
      then show ?thesis using a(5) Cons.prems(2) that[of "ys @ [x]"] by simp
    next
      case False
      then show ?thesis using a(5) Cons.prems(2) dist that[of ys] by (simp add: remove1_append)
    qed
    have nx: "xs \<noteq> [] \<longrightarrow> node_next (node (lock c x)) = hd xs" using dll_next[OF d] by simp
    from Cons.IH[OF a(2) ys1 nx] obtain c2 fl2 L2 pl2 lfl2 qs2 where
      b: "drc_clean_lock_owner_loop (length xs) e c1 inst (node_next (node (lock c x))) = Some c2" "lctx c2 fl2 L2 pl2 lfl2 qs2"
        "q_items L2 qs2 lfl2 = ?S" "touches ?S c1 c2" "L2 \<subseteq> L1"
        "\<forall>y \<in> L1 - set xs. y \<in> L2 \<and> body_eq (lock c1 y) (lock c2 y)"
        "(\<exists>j < length xs. env_remaster_status (e j) = REMASTER_FAIL) \<or>
            (\<forall>y \<in> set xs. if y \<in> L2 then cleaned_of inst (lock c1 y) (lock c2 y) else insts (granted_map (lock c1 y)) = {inst})"
      unfolding a(3) by (elim exE conjE) (rule that)
    have sub: "L1 \<subseteq> L" "L - {x} \<subseteq> L1" using a(5) by (auto split: if_splits)
    have run1: "drc_clean_lock_owner_loop (length (x # xs)) e c inst idx = Some c2"
      using run idx l(4) lk_bucket_eq[OF lctxD(3)[OF Cons.prems(1)]] a(1) b(1) by simp
    have other: "y \<in> L2 \<and> body_eq (lock c y) (lock c2 y)" if y: "y \<in> L - set (x # xs)" for y
    proof -
      have "y \<in> L1 - set xs" "y \<in> L - {x}" using y sub by auto
      then show ?thesis using bspec[OF b(6)] bspec[OF a(6)] body_eq_trans by blast
    qed
    have fin: "if y \<in> L2 then cleaned_of inst (lock c y) (lock c2 y) else insts (granted_map (lock c y)) = {inst}"
      if nf: "\<forall>j < length xs. env_remaster_status (e j) \<noteq> REMASTER_FAIL" and y: "y \<in> set (x # xs)" for y
    proof (cases "y = x")
      case True
      have "x \<notin> set xs" using dist by simp
      then show ?thesis using a(5) b(5,6) True cleaned_of_body_eq by (auto split: if_splits)
    next
      case False
      then have ys: "y \<in> set xs" using y by simp
      have "y \<in> L" using gres_atD(2)[OF lctxD(1)[OF Cons.prems(1)], of y] Cons.prems(2) ys by (metis Un_iff list.set_intros(2) set_append)
      then have be: "body_eq (lock c y) (lock c1 y)" using a(6) False by simp
      have "if y \<in> L2 then cleaned_of inst (lock c1 y) (lock c2 y) else insts (granted_map (lock c1 y)) = {inst}"
        using b(7) nf ys by blast
      then show ?thesis using body_eq_cleaned_of[OF be] lock_body_eq(5)[OF be] by (auto split: if_splits)
    qed
    have concl: "(\<exists>j < length (x # xs). env_remaster_status (e j) = REMASTER_FAIL) \<or>
        (\<forall>y \<in> set (x # xs). if y \<in> L2 then cleaned_of inst (lock c y) (lock c2 y) else insts (granted_map (lock c y)) = {inst})"
      using fin by (metis length_Cons less_SucI)
    show ?thesis
      using run1 b(2,3) touches_trans[OF a(4) b(4)] order_trans[OF b(5) sub(1)] other concl
      by - (rule exI[of _ c2], rule exI[of _ fl2], rule exI[of _ L2], rule exI[of _ pl2], rule exI[of _ lfl2], rule exI[of _ qs2],
          intro conjI ballI; (assumption | simp))
  qed
qed

section \<open>Every handler keeps the invariant\<close>

text \<open>What all handlers guarantee.\<close>

definition lock_guar :: "uint32 set \<Rightarrow> 'c drc_lock_ctx_scheme \<Rightarrow> 'c drc_lock_ctx_scheme \<Rightarrow> bool" where
  "lock_guar S c c' \<longleftrightarrow> lock_ok S c' \<and> touches S c c'"

lemma lock_guarI: "lctx c' fl L pl lfl qs \<Longrightarrow> q_items L qs lfl = S \<Longrightarrow> touches S c c' \<Longrightarrow> lock_guar S c c'"
  unfolding lock_guar_def lock_ok_def by blast

lemma lock_guar_refl: "lock_ok S c \<Longrightarrow> lock_guar S c c"
  by (simp add: lock_guar_def)

lemma lock_okE:
  assumes "lock_ok S c"
  obtains fl L pl lfl qs where "lctx c fl L pl lfl qs" "q_items L qs lfl = S"
  using assms unfolding lock_ok_def by blast

lemma claim_lock_ok:
  assumes ok: "lock_ok S c" and run: "drc_claim_lock_owner e c k claim version is_remaster = Some (ret, c')"
  shows "lock_guar S c c'"
proof -
  obtain fl L pl lfl qs where inv: "lctx c fl L pl lfl qs" and S: "q_items L qs lfl = S" using ok by (rule lock_okE)
  show ?thesis
  proof (cases "\<not> DRC_STOP_DLS_REQ_FOR_REFORMING e version k \<or> is_remaster")
    case False
    then have "c' = c" using run claim_lock_stopped[OF inv] by auto
    then show ?thesis using lock_guar_refl[OF ok] by simp
  next
    case go: True
    then obtain x where x: "x \<in> L" "res_id (lock c x) = k" "grant_ok claim (lock c x)"
      using claim_lock_stops[OF inv go, of claim] run by auto
    from claim_lock_spec[OF inv x(1) _ x(3), of e version is_remaster] go x(2) obtain c1 lfl1 qs1 where
      "drc_claim_lock_owner e c k claim version is_remaster = Some (CT_SUCCESS, c1)" "lctx c1 fl L pl lfl1 qs1"
      "q_items L qs1 lfl1 = S" "touches S c c1" unfolding S by auto
    then show ?thesis using run lock_guarI by fastforce
  qed
qed

lemma cancel_lock_ok:
  assumes ok: "lock_ok S c"
  shows "\<exists>ret c'. drc_cancel_lock_owner_request c inst k = Some (ret, c') \<and> lock_guar S c c'"
proof -
  obtain fl L pl lfl qs where inv: "lctx c fl L pl lfl qs" and S: "q_items L qs lfl = S" using ok by (rule lock_okE)
  from cancel_lock_spec[OF inv, of inst k, unfolded S] obtain ret c' lfl' qs' where
    d: "drc_cancel_lock_owner_request c inst k = Some (ret, c')" "lctx c' fl L pl lfl' qs'" "q_items L qs' lfl' = S" "touches S c c'"
    by (elim exE conjE) (rule that)
  then show ?thesis using lock_guarI[OF d(2-4)] by blast
qed

lemma release_lock_ok:
  assumes ok: "lock_ok S c" and i: "inst < CT_MAX_INSTANCES"
  shows "\<exists>ret c'. drc_release_lock_owner c inst k = Some (ret, c') \<and> lock_guar S c c'"
proof -
  obtain fl L pl lfl qs where inv: "lctx c fl L pl lfl qs" and S: "q_items L qs lfl = S" using ok by (rule lock_okE)
  show ?thesis
  proof (cases "\<exists>x \<in> L. res_id (lock c x) = k \<and> inst \<in> insts (granted_map (lock c x))")
    case True
    then obtain x where x: "x \<in> L" "res_id (lock c x) = k" "inst \<in> insts (granted_map (lock c x))" by blast
    from release_lock_spec[OF inv x(1,3), unfolded S x(2)] show ?thesis using lock_guarI by blast
  next
    case False
    then show ?thesis using release_lock_other[OF inv i, of k] lock_guar_refl[OF ok] by blast
  qed
qed

lemma recycle_lock_ok:
  assumes ok: "lock_ok S c" and i: "inst < CT_MAX_INSTANCES"
  shows "\<exists>ret c'. drc_recycle_dls_master e c k version inst = Some (ret, c') \<and> lock_guar S c c'"
proof -
  obtain fl L pl lfl qs where inv: "lctx c fl L pl lfl qs" and S: "q_items L qs lfl = S" using ok by (rule lock_okE)
  show ?thesis
  proof (cases "DRC_STOP_DLS_REQ_FOR_REFORMING e version k \<or> lk_lookup c k = Some None")
    case True
    then show ?thesis using recycle_lock_other[OF inv True, of inst] lock_guar_refl[OF ok] by blast
  next
    case False
    then obtain x where x: "x \<in> L" "res_id (lock c x) = k" using lk_lookup_cases[OF inv, of k] by blast
    from recycle_lock_spec[OF inv x(1) i, of e version, unfolded S x(2)] False show ?thesis using lock_guarI by blast
  qed
qed

lemma clear_granted_ok:
  assumes ok: "lock_ok S c" and i: "inst < CT_MAX_INSTANCES"
  shows "\<exists>c'. dls_clear_granted_map_for_inst c k inst = Some c' \<and> lock_guar S c c'"
proof -
  obtain fl L pl lfl qs where inv: "lctx c fl L pl lfl qs" and S: "q_items L qs lfl = S" using ok by (rule lock_okE)
  show ?thesis
  proof (rule lk_lookup_cases[OF inv, of k])
    assume "lk_lookup c k = Some None"
    then show ?thesis using lock_guar_refl[OF ok] by (simp add: dls_clear_granted_map_for_inst_def)
  next
    fix x
    assume x: "x \<in> L" "res_id (lock c x) = k"
    from clear_granted_spec[OF inv x(1) i, unfolded S x(2)] show ?thesis using lock_guarI S by blast
  qed
qed

lemma try_request_ok:
  assumes ok: "lock_ok S c" and r: "req_ok req"
  shows "\<exists>ret out' c'. drc_try_request_lock_owner e c k req out version = Some (ret, out', c') \<and> lock_guar S c c'"
proof -
  obtain fl L pl lfl qs where inv: "lctx c fl L pl lfl qs" and S: "q_items L qs lfl = S" using ok by (rule lock_okE)
  note b = lk_bucket_eq[OF lctxD(3)[OF inv], of k] and refl = lock_guar_refl[OF ok]
  show ?thesis
  proof (cases "env_remaster_status (e 0) < REMASTER_DONE \<or> DRC_STOP_DLS_REQ_FOR_REFORMING (e 1) version k")
    case True
    then show ?thesis using b refl by (auto simp: drc_try_request_lock_owner_def)
  next
    case go: False
    show ?thesis
    proof (rule lk_lookup_cases[OF inv, of k])
      assume new: "lk_lookup c k = Some None"
      show ?thesis
      proof (cases fl)
        case Nil
        then show ?thesis using go b new create_converting_full[of c L pl lfl qs k req] inv refl
          by (simp add: drc_try_request_lock_owner_def)
      next
        case (Cons x fl')
        from create_converting_spec[OF inv[unfolded Cons] new r, unfolded S] obtain c' pl' where
          d: "drc_lock_create_converting c k req = Some (CT_SUCCESS, c')" "lctx c' fl' (insert x L) pl' lfl (qs(x := []))"
            "q_items (insert x L) (qs(x := [])) lfl = S" "touches S c c'" by (elim exE conjE) (rule that)
        then show ?thesis using go b new lock_guarI[OF d(2-4)] by (simp add: drc_try_request_lock_owner_def)
      qed
    next
      fix x
      assume x: "lk_lookup c k = Some (Some x)" "x \<in> L" "res_id (lock c x) = k"
      note l = lctx_linked[OF inv x(2)]
      have m: "\<not> lk_mode (lock c x) > DRC_LOCK_EXCLUSIVE" using lk_invD(4)[OF l(6)] by (simp add: not_less)
      show ?thesis
      proof (cases "lk_cvt_inst (lock c x) = CT_INVALID_ID8")
        case False
        then show ?thesis using go b x(1) l(4) m refl by (simp add: drc_try_request_lock_owner_def)
      next
        case True
        have q: "list_count (lk_convert_q (lock c x)) = 0"
          using lk_invD(1)[OF l(6) True] l(5) queue_inv_count(2) by (auto simp: qrep_def)
        from start_converting[OF inv x(2) True r, unfolded S] obtain c' where
          d: "lk_put c x (set_lk_req req (lock c x)) = Some c'" "lctx c' fl L pl lfl qs" "touches S c c'" by blast
        then show ?thesis using go b x(1) l(4) m True q lock_guarI[OF d(2) S d(3)] matrix_compatible[OF req_ok_mode[OF r] lk_invD(4)[OF l(6)]]
          by (simp add: drc_try_request_lock_owner_def)
      qed
    qed
  qed
qed

lemma clean_part_ok:
  assumes ok: "lock_ok S c" and i: "inst < CT_MAX_INSTANCES"
  shows "\<exists>c'. drc_clean_lock_owner_by_part e c inst (drc_get_global_lock_res_parts c p) = Some c' \<and> lock_guar S c c'"
proof -
  obtain fl L pl lfl qs where inv: "lctx c fl L pl lfl qs" and S: "q_items L qs lfl = S" using ok by (rule lock_okE)
  note d = gres_atD(1)[OF lctxD(1)[OF inv], of p]
  have f: "pl p \<noteq> [] \<longrightarrow> list_first (res_parts (global_lock_res c) p) = hd (pl p)" using dll_first[OF d] by simp
  have n: "unat (list_count (res_parts (global_lock_res c) p)) = length (pl p)" using d by (simp add: dll_def unat_of_nat)
  have pl: "pl p = [] @ pl p" by simp
  from clean_locks_loop_spec[OF inv pl f i, where e = e, unfolded S] obtain c' fl' L' pl' lfl' qs' where
    r: "drc_clean_lock_owner_loop (length (pl p)) e c inst (list_first (res_parts (global_lock_res c) p)) = Some c'" "lctx c' fl' L' pl' lfl' qs'"
      "q_items L' qs' lfl' = S" "touches S c c'" by (elim exE conjE) (rule that)
  then show ?thesis using lock_guarI[OF r(2-4)] n by (simp add: drc_clean_lock_owner_by_part_def drc_get_global_lock_res_parts_def)
qed

inductive lock_step :: "'c drc_lock_ctx_scheme \<Rightarrow> 'c drc_lock_ctx_scheme \<Rightarrow> bool" where
  request: "lock_step c c'" if "req_ok req" "drc_request_lock_owner_begin e c k req out version = Some (LockDone ret out' c')"
| wait: "lock_step c c'" if "req_ok req" "drc_request_lock_owner_begin e c k req out version = Some (LockWait x c')"
| try_request: "lock_step c c'" if "req_ok req" "drc_try_request_lock_owner es c k req out version = Some (ret, out', c')"
| claim: "lock_step c c'" if "drc_claim_lock_owner e c k info version is_remaster = Some (ret, c')"
| cancel: "lock_step c c'" if "drc_cancel_lock_owner_request c inst k = Some (ret, c')"
| release: "lock_step c c'" if "inst < CT_MAX_INSTANCES" "drc_release_lock_owner c inst k = Some (ret, c')"
| clear: "lock_step c c'" if "inst < CT_MAX_INSTANCES" "dls_clear_granted_map_for_inst c k inst = Some c'"
| recycle: "lock_step c c'" if "inst < CT_MAX_INSTANCES" "drc_recycle_dls_master e c k version inst = Some (ret, c')"
| clean: "lock_step c c'" if "inst < CT_MAX_INSTANCES"
    "drc_clean_lock_owner_by_part es c inst (drc_get_global_lock_res_parts c p) = Some c'"

lemma request_begin_guar:
  assumes ok: "lock_ok S c" and r: "req_ok req" and run: "drc_request_lock_owner_begin e c k req out version = Some st"
  shows "case st of LockDone ret out' c' \<Rightarrow> lock_guar S c c' | LockWait x c' \<Rightarrow> lock_guar S c c'"
proof -
  obtain fl L pl lfl qs where inv: "lctx c fl L pl lfl qs" using ok by (rule lock_okE)
  show ?thesis
  proof (cases "DRC_STOP_DLS_REQ_FOR_REFORMING e version k")
    case True
    then show ?thesis using request_stopped[OF inv True] run lock_guar_refl[OF ok] by auto
  next
    case False
    have "used_num (res_pool (lock_map c)) < lock_num c" if new: "lk_lookup c k = Some None"
    proof (rule ccontr)
      assume "\<not> used_num (res_pool (lock_map c)) < lock_num c"
      then have "fl = []" using lock_room[OF inv] by simp
      then have "drc_lock_create_converting c k req = Some (CT_ERROR, c)" using create_converting_full inv by blast
      then show False using request_unknown[OF inv False new, of req out] run by simp
    qed
    from request_begin_ok[OF ok r this, where k = k and e = e and out = out and version = version] run show ?thesis
      by (auto simp: lock_guar_def split: lock_request_step.splits)
  qed
qed

lemma lock_step_ok:
  assumes "lock_step c c'" "lock_ok S c"
  shows "lock_guar S c c'"
  using assms
proof (induction rule: lock_step.induct)
  case (request req e c k out version ret out' c')
  then show ?case using request_begin_guar by fastforce
next
  case (wait req e c k out version x c')
  then show ?case using request_begin_guar by fastforce
next
  case (try_request req es c k out version ret out' c')
  then show ?case using try_request_ok[of S c req es k out version] by auto
next
  case (claim e c k info version is_remaster ret c')
  then show ?case using claim_lock_ok by blast
next
  case (cancel c inst k ret c')
  then show ?case using cancel_lock_ok[of S c inst k] by auto
next
  case (release inst c k ret c')
  then show ?case using release_lock_ok[of S c inst k] by auto
next
  case (clear inst c k c')
  then show ?case using clear_granted_ok[of S c inst k] by auto
next
  case (recycle inst e c k version ret c')
  then show ?case using recycle_lock_ok[of S c inst e k version] by auto
next
  case (clean inst es c p c')
  then show ?case using clean_part_ok[of S c inst es p] by auto
qed

lemma lock_steps_ok: "lock_step\<^sup>*\<^sup>* c c' \<Longrightarrow> lock_ok S c \<Longrightarrow> lock_guar S c c'"
proof (induction rule: rtranclp_induct)
  case base
  then show ?case by (rule lock_guar_refl)
next
  case (step c1 c2)
  then have g: "lock_guar S c c1" "lock_guar S c1 c2" using lock_step_ok by (auto simp: lock_guar_def)
  then show ?case using touches_trans[of S c c1 c2] by (simp add: lock_guar_def)
qed

text \<open>What the lock handlers do is invisible to the page catalogue.\<close>

lemma pctx_touches:
  assumes p: "pctx H K c fl L lfl qs" and t: "touches S c c'" and S: "S = set lfl \<union> K"
    and new: "pool_inv (lock_item_pool c') lfl'" "set lfl' \<union> K' = S" "set lfl' \<inter> K' = {}"
  shows "pctx H K' c' fl L lfl' qs"
proof -
  have g: "global_buf_res c' = global_buf_res c" "item_num (lock_item_pool c') = item_num (lock_item_pool c)"
    and it: "\<And>i. i \<notin> S \<Longrightarrow> items (lock_item_pool c') i = items (lock_item_pool c) i" using t by (auto simp: touches_def)
  have q: "page_ok (lock_item_pool c') (buf c' x) (qs x) \<and> set (qs x) \<inter> (set lfl' \<union> K') = {}" if x: "x \<in> L" for x
  proof -
    have d: "set (qs x) \<inter> S = {}" using pctxD(5)[OF p x] S by simp
    then have e: "items (lock_item_pool c') i = items (lock_item_pool c) i" if "i \<in> set (qs x)" for i using it that by blast
    then have "reqs (lock_item_pool c') (qs x) = reqs (lock_item_pool c) (qs x)" by simp
    moreover have "queue_inv (lock_item_pool c') (convert_q (buf c x)) (qs x) = queue_inv (lock_item_pool c) (convert_q (buf c x)) (qs x)"
      using e g(2) by (intro queue_inv_pool_cong) auto
    ultimately show ?thesis using pctxD(4)[OF p x] d new(2) unfolding page_ok_def g by (simp del: map_eq_conv)
  qed
  have "i < item_num (lock_item_pool c)" if "i \<in> K'" for i
    using that pctxD(3,11)[OF p] new(2) S by (auto simp: pool_inv_def)
  then show ?thesis
    unfolding pctx_def g using pctxD(1,2,8,10)[OF p] pctxD(9)[OF p] pctxD(6)[OF p] pctxD(7)[OF p] q new g
    by (auto simp: Int_commute)
qed

section \<open>The polling loop\<close>

text \<open>The context after \<open>n\<close> sleeps.\<close>

primrec after :: "'c drc_world \<Rightarrow> 'c \<Rightarrow> nat \<Rightarrow> 'c" where
  "after w c 0 = c"
| "after w c (Suc n) = others w n (after w c n)"

definition poll_stops :: "'c drc_world \<Rightarrow> uint64 \<Rightarrow> drid_t \<Rightarrow> nat \<Rightarrow> bool" where
  "poll_stops w version k n \<longleftrightarrow> DRC_STOP_DLS_REQ_FOR_REFORMING (env w (Suc n)) version k"

text \<open>
  What the requester relies on: as long as no reform stops it, nobody takes its request out of
  the queue but to convert it, and nobody else finishes the conversion for it.
\<close>

definition queue_rely :: "'c drc_lock_ctx_scheme drc_world \<Rightarrow> uint64 \<Rightarrow> drid_t \<Rightarrow> uint32 \<Rightarrow> drc_req_info_t \<Rightarrow> bool" where
  "queue_rely w version k x req \<longleftrightarrow> (\<forall>n c. awaits c x req \<longrightarrow> poll_stops w version k n \<or> awaits (others w n c) x req)"

lemma awaits_unfold:
  assumes "awaits c x req" "req_ok req"
  shows "lk_get c x = Some (lock c x)" "lk_cvt_inst (lock c x) \<noteq> CT_INVALID_ID8"
    "drc_lock_answer req (lock c x) = Some (lock_reply_of req (lock c x))"
proof -
  obtain fl L pl lfl qs where a: "lctx c fl L pl lfl qs" "x \<in> L"
    "req \<in> set (reqs (lock_item_pool c) (qs x)) \<or> lk_cvt_inst (lock c x) = inst_id req"
    using assms(1) unfolding awaits_def by blast
  note l = lctx_linked[OF a(1,2)]
  show "lk_get c x = Some (lock c x)" by (rule l(4))
  show "lk_cvt_inst (lock c x) \<noteq> CT_INVALID_ID8" using a(3) lk_invD(1)[OF l(6)] req_ok_valid[OF assms(2)] by auto
  show "drc_lock_answer req (lock c x) = Some (lock_reply_of req (lock c x))" by (rule lock_answer_eq[OF l(6) assms(2)])
qed

text \<open>One poll.\<close>

lemma wait_loop_unfold:
  assumes "awaits (others w n c) x req \<or> poll_stops w version k n" "req_ok req"
  shows "drc_lock_wait_loop w n c k x req out version =
      (if poll_stops w version k n then Some (CT_ERROR, out, others w n c)
       else if lk_cvt_inst (lock (others w n c) x) = inst_id req
       then Some (CT_SUCCESS, lock_reply_of req (lock (others w n c) x), others w n c)
       else drc_lock_wait_loop w (Suc n) (others w n c) k x req out version)"
  using assms(1) awaits_unfold[OF _ assms(2), of "others w n c" x]
  by (subst drc_lock_wait_loop.simps) (auto simp: poll_stops_def Let_def)

lemma wait_loop_ends:
  assumes rely: "queue_rely w version k x req" and ok: "req_ok req" and aw: "awaits (after w c m) x req"
    and fin: "m \<le> n" "poll_stops w version k n \<or> lk_cvt_inst (lock (after w c (Suc n)) x) = inst_id req"
  shows "\<exists>j ret out' c'. drc_lock_wait_loop w m (after w c m) k x req out version = Some (ret, out', c') \<and>
           j \<le> n \<and> c' = after w c (Suc j) \<and>
           (ret = CT_SUCCESS \<and> lk_cvt_inst (lock c' x) = inst_id req \<and> out' = lock_reply_of req (lock c' x) \<or>
            ret = CT_ERROR \<and> poll_stops w version k j \<and> out' = out)"
  using aw fin(1)
proof (induction "n - m" arbitrary: m)
  case 0
  then have m: "m = n" by simp
  have st: "poll_stops w version k m \<or> awaits (after w c (Suc m)) x req" using rely 0(2) by (simp add: queue_rely_def)
  then show ?case
    using wait_loop_unfold[OF _ ok, of w m "after w c m" x version k out] fin(2) m by (intro exI[of _ n]) auto
next
  case (Suc d)
  have st: "poll_stops w version k m \<or> awaits (after w c (Suc m)) x req" using rely Suc(3) by (simp add: queue_rely_def)
  note u = wait_loop_unfold[OF _ ok, of w m "after w c m" x version k out]
  show ?case
  proof (cases "poll_stops w version k m \<or> lk_cvt_inst (lock (after w c (Suc m)) x) = inst_id req")
    case True
    then show ?thesis using u st Suc(4) by (intro exI[of _ m]) auto
  next
    case False
    have "d = n - Suc m" "Suc m \<le> n" using Suc(2) by simp_all
    from Suc(1)[OF this(1) _ this(2)] st False show ?thesis using u by auto
  qed
qed

end
