(* ===== verification/Drc_Lock_Props.thy ===== *)
theory Drc_Lock_Props
  imports Drc_Page_Props Drc_Lock_Ops
begin

text \<open>
  The properties of the lock master: mutual exclusion of the directory over every sequence of
  handler calls, what a claim and a request do, in which order waiting requests are served, that
  a queued request returns, what is left of a crashed instance, and that the lock handlers do
  not disturb the page catalogue they share the lock items with.
\<close>

section \<open>The catalogue after initialisation\<close>

lemma init_lctx:
  assumes p: "drc_res_pool_init mp zero_item pool isz inum = Some (CT_SUCCESS, lock_item_pool c)"
    and g: "drc_global_res_init mb mi zero_master_res g num isize is_same_lock = Some (CT_SUCCESS, global_lock_res c)"
  shows "\<exists>pl. lctx c (map of_nat [0..<unat num]) {} pl (map of_nat [0..<unat inum]) (\<lambda>_. [])"
proof -
  note s = global_init_success[OF g is_same_lock_iff]
  have "pool_inv (lock_item_pool c) (map of_nat [0..<unat inum])"
    using pool_init_inv[of pool isz inum zero_item] pool_init_success(1)[OF p] p by auto
  moreover obtain pl where "gres_at res_id (lock_hash (bucket_num (lock_map c))) (global_lock_res c) (map of_nat [0..<unat num]) {} pl"
    using s(1) by (auto simp: gres_rep_at)
  ultimately show ?thesis unfolding lctx_def queues_ok_def using s(2) by auto
qed

section \<open>A concrete catalogue\<close>

text \<open>
  One lock of two, held by instance 1 in exclusive mode; instance 2 is converting to exclusive,
  instance 3 waits in lock item 0 to share it.
\<close>

abbreviation demo_lid :: drid_t where "demo_lid \<equiv> \<lparr>key1 = 4, key2 = 0, key3 = 0, key4 = 0\<rparr>"

definition demo_lock :: drc_master_res_t where
  "demo_lock = zero_master_res\<lparr>nxt := CT_INVALID_ID32, res_idx := 0, part_id := 3,
     node := \<lparr>node_prev = CT_INVALID_ID32, node_next = CT_INVALID_ID32, node_idx = 0\<rparr>,
     res_id := demo_lid, lk_mode := DRC_LOCK_EXCLUSIVE, granted_map := bm_set 0 1,
     lk_converting := \<lparr>nxt = CT_INVALID_ID32, req_info = demo_req 2 DRC_LOCK_EXCLUSIVE\<rparr>,
     lk_convert_q := \<lparr>list_first = 0, list_last = 0, list_count = 1\<rparr>\<rparr>"

definition demo_queued :: item_pool_t where
  "demo_queued = \<lparr>pool_inited = True, free_list = 1, item_num = 2, used_num = 1, item_size = 56,
     items = (\<lambda>i. \<lparr>nxt = CT_INVALID_ID32, req_info = (if i = 0 then demo_req 3 DRC_LOCK_SHARE else zero_req_info)\<rparr>), recycle_pos = 0\<rparr>"

definition demo_lctx_of :: "item_pool_t \<Rightarrow> drc_master_res_t \<Rightarrow> drc_lock_ctx" where
  "demo_lctx_of pool r = \<lparr>lock_item_pool = pool, global_buf_res = global_buf_res demo_ctx, sent_errors = [],
     global_lock_res = \<lparr>res_map = \<lparr>map_inited = True,
         res_pool = \<lparr>pool_inited = True, free_list = 1, item_num = 2, used_num = 1, item_size = 160,
           items = (\<lambda>i. if i = 0 then r else zero_master_res\<lparr>nxt := CT_INVALID_ID32\<rparr>), recycle_pos = 0\<rparr>,
         bucket_num = 5, buckets = (\<lambda>b. if b = lock_hash 5 demo_lid then \<lparr>bkt_count = 1, bkt_first = 0\<rparr>
                                         else \<lparr>bkt_count = 0, bkt_first = 0\<rparr>),
         res_cmp_func = is_same_lock\<rparr>,
       res_parts = (\<lambda>p. if p = 3 then \<lparr>list_first = 0, list_last = 0, list_count = 1\<rparr> else DRC_LIST_INIT)\<rparr>\<rparr>"

abbreviation demo_lctx :: drc_lock_ctx where "demo_lctx \<equiv> demo_lctx_of demo_queued demo_lock"

abbreviation demo_pl :: "uint16 \<Rightarrow> uint32 list" where "demo_pl \<equiv> (\<lambda>p. if p = 3 then [0] else [])"

lemma demo_gres_at:
  assumes r: "lock_ident demo_lock r"
  shows "gres_at res_id (lock_hash 5) (global_lock_res (demo_lctx_of pool r)) [1] {0} demo_pl"
proof -
  let ?h = "lock_hash 5" and ?g = "global_lock_res (demo_lctx_of pool r)"
  let ?bl = "\<lambda>b. if b = ?h demo_lid then [0] else []"
  have f: "res_id r = demo_lid" "part_id r = 3" "res_idx r = 0" "nxt r = CT_INVALID_ID32"
    "node r = \<lparr>node_prev = CT_INVALID_ID32, node_next = CT_INVALID_ID32, node_idx = 0\<rparr>"
    using r by (simp_all add: lock_ident_def demo_lock_def)
  have "pool_inv (res_pool (res_map ?g)) [1]" by (simp add: demo_lctx_of_def pool_inv_def)
  then have "map_inv res_id ?h (res_map ?g) [1] ?bl"
    using f by (auto simp: demo_lctx_of_def map_inv_def chain_inv_def is_same_lock_iff)
  moreover have "parts_inv ?g demo_pl"
    using f by (auto simp: demo_lctx_of_def parts_inv_def dll_def DRC_LIST_INIT_def)
  ultimately have "gres_inv res_id ?h ?g [1] ?bl demo_pl"
    using f by (auto simp: gres_inv_def demo_lctx_of_def)
  then show ?thesis unfolding gres_at_def by (intro exI[of _ ?bl]) auto
qed

lemma demo_lctx_ok:
  assumes "lock_ident demo_lock r" "qrep pool lfl (lk_convert_q r) ids" "lk_inv r (reqs pool ids)"
  shows "lctx (demo_lctx_of pool r) [1] {0} demo_pl lfl (\<lambda>_. ids)"
  using demo_gres_at[OF assms(1), of pool] assms(2,3)
  by (simp add: lctx_def queues_ok_def qrep_def demo_lctx_of_def Int_commute)

lemma demo_granted: "insts (granted_map demo_lock) = {1}"
  using insts_set[of 1 0] by (simp add: demo_lock_def)

lemma demo_inv: "lctx demo_lctx [1] {0} demo_pl [1] (\<lambda>_. [0])"
proof (rule demo_lctx_ok)
  show "qrep demo_queued [1] (lk_convert_q demo_lock) [0]"
    by (simp add: qrep_def queue_inv_def pool_inv_def demo_queued_def demo_lock_def)
  have g: "insts (granted_map demo_lock) = {1}" by (rule demo_granted)
  show "lk_inv demo_lock (reqs demo_queued [0])"
    unfolding lk_inv_def g(1) by (simp add: demo_lock_def demo_queued_def demo_req_def g_invalid_req_info_def req_ok_def)
qed simp

lemma demo_lock_at [simp]: "lock (demo_lctx_of pool r) 0 = r"
  by (simp add: demo_lctx_of_def)

lemma demo_lk_lookup: "lk_lookup demo_lctx demo_lid = Some (Some 0)"
  using lk_lookup_spec(2)[OF demo_inv, of demo_lid 0] by (simp add: demo_lock_def)

lemma demo_lock_ok: "lock_ok {0, 1} demo_lctx"
  by (rule lock_okI[OF demo_inv]) auto

lemma demo_dls_go: "\<not> DRC_STOP_DLS_REQ_FOR_REFORMING demo_env 3 k"
  by (simp add: DRC_STOP_DLS_REQ_FOR_REFORMING_def) (simp add: demo_env_def)

section \<open>Properties\<close>

text \<open>
  C2: From initialisation on, after any sequence of requests, tries, claims, cancels, releases,
  recycles and cleanings, the directory of a lock is coherent: an exclusive lock is granted to at
  most one instance, a lock in null mode to none, nobody is queued on a lock that is not
  converting, a converting request comes from a valid instance, and no resource stands for two locks.
\<close>

theorem lock_directory_coherent:
  assumes "drc_res_pool_init mp zero_item pool isz inum = Some (CT_SUCCESS, lock_item_pool c0)"
    and "drc_global_res_init mb mi zero_master_res g num isize is_same_lock = Some (CT_SUCCESS, global_lock_res c0)"
    and "lock_step\<^sup>*\<^sup>* c0 c" and "lk_lookup c k = Some (Some x)"
  shows "(lk_mode (lock c x) = DRC_LOCK_EXCLUSIVE \<longrightarrow> (\<exists>i. insts (granted_map (lock c x)) \<subseteq> {i})) \<and>
    (lk_mode (lock c x) = DRC_LOCK_NULL \<longrightarrow> granted_map (lock c x) = 0) \<and> lk_mode (lock c x) \<le> DRC_LOCK_EXCLUSIVE \<and>
    (lk_cvt_inst (lock c x) = CT_INVALID_ID8 \<longrightarrow> list_count (lk_convert_q (lock c x)) = 0) \<and>
    (lk_cvt_inst (lock c x) \<noteq> CT_INVALID_ID8 \<longrightarrow> lk_cvt_inst (lock c x) < CT_MAX_INSTANCES) \<and>
    (\<forall>k'. lk_lookup c k' = Some (Some x) \<longrightarrow> k' = k)"
proof -
  obtain pl where "lctx c0 (map of_nat [0..<unat num]) {} pl (map of_nat [0..<unat inum]) (\<lambda>_. [])"
    using init_lctx[OF assms(1,2)] by blast
  from lock_okI[OF this refl] have "lock_ok (set (map of_nat [0..<unat inum])) c0" by simp
  then have "lock_ok (set (map of_nat [0..<unat inum])) c" using lock_steps_ok[OF assms(3)] by (simp add: lock_guar_def)
  then obtain fl L pl lfl qs where inv: "lctx c fl L pl lfl qs" by (rule lock_okE)
  have x: "x \<in> L" "res_id (lock c x) = k" using lk_lookup_spec(2)[OF inv] assms(4) by simp_all
  note l = lctx_linked[OF inv x(1)]
  have "lk_cvt_inst (lock c x) = CT_INVALID_ID8 \<longrightarrow> list_count (lk_convert_q (lock c x)) = 0"
    using lk_invD(1)[OF l(6)] l(5) queue_inv_count(2) by (auto simp: qrep_def)
  moreover have "lk_lookup c k' = Some (Some x) \<longrightarrow> k' = k" for k' using lk_lookup_spec(2)[OF inv, of k'] x(2) by simp
  moreover have "lk_cvt_inst (lock c x) \<noteq> CT_INVALID_ID8 \<longrightarrow> lk_cvt_inst (lock c x) < CT_MAX_INSTANCES"
    using lk_invD(2)[OF l(6)] by (simp add: req_ok_def)
  ultimately show ?thesis using lk_invD(4-6)[OF l(6)] by blast
qed

lemma blank_lock_init:
  "\<exists>c0 :: drc_lock_ctx. drc_res_pool_init True zero_item blank_pool 56 2 = Some (CT_SUCCESS, lock_item_pool c0) \<and>
     drc_global_res_init True True zero_master_res blank_res 2 160 is_same_lock = Some (CT_SUCCESS, global_lock_res c0)"
proof -
  obtain p where p: "drc_res_pool_init True zero_item blank_pool 56 2 = Some (CT_SUCCESS, p)"
    using pool_init_inv[of "blank_pool :: item_pool_t" 56 2 zero_item] by (auto simp: blank_pool_def)
  obtain g where "drc_global_res_init True True zero_master_res blank_res 2 160 is_same_lock = Some (CT_SUCCESS, g)"
    using global_res_init_rep[of "blank_res" 160 2 is_same_lock res_id zero_master_res, OF _ _ _ _ is_same_lock_iff]
    by (auto simp: blank_res_def blank_pool_def)
  then show ?thesis using p
    by (intro exI[of _ "\<lparr>lock_item_pool = p, global_buf_res = blank_res, sent_errors = [], global_lock_res = g\<rparr>"]) simp
qed

theorem lock_directory_coherent_witness:
  "\<exists>(c0 :: drc_lock_ctx) c x. lock_step\<^sup>*\<^sup>* c0 c \<and> lk_lookup c demo_lid = Some (Some x) \<and>
     lk_lookup c (demo_lid\<lparr>key1 := 5\<rparr>) \<noteq> Some (Some x) \<and> lk_cvt_inst (lock c x) = 2"
proof -
  obtain c0 :: drc_lock_ctx where i: "drc_res_pool_init True zero_item blank_pool 56 2 = Some (CT_SUCCESS, lock_item_pool c0)"
    "drc_global_res_init True True zero_master_res blank_res 2 160 is_same_lock = Some (CT_SUCCESS, global_lock_res c0)"
    using blank_lock_init by blast
  have u: "map of_nat [0..<unat (2 :: uint32)] = [0, 1 :: uint32]" by (simp add: upt_rec)
  obtain pl where inv: "lctx c0 [0, 1] {} pl [0, 1] (\<lambda>_. [])" using init_lctx[OF i] unfolding u by blast
  let ?r = "demo_req 2 DRC_LOCK_SHARE" and ?out = "\<lparr>is_granted = False, old_owner_map = 0\<rparr>"
  have n: "lk_lookup c0 demo_lid = Some None" using lk_lookup_spec(1)[OF inv] by simp
  have r: "req_ok ?r" "inst_id ?r = 2" by (simp_all add: req_ok_def demo_req_def)
  from create_converting_spec[OF inv n r(1)] obtain c' pl' where
    d: "drc_lock_create_converting c0 demo_lid ?r = Some (CT_SUCCESS, c')" "lctx c' [1] (insert 0 {}) pl' [0, 1] ((\<lambda>_. [])(0 := []))"
      "res_id (lock c' 0) = demo_lid" "req_info (lk_converting (lock c' 0)) = ?r" by (elim exE conjE) (rule that)
  have "lock_step c0 c'"
    using request_unknown[OF inv demo_dls_go n, of ?r ?out] d(1) r(1) by (intro lock_step.request[of ?r demo_env c0 demo_lid ?out 3]) simp_all
  moreover have l: "lk_lookup c' demo_lid = Some (Some 0)" using lk_lookup_spec(2)[OF d(2)] d(3) by simp
  ultimately have "lk_lookup c' (demo_lid\<lparr>key1 := 5\<rparr>) \<noteq> Some (Some 0)"
    using lock_directory_coherent[OF i _ l] by force
  then show ?thesis using \<open>lock_step c0 c'\<close> l d(4) r(2) by (intro exI[of _ c0] exI[of _ c'] exI[of _ 0]) auto
qed

text \<open>
  C11: A claim that matches the converting request grants the lock. An exclusive claim leaves the
  claimant as the only holder, a shared one adds it to the holders; the mode of the lock is the
  mode claimed, and no other lock changes.
\<close>

theorem claim_grants_lock:
  assumes "lock_ok S c" and "lk_lookup c k = Some (Some x)" and "grant_ok claim (lock c x)"
    and "\<not> DRC_STOP_DLS_REQ_FOR_REFORMING e version k \<or> is_remaster"
  shows "\<exists>c'. drc_claim_lock_owner e c k claim version is_remaster = Some (CT_SUCCESS, c') \<and> lock_ok S c' \<and>
    insts (granted_map (lock c' x)) =
      (if lk_claim_mode claim = DRC_LOCK_EXCLUSIVE then {lk_new_id claim} else insert (lk_new_id claim) (insts (granted_map (lock c x)))) \<and>
    lk_mode (lock c' x) = lk_claim_mode claim \<and> (\<forall>y. y \<noteq> x \<longrightarrow> lock c' y = lock c y)"
proof -
  obtain fl L pl lfl qs where inv: "lctx c fl L pl lfl qs" and S: "q_items L qs lfl = S" using assms(1) by (rule lock_okE)
  have x: "x \<in> L" "res_id (lock c x) = k" using lk_lookup_spec(2)[OF inv] assms(2) by simp_all
  from claim_lock_spec[OF inv x(1) _ assms(3), of e version is_remaster] assms(4) x(2) obtain c' lfl' qs' where
    d: "drc_claim_lock_owner e c k claim version is_remaster = Some (CT_SUCCESS, c')" "lctx c' fl L pl lfl' qs'" "q_items L qs' lfl' = S"
      "\<forall>y. y \<noteq> x \<longrightarrow> lock c' y = lock c y \<and> qs' y = qs y" "granted_map (lock c' x) = granted_map (granted_res claim (lock c x))"
      "lk_mode (lock c' x) = lk_claim_mode claim" unfolding S by auto
  then show ?thesis using granted_res_inv(2)[OF lctx_linked(6)[OF inv x(1)] assms(3)] lock_okI[OF d(2,3)] by auto
qed

definition demo_lock_claim :: lock_claim_info_t where
  "demo_lock_claim = \<lparr>lk_new_id = 2, lk_claim_mode = DRC_LOCK_EXCLUSIVE, lk_claim_sid = 7\<rparr>"

lemma demo_grant_ok: "grant_ok demo_lock_claim demo_lock"
  by (simp add: grant_ok_def demo_lock_claim_def demo_lock_def demo_req_def g_invalid_req_info_def)

theorem claim_grants_lock_witness:
  "\<exists>c'. drc_claim_lock_owner demo_env demo_lctx demo_lid demo_lock_claim 3 False = Some (CT_SUCCESS, c') \<and>
     insts (granted_map (lock c' 0)) = {2} \<and> lk_mode (lock c' 0) = DRC_LOCK_EXCLUSIVE"
proof -
  have "grant_ok demo_lock_claim (lock demo_lctx 0)" using demo_grant_ok by simp
  moreover have "lk_new_id demo_lock_claim = 2" "lk_claim_mode demo_lock_claim = DRC_LOCK_EXCLUSIVE" by (simp_all add: demo_lock_claim_def)
  ultimately show ?thesis
    using claim_grants_lock[OF demo_lock_ok demo_lk_lookup, of demo_lock_claim demo_env 3 False] demo_dls_go by auto
qed

text \<open>
  C12: The requests that wait for a lock are served in the order they arrived: a claim makes the
  first of them the converting request and leaves the others waiting in their order; without a
  waiting request the lock is left without a converting one.
\<close>

theorem claim_serves_waiters_in_order:
  assumes "lctx c fl L pl lfl qs" and "x \<in> L" and "grant_ok claim (lock c x)"
    and "\<not> DRC_STOP_DLS_REQ_FOR_REFORMING e version (res_id (lock c x))"
  shows "\<exists>c' lfl' qs'. drc_claim_lock_owner e c (res_id (lock c x)) claim version False = Some (CT_SUCCESS, c') \<and>
    lctx c' fl L pl lfl' qs' \<and>
    (case reqs (lock_item_pool c) (qs x) of
       [] \<Rightarrow> lk_cvt_inst (lock c' x) = CT_INVALID_ID8 \<and> qs' x = []
     | r # rs \<Rightarrow> req_info (lk_converting (lock c' x)) = r \<and> reqs (lock_item_pool c') (qs' x) = rs)"
proof -
  from claim_lock_spec[OF assms(1,2) _ assms(3), of e version False] assms(4) obtain c' lfl' qs' where
    d: "drc_claim_lock_owner e c (res_id (lock c x)) claim version False = Some (CT_SUCCESS, c')" "lctx c' fl L pl lfl' qs'"
      "next_converting (reqs (lock_item_pool c) (qs x)) (lock c' x) (reqs (lock_item_pool c') (qs' x))" by auto
  then show ?thesis
    unfolding next_converting_def by (intro exI[of _ c'] exI[of _ lfl'] exI[of _ qs']) (auto split: list.splits)
qed

theorem claim_serves_waiters_witness:
  "\<exists>c'. drc_claim_lock_owner demo_env demo_lctx demo_lid demo_lock_claim 3 False = Some (CT_SUCCESS, c') \<and>
     req_info (lk_converting (lock c' 0)) = demo_req 3 DRC_LOCK_SHARE"
proof -
  have h: "grant_ok demo_lock_claim (lock demo_lctx 0)" "res_id (lock demo_lctx 0) = demo_lid" "(0 :: uint32) \<in> {0}"
    "reqs (lock_item_pool demo_lctx) [0] = [demo_req 3 DRC_LOCK_SHARE]"
    using demo_grant_ok by simp_all (simp_all add: demo_lock_def demo_lctx_of_def demo_queued_def)
  from claim_serves_waiters_in_order[OF demo_inv h(3,1), of demo_env 3] demo_dls_go show ?thesis unfolding h(2,4) by auto
qed

text \<open>
  C17: A claim stops the process at an assertion exactly when it is not stopped by a reform and
  does not answer the converting request of a known lock, or claims to share a lock, other than a
  table lock, that the claimant is recorded to hold already.
\<close>

theorem claim_stops_iff:
  assumes "lock_ok S c"
  shows "drc_claim_lock_owner e c k claim version is_remaster = None \<longleftrightarrow>
    (\<not> DRC_STOP_DLS_REQ_FOR_REFORMING e version k \<or> is_remaster) \<and>
    (\<forall>x. lk_lookup c k = Some (Some x) \<longrightarrow>
       lk_new_id claim \<noteq> lk_cvt_inst (lock c x) \<or> lk_claim_mode claim \<noteq> req_mode (req_info (lk_converting (lock c x))) \<or>
       lk_new_id claim \<ge> CT_MAX_INSTANCES \<or>
       lk_claim_mode claim \<noteq> DRC_LOCK_EXCLUSIVE \<and> lk_new_id claim \<in> insts (granted_map (lock c x)) \<and> drid_type (res_id (lock c x)) \<noteq> DR_TYPE_TABLE)"
proof -
  obtain fl L pl lfl qs where inv: "lctx c fl L pl lfl qs" using assms by (rule lock_okE)
  have g: "\<not> grant_ok claim r \<longleftrightarrow> lk_new_id claim \<noteq> lk_cvt_inst r \<or> lk_claim_mode claim \<noteq> req_mode (req_info (lk_converting r)) \<or>
       lk_new_id claim \<ge> CT_MAX_INSTANCES \<or>
       lk_claim_mode claim \<noteq> DRC_LOCK_EXCLUSIVE \<and> lk_new_id claim \<in> insts (granted_map r) \<and> drid_type (res_id r) \<noteq> DR_TYPE_TABLE" for r
    by (auto simp: grant_ok_def not_less)
  have e: "(\<forall>x. lk_lookup c k = Some (Some x) \<longrightarrow> \<not> grant_ok claim (lock c x)) \<longleftrightarrow> (\<forall>x \<in> L. res_id (lock c x) = k \<longrightarrow> \<not> grant_ok claim (lock c x))"
    unfolding lk_lookup_spec(2)[OF inv] by blast
  show ?thesis
  proof (cases "\<not> DRC_STOP_DLS_REQ_FOR_REFORMING e version k \<or> is_remaster")
    case False
    then show ?thesis using claim_lock_stopped[OF inv] by auto
  next
    case go: True
    show ?thesis
    proof (cases "\<forall>x \<in> L. res_id (lock c x) = k \<longrightarrow> \<not> grant_ok claim (lock c x)")
      case True
      then show ?thesis using go claim_lock_stops[OF inv go True] e unfolding g by simp
    next
      case False
      then obtain x where x: "x \<in> L" "res_id (lock c x) = k" "grant_ok claim (lock c x)" by blast
      from claim_lock_spec[OF inv x(1) _ x(3), of e version is_remaster] go x(2)
      have "drc_claim_lock_owner e c k claim version is_remaster \<noteq> None" by auto
      then show ?thesis using e False unfolding g by blast
    qed
  qed
qed

theorem claim_stops_witness:
  "drc_claim_lock_owner demo_env demo_lctx demo_lid (demo_lock_claim\<lparr>lk_new_id := 3\<rparr>) 3 False = None"
  using claim_stops_iff[OF demo_lock_ok, of demo_env demo_lid "demo_lock_claim\<lparr>lk_new_id := 3\<rparr>" 3 False] demo_dls_go demo_lk_lookup
  by (simp add: demo_lock_def demo_req_def g_invalid_req_info_def)

text \<open>
  C13: A request for a lock nobody is converting is answered at once. It is granted only if the
  modes go together: an exclusive request only when nobody holds the lock, a shared one only when
  nobody holds it exclusively; otherwise the answer names exactly the holders to ask. The holders
  do not change before the claim.
\<close>

theorem idle_lock_request_answered:
  assumes "lock_ok S c" and "lk_lookup c k = Some (Some x)" and "lk_cvt_inst (lock c x) = CT_INVALID_ID8"
    and "req_ok req" and "\<not> DRC_STOP_DLS_REQ_FOR_REFORMING (env w 0) version k"
  shows "\<exists>out' c'. drc_request_lock_owner w c k req out version = Some (CT_SUCCESS, out', c') \<and> lock_ok S c' \<and>
    req_info (lk_converting (lock c' x)) = req \<and> granted_map (lock c' x) = granted_map (lock c x) \<and>
    (is_granted out' \<longrightarrow> old_owner_map out' = 0 \<and>
       (req_mode req = DRC_LOCK_EXCLUSIVE \<longrightarrow> insts (granted_map (lock c x)) = {}) \<and>
       (req_mode req = DRC_LOCK_SHARE \<longrightarrow> lk_mode (lock c x) \<noteq> DRC_LOCK_EXCLUSIVE)) \<and>
    (\<not> is_granted out' \<longrightarrow> old_owner_map out' = granted_map (lock c x) \<and> lk_mode (lock c x) \<noteq> DRC_LOCK_NULL)"
proof -
  obtain fl L pl lfl qs where inv: "lctx c fl L pl lfl qs" and S: "q_items L qs lfl = S" using assms(1) by (rule lock_okE)
  have x: "x \<in> L" "res_id (lock c x) = k" using lk_lookup_spec(2)[OF inv] assms(2) by simp_all
  from start_converting[OF inv x(1) assms(3,4)] obtain c' where
    d: "lk_put c x (set_lk_req req (lock c x)) = Some c'" "lctx c' fl L pl lfl qs" "lock c' x = set_lk_req req (lock c x)" by auto
  have "drc_request_lock_owner w c k req out version = Some (CT_SUCCESS, lock_reply_of req (lock c x), c')"
    using request_known[OF inv _ x(1) assms(4), of "env w 0" version out] assms(3,5) d(1) x(2)
    by (simp add: drc_request_lock_owner_def)
  moreover have "lk_mode (lock c x) = DRC_LOCK_NULL \<longrightarrow> insts (granted_map (lock c x)) = {}"
    using lk_invD(5)[OF lctx_linked(6)[OF inv x(1)]] by auto
  ultimately show ?thesis using d(3) lock_okI[OF d(2) S] by (auto simp: lock_reply_of_def compatible_def)
qed

abbreviation demo_free_items :: item_pool_t where
  "demo_free_items \<equiv> demo_queued\<lparr>free_list := 0, used_num := 0, items := (\<lambda>i. zero_item\<lparr>nxt := if i = 0 then 1 else CT_INVALID_ID32\<rparr>)\<rparr>"

lemma demo_idle_inv:
  assumes "req_ok r \<or> inst_id r = CT_INVALID_ID8"
  shows "lctx (demo_lctx_of demo_free_items (set_lk_req r (demo_lock\<lparr>lk_convert_q := DRC_LIST_INIT\<rparr>))) [1] {0} demo_pl [0, 1] (\<lambda>_. [])"
proof (rule demo_lctx_ok)
  let ?r = "set_lk_req r (demo_lock\<lparr>lk_convert_q := DRC_LIST_INIT\<rparr>)"
  show "lock_ident demo_lock ?r" by (simp add: lock_ident_def)
  show "qrep demo_free_items [0, 1] (lk_convert_q ?r) []"
    by (simp add: qrep_def queue_inv_def pool_inv_def demo_queued_def demo_lock_def DRC_LIST_INIT_def)
  have "insts (granted_map ?r) = {1}" using demo_granted by simp
  then show "lk_inv ?r (reqs demo_free_items [])"
    unfolding lk_inv_def using assms by (auto simp: demo_lock_def)
qed

definition demo_idle :: drc_lock_ctx where
  "demo_idle = demo_lctx_of demo_free_items (set_lk_req ((demo_req 2 DRC_LOCK_EXCLUSIVE)\<lparr>inst_id := CT_INVALID_ID8\<rparr>) (demo_lock\<lparr>lk_convert_q := DRC_LIST_INIT\<rparr>))"

lemma demo_idle: "lctx demo_idle [1] {0} demo_pl [0, 1] (\<lambda>_. [])" "lk_cvt_inst (lock demo_idle 0) = CT_INVALID_ID8"
  "granted_map (lock demo_idle 0) = granted_map demo_lock" "lk_lookup demo_idle demo_lid = Some (Some 0)"
proof -
  show i: "lctx demo_idle [1] {0} demo_pl [0, 1] (\<lambda>_. [])" unfolding demo_idle_def by (rule demo_idle_inv) simp
  show "lk_cvt_inst (lock demo_idle 0) = CT_INVALID_ID8" "granted_map (lock demo_idle 0) = granted_map demo_lock"
    by (simp_all add: demo_idle_def)
  show "lk_lookup demo_idle demo_lid = Some (Some 0)"
    using lk_lookup_spec(2)[OF i, of demo_lid 0] by (simp add: demo_idle_def demo_lock_def)
qed

definition demo_lock_world :: "(drc_lock_ctx \<Rightarrow> drc_lock_ctx) \<Rightarrow> drc_lock_ctx drc_world" where
  "demo_lock_world f = \<lparr>env = (\<lambda>_. demo_env), others = (\<lambda>_. f),
     inval_readonly = (\<lambda>_ _ _ _. CT_SUCCESS), inval_owner = (\<lambda>_ _ _. CT_SUCCESS)\<rparr>"

lemma demo_lock_world [simp]: "env (demo_lock_world f) n = demo_env" "others (demo_lock_world f) n = f"
  by (simp_all add: demo_lock_world_def)

theorem idle_lock_request_answered_witness:
  "\<exists>out' c'. drc_request_lock_owner (demo_lock_world (\<lambda>c. c))
       demo_idle demo_lid (demo_req 3 DRC_LOCK_EXCLUSIVE) \<lparr>is_granted = False, old_owner_map = 0\<rparr> 3 = Some (CT_SUCCESS, out', c') \<and>
     \<not> is_granted out' \<and> insts (old_owner_map out') = {1}"
proof -
  have r: "req_ok (demo_req 3 DRC_LOCK_EXCLUSIVE)" "req_mode (demo_req 3 DRC_LOCK_EXCLUSIVE) = DRC_LOCK_EXCLUSIVE"
    by (simp_all add: req_ok_def demo_req_def)
  from idle_lock_request_answered[OF lock_okI[OF demo_idle(1) refl] demo_idle(4,2) r(1),
      of "demo_lock_world (\<lambda>c. c)" 3 "\<lparr>is_granted = False, old_owner_map = 0\<rparr>"]
  show ?thesis using demo_dls_go demo_granted unfolding demo_idle(3) by (auto simp: r(2))
qed

lemma wait_known:
  assumes "lock_ok S c" and "drc_request_lock_owner_begin e c k req out version = Some (LockWait x c1)"
  shows "lk_lookup c k \<noteq> Some None"
proof
  assume new: "lk_lookup c k = Some None"
  obtain fl L pl lfl qs where inv: "lctx c fl L pl lfl qs" using assms(1) by (rule lock_okE)
  have "\<not> DRC_STOP_DLS_REQ_FOR_REFORMING e version k" using request_stopped[OF inv] assms(2) by auto
  from request_unknown[OF inv this new, of req out] show False using assms(2) by (cases "drc_lock_create_converting c k req") (auto simp: knl_panic_def split: if_splits)
qed

text \<open>
  C14: A request that has to wait returns: if a reform stops it or the requests before it are
  served so that it becomes the converting one, and until then nobody else takes it out of the
  queue, the handler ends with an error during a reform or with an answer on the state of the
  lock at that moment.
\<close>

theorem queued_lock_request_returns:
  assumes "lock_ok S c" and "req_ok req" and "drc_request_lock_owner_begin (env w 0) c k req out version = Some (LockWait x c1)"
    and "queue_rely w version k x req"
    and "poll_stops w version k n \<or> lk_cvt_inst (lock (after w c1 (Suc n)) x) = inst_id req"
  shows "\<exists>j ret out' c'. drc_request_lock_owner w c k req out version = Some (ret, out', c') \<and> j \<le> n \<and> c' = after w c1 (Suc j) \<and>
    (ret = CT_SUCCESS \<and> lk_cvt_inst (lock c' x) = inst_id req \<and> old_owner_map out' = (if is_granted out' then 0 else granted_map (lock c' x)) \<or>
     ret = CT_ERROR \<and> poll_stops w version k j \<and> out' = out)"
proof -
  from request_begin_ok[OF assms(1,2), where e = "env w 0" and k = k and out = out and version = version] assms(3) wait_known[OF assms(1,3)]
  have "awaits (after w c1 0) x req" by auto
  from wait_loop_ends[OF assms(4,2) this le0 assms(5), of out] obtain j ret out' c' where
    d: "drc_lock_wait_loop w 0 c1 k x req out version = Some (ret, out', c')" "j \<le> n" "c' = after w c1 (Suc j)"
      "ret = CT_SUCCESS \<and> lk_cvt_inst (lock c' x) = inst_id req \<and> out' = lock_reply_of req (lock c' x) \<or>
       ret = CT_ERROR \<and> poll_stops w version k j \<and> out' = out" by auto
  then show ?thesis
    using assms(3) by (intro exI[of _ j] exI[of _ ret] exI[of _ out'] exI[of _ c']) (auto simp: drc_request_lock_owner_def lock_reply_of_def)
qed

text \<open>A world in which the converting request of lock 0 is cancelled until that of instance 4 is it.\<close>

definition cancel_until_4 :: "drc_lock_ctx \<Rightarrow> drc_lock_ctx" where
  "cancel_until_4 c = (if lk_cvt_inst (lock c 0) = 4 then c
     else case drc_cancel_lock_owner_request c (lk_cvt_inst (lock c 0)) (res_id (lock c 0)) of None \<Rightarrow> c | Some (ret, c') \<Rightarrow> c')"

lemma cancel_until_4_spec:
  assumes "lctx c fl L pl lfl qs" "0 \<in> L" "lk_cvt_inst (lock c 0) \<noteq> 4"
  shows "\<exists>lfl' qs'. lctx (cancel_until_4 c) fl L pl lfl' qs' \<and>
    next_converting (reqs (lock_item_pool c) (qs 0)) (lock (cancel_until_4 c) 0) (reqs (lock_item_pool (cancel_until_4 c)) (qs' 0))"
proof -
  from cancel_lock_spec[OF assms(1), of "lk_cvt_inst (lock c 0)" "res_id (lock c 0)"] obtain ret c' lfl' qs' where
    d: "drc_cancel_lock_owner_request c (lk_cvt_inst (lock c 0)) (res_id (lock c 0)) = Some (ret, c')" "lctx c' fl L pl lfl' qs'"
      "\<forall>y \<in> L. res_id (lock c y) = res_id (lock c 0) \<and> lk_cvt_inst (lock c y) = lk_cvt_inst (lock c 0) \<longrightarrow>
         lock_ident (lock c y) (lock c' y) \<and> granted_map (lock c' y) = granted_map (lock c y) \<and> lk_mode (lock c' y) = lk_mode (lock c y) \<and>
         next_converting (reqs (lock_item_pool c) (qs y)) (lock c' y) (reqs (lock_item_pool c') (qs' y))"
    by (elim exE conjE) (rule that)
  have "cancel_until_4 c = c'" using d(1) assms(3) by (simp add: cancel_until_4_def)
  then show ?thesis using d(2) bspec[OF d(3) assms(2)] by (intro exI[of _ lfl'] exI[of _ qs']) simp
qed

lemma cancel_until_4_rely:
  assumes "inst_id req = 4"
  shows "queue_rely (demo_lock_world cancel_until_4) version k 0 req"
  unfolding queue_rely_def
proof (intro allI impI disjI2)
  fix n and c :: drc_lock_ctx
  assume "awaits c 0 req"
  then obtain fl L pl lfl qs where a: "lctx c fl L pl lfl qs" "0 \<in> L"
    "req \<in> set (reqs (lock_item_pool c) (qs 0)) \<or> lk_cvt_inst (lock c 0) = 4" unfolding awaits_def assms by blast
  show "awaits (others (demo_lock_world cancel_until_4) n c) 0 req"
  proof (cases "lk_cvt_inst (lock c 0) = 4")
    case True
    then show ?thesis using \<open>awaits c 0 req\<close> by (simp add: cancel_until_4_def)
  next
    case False
    from cancel_until_4_spec[OF a(1,2) False] obtain lfl' qs' where
      d: "lctx (cancel_until_4 c) fl L pl lfl' qs'"
        "next_converting (reqs (lock_item_pool c) (qs 0)) (lock (cancel_until_4 c) 0) (reqs (lock_item_pool (cancel_until_4 c)) (qs' 0))" by blast
    have "req \<in> set (reqs (lock_item_pool (cancel_until_4 c)) (qs' 0)) \<or> lk_cvt_inst (lock (cancel_until_4 c) 0) = inst_id req"
      using d(2) a(3) False unfolding next_converting_def by (cases "reqs (lock_item_pool c) (qs 0)") auto
    then show ?thesis using d(1) a(2) unfolding awaits_def demo_lock_world by blast
  qed
qed

definition demo_busy :: drc_lock_ctx where
  "demo_busy = demo_lctx_of demo_free_items (set_lk_req (demo_req 2 DRC_LOCK_EXCLUSIVE) (demo_lock\<lparr>lk_convert_q := DRC_LIST_INIT\<rparr>))"

theorem queued_lock_request_returns_witness:
  "\<exists>ret out' c'. drc_request_lock_owner (demo_lock_world cancel_until_4) demo_busy demo_lid (demo_req 4 DRC_LOCK_SHARE)
       \<lparr>is_granted = False, old_owner_map = 0\<rparr> 3 = Some (ret, out', c') \<and> ret = CT_SUCCESS \<and> lk_cvt_inst (lock c' 0) = 4"
proof -
  let ?w = "demo_lock_world cancel_until_4" and ?r = "demo_req 4 DRC_LOCK_SHARE" and ?out = "\<lparr>is_granted = False, old_owner_map = 0\<rparr>"
  have r: "req_ok ?r" "req_ok (demo_req 2 DRC_LOCK_EXCLUSIVE)" "inst_id ?r = 4" by (simp_all add: req_ok_def demo_req_def)
  have inv: "lctx demo_busy [1] {0} demo_pl [0, 1] (\<lambda>_. [])" unfolding demo_busy_def by (rule demo_idle_inv) (simp add: r(2))
  have b: "lk_cvt_inst (lock demo_busy 0) = 2" "granted_map (lock demo_busy 0) = granted_map demo_lock" "res_id (lock demo_busy 0) = demo_lid"
    "(0 :: uint32) \<in> {0}" by (simp_all add: demo_busy_def demo_req_def g_invalid_req_info_def) (simp add: demo_lock_def)
  have b': "lk_cvt_inst (lock demo_busy 0) \<noteq> CT_INVALID_ID8" by (simp add: b(1))
  from enqueue_lock_spec[OF inv b(4) b' r(1)] obtain c1 where
    d: "drc_request_lock_owner_add_req_into_cvt_q demo_busy 0 ?r = Some (CT_SUCCESS, c1)" "lctx c1 [1] {0} demo_pl [1] ((\<lambda>_. [])(0 := [0]))"
      "reqs (lock_item_pool c1) [0] = [?r]" "lk_cvt_inst (lock c1 0) = 2" using b(1) by auto
  have run: "drc_request_lock_owner_begin (env ?w 0) demo_busy demo_lid ?r ?out 3 = Some (LockWait 0 c1)"
    using request_known[OF inv _ b(4) r(1), of demo_env 3 ?out] b b' d(1) demo_dls_go r(3) demo_granted by simp
  have "lk_cvt_inst (lock c1 0) \<noteq> 4" by (simp add: d(4))
  from cancel_until_4_spec[OF d(2) b(4) this] d(3) r(3) have "lk_cvt_inst (lock (after ?w c1 (Suc 0)) 0) = inst_id ?r"
    by (auto simp: next_converting_def)
  then have fin: "poll_stops ?w 3 demo_lid 0 \<or> lk_cvt_inst (lock (after ?w c1 (Suc 0)) 0) = inst_id ?r" by blast
  have "\<not> poll_stops ?w 3 demo_lid 0" using demo_dls_go by (simp add: poll_stops_def)
  then show ?thesis
    using queued_lock_request_returns[OF lock_okI[OF inv refl] r(1) run cancel_until_4_rely[OF r(3)] fin] r(3) by auto
qed

text \<open>
  C15: Cleaning the partitions of the lock catalogue after instance \<open>inst\<close> left: unless the remaster
  fails meanwhile, no lock of the partition is granted to \<open>inst\<close> any more, none is being converted
  for it and none has a queue left; the other holders keep their locks, a lock disappears only if
  \<open>inst\<close> was its only holder, and the locks of the other partitions keep their holders.
\<close>

theorem crashed_instance_purged:
  assumes "lctx c fl L pl lfl qs" and "inst < CT_MAX_INSTANCES" and "\<forall>j. env_remaster_status (e j) \<noteq> REMASTER_FAIL"
  shows "\<exists>c' fl' L' pl' lfl' qs'. drc_clean_lock_owner_by_part e c inst (drc_get_global_lock_res_parts c p) = Some c' \<and>
    lctx c' fl' L' pl' lfl' qs' \<and> L' \<subseteq> L \<and>
    (\<forall>y \<in> L. part_id (lock c y) = p \<and> y \<in> L' \<longrightarrow> insts (granted_map (lock c' y)) = insts (granted_map (lock c y)) - {inst} \<and>
       lk_cvt_inst (lock c' y) \<noteq> inst \<and> list_count (lk_convert_q (lock c' y)) = 0) \<and>
    (\<forall>y \<in> L. part_id (lock c y) = p \<and> y \<notin> L' \<longrightarrow> insts (granted_map (lock c y)) = {inst}) \<and>
    (\<forall>y \<in> L. part_id (lock c y) \<noteq> p \<longrightarrow> y \<in> L' \<and> granted_map (lock c' y) = granted_map (lock c y))"
proof -
  have ne: "inst \<noteq> CT_INVALID_ID8" using assms(2) by auto
  note at = lctxD(1)[OF assms(1)]
  note d = gres_atD(1)[OF at, of p]
  have f: "pl p \<noteq> [] \<longrightarrow> list_first (res_parts (global_lock_res c) p) = hd (pl p)" using dll_first[OF d] by simp
  have n: "unat (list_count (res_parts (global_lock_res c) p)) = length (pl p)" using d by (simp add: dll_def unat_of_nat)
  have pl: "pl p = [] @ pl p" by simp
  have part: "y \<in> set (pl p) \<longleftrightarrow> part_id (lock c y) = p" if "y \<in> L" for y using gres_atD(2,3)[OF at] that by metis
  from clean_locks_loop_spec[OF assms(1) pl f assms(2), where e = e] obtain c' fl' L' pl' lfl' qs' where
    r: "drc_clean_lock_owner_loop (length (pl p)) e c inst (list_first (res_parts (global_lock_res c) p)) = Some c'" "lctx c' fl' L' pl' lfl' qs'"
      "L' \<subseteq> L" "\<forall>y \<in> L - set (pl p). y \<in> L' \<and> body_eq (lock c y) (lock c' y)"
      "(\<exists>j < length (pl p). env_remaster_status (e j) = REMASTER_FAIL) \<or>
       (\<forall>y \<in> set (pl p). if y \<in> L' then cleaned_of inst (lock c y) (lock c' y) else insts (granted_map (lock c y)) = {inst})"
    by (elim exE conjE) (rule that)
  have cl: "\<forall>y \<in> set (pl p). if y \<in> L' then cleaned_of inst (lock c y) (lock c' y) else insts (granted_map (lock c y)) = {inst}"
    using r(5) assms(3) by blast
  have a: "insts (granted_map (lock c' y)) = insts (granted_map (lock c y)) - {inst} \<and> lk_cvt_inst (lock c' y) \<noteq> inst \<and>
      list_count (lk_convert_q (lock c' y)) = 0" if "y \<in> L" "part_id (lock c y) = p" "y \<in> L'" for y
  proof -
    have "cleaned_of inst (lock c y) (lock c' y)" using bspec[OF cl, of y] part[OF that(1)] that(2,3) by simp
    then show ?thesis using ne unfolding cleaned_of_def by simp
  qed
  have b: "insts (granted_map (lock c y)) = {inst}" if "y \<in> L" "part_id (lock c y) = p" "y \<notin> L'" for y
    using bspec[OF cl, of y] part[OF that(1)] that by simp
  have o: "y \<in> L' \<and> granted_map (lock c' y) = granted_map (lock c y)" if "y \<in> L" "part_id (lock c y) \<noteq> p" for y
    using bspec[OF r(4), of y] part[OF that(1)] that lock_body_eq[of "lock c y" "lock c' y"] by simp
  show ?thesis
    using r(1-3) n a b o
    by - (rule exI[of _ c'], rule exI[of _ fl'], rule exI[of _ L'], rule exI[of _ pl'], rule exI[of _ lfl'], rule exI[of _ qs'],
        simp add: drc_clean_lock_owner_by_part_def drc_get_global_lock_res_parts_def)
qed

theorem crashed_instance_purged_witness:
  "\<exists>c'. drc_clean_lock_owner_by_part (\<lambda>_. demo_env) demo_lctx 1 (drc_get_global_lock_res_parts demo_lctx 3) = Some c' \<and>
     (lk_lookup c' demo_lid = Some (Some 0) \<longrightarrow> insts (granted_map (lock c' 0)) = {})"
proof -
  have h: "(1 :: uint8) < CT_MAX_INSTANCES" "\<forall>j :: nat. env_remaster_status demo_env \<noteq> REMASTER_FAIL" "part_id (lock demo_lctx 0) = 3"
    by (simp_all add: demo_env_def) (simp add: demo_lock_def)
  from crashed_instance_purged[OF demo_inv h(1), of "\<lambda>_. demo_env" 3, OF h(2)] obtain c' fl' L' pl' lfl' qs' where
    d: "drc_clean_lock_owner_by_part (\<lambda>_. demo_env) demo_lctx 1 (drc_get_global_lock_res_parts demo_lctx 3) = Some c'" "lctx c' fl' L' pl' lfl' qs'"
      "\<forall>y \<in> {0}. part_id (lock demo_lctx y) = 3 \<and> y \<in> L' \<longrightarrow> insts (granted_map (lock c' y)) = insts (granted_map (lock demo_lctx y)) - {1} \<and>
         lk_cvt_inst (lock c' y) \<noteq> 1 \<and> list_count (lk_convert_q (lock c' y)) = 0" by (elim exE conjE) (rule that)
  have "0 \<in> L' \<longrightarrow> insts (granted_map (lock c' 0)) = {}" using bspec[OF d(3), of 0] h(3) demo_granted by simp
  then show ?thesis using d(1) lk_lookup_spec(2)[OF d(2), of demo_lid 0] by (intro exI[of _ c']) simp
qed

text \<open>
  C16: The pages and the locks of the catalogue share the pool of lock items. Whatever sequence of
  lock handlers runs, no page resource changes, the page catalogue keeps its invariant with the
  same queues, and the lock items are still divided between the free list, the queues of the
  pages and the queues of the locks.
\<close>

theorem lock_steps_keep_pages:
  assumes "lctx c lkfl M pl lfl lkqs" and "pctx {} (\<Union>x \<in> M. set (lkqs x)) c fl L lfl qs" and "lock_step\<^sup>*\<^sup>* c c'"
  shows "\<exists>lkfl' M' pl' lfl' lkqs'. lctx c' lkfl' M' pl' lfl' lkqs' \<and> pctx {} (\<Union>x \<in> M'. set (lkqs' x)) c' fl L lfl' qs \<and>
    set lfl' \<union> (\<Union>x \<in> M'. set (lkqs' x)) = set lfl \<union> (\<Union>x \<in> M. set (lkqs x)) \<and> (\<forall>x. buf c' x = buf c x)"
proof -
  have g: "lock_guar (q_items M lkqs lfl) c c'" using lock_steps_ok[OF assms(3)] lock_okI[OF assms(1) refl] by blast
  then have "lock_ok (q_items M lkqs lfl) c'" and t: "touches (q_items M lkqs lfl) c c'" by (simp_all add: lock_guar_def)
  then obtain lkfl' M' pl' lfl' lkqs' where i: "lctx c' lkfl' M' pl' lfl' lkqs'" "q_items M' lkqs' lfl' = q_items M lkqs lfl"
    by (elim lock_okE)
  note q = lctxD(4)[OF i(1)]
  have "pool_inv (lock_item_pool c') lfl'" by (rule queues_okD(1)[OF q])
  moreover have "set lfl' \<inter> (\<Union>x \<in> M'. set (lkqs' x)) = {}" using q unfolding queues_ok_def by blast
  ultimately have "pctx {} (\<Union>x \<in> M'. set (lkqs' x)) c' fl L lfl' qs" using pctx_touches[OF assms(2) t refl] i(2) by simp
  moreover have "\<forall>x. buf c' x = buf c x" using t by (simp add: touches_def)
  ultimately show ?thesis using i
    by - (rule exI[of _ lkfl'], rule exI[of _ M'], rule exI[of _ pl'], rule exI[of _ lfl'], rule exI[of _ lkqs'], simp)
qed

lemma demo_lctx_pages: "pctx {} {0} demo_lctx [1] {0} [1] (\<lambda>_. [])"
proof -
  have n: "bucket_num (buf_map demo_ctx) = 5" by (simp add: demo_ctx_of_def)
  note p = demo_pctx[of 4, unfolded pctx_def n]
  have g: "global_buf_res demo_lctx = global_buf_res demo_ctx" "lock_item_pool demo_lctx = demo_queued" by (simp_all add: demo_lctx_of_def)
  have "page_ok (lock_item_pool demo_ctx) (buf demo_ctx 0) []" using p by blast
  then have "page_ok demo_queued (buf demo_ctx 0) []"
    by (simp add: page_ok_def queue_inv_def demo_queued_def demo_ctx_of_def demo_items_free_def)
  moreover have "pool_inv demo_queued [1]" "(0 :: uint32) < item_num demo_queued" by (simp_all add: pool_inv_def demo_queued_def)
  ultimately show ?thesis using p unfolding pctx_def g n by simp
qed

theorem lock_steps_keep_pages_witness:
  "\<exists>c'. lock_step\<^sup>*\<^sup>* demo_lctx c' \<and> lk_cvt_inst (lock c' 0) = 3 \<and> (\<forall>x. buf c' x = buf demo_lctx x) \<and> (\<exists>K. ctx_ok {} K c')"
proof -
  from claim_lock_spec[OF demo_inv _ _ , of 0 demo_env 3 False demo_lock_claim] demo_dls_go demo_grant_ok obtain c' lfl' qs' where
    d: "drc_claim_lock_owner demo_env demo_lctx demo_lid demo_lock_claim 3 False = Some (CT_SUCCESS, c')"
      "next_converting (reqs (lock_item_pool demo_lctx) [0]) (lock c' 0) (reqs (lock_item_pool c') (qs' 0))"
    by (auto simp: demo_lock_def simp del: map_eq_conv)
  have s: "lock_step\<^sup>*\<^sup>* demo_lctx c'" using lock_step.claim[OF d(1)] by blast
  have "inst_id (req_info (lk_converting (lock c' 0))) = 3"
    using d(2) by (simp add: next_converting_def demo_lctx_of_def demo_queued_def demo_req_def g_invalid_req_info_def)
  moreover have "pctx {} (\<Union>x \<in> {0 :: uint32}. set [0]) demo_lctx [1] {0} [1] (\<lambda>_. [])" using demo_lctx_pages by simp
  from lock_steps_keep_pages[OF demo_inv this s] have "(\<forall>x. buf c' x = buf demo_lctx x) \<and> (\<exists>K. ctx_ok {} K c')"
    unfolding ctx_ok_def by (elim exE conjE) (intro conjI exI)
  ultimately show ?thesis using s by blast
qed



section \<open>Hashes and partition numbers\<close>

lemma hash_loop_acc:
  "drc_resource_id_hash_loop h bs = h * 131 ^ length bs + (\<Sum>i < length bs. scast (bs ! i) * 131 ^ (length bs - Suc i))"
proof (induction bs arbitrary: h)
  case Nil
  then show ?case by simp
next
  case (Cons c cs)
  have "(\<Sum>i < length (c # cs). scast ((c # cs) ! i) * 131 ^ (length (c # cs) - Suc i)) =
      (scast c * 131 ^ length cs + (\<Sum>i < length cs. scast (cs ! i) * 131 ^ (length cs - Suc i)) :: uint32)"
    by (simp add: sum.lessThan_Suc_shift del: sum.lessThan_Suc)
  then show ?case using Cons.IH[of "h * 131 + scast c"] by (simp add: algebra_simps)
qed

text \<open>
  C19: The incremental hash of an identifier is the value of its bytes, read as signed digits with
  the most significant first, as a number to the base 131 modulo \<open>2 ^ 32\<close>, reduced to the range.
\<close>

theorem resource_hash_is_polynomial:
  "drc_resource_id_hash bs rng =
     (if rng = 0 then None else Some ((\<Sum>i < length bs. scast (bs ! i) * 131 ^ (length bs - Suc i)) mod rng))"
  by (simp add: drc_resource_id_hash_def hash_loop_acc)

lemma part_index_fits:
  assumes "p < (DRC_MAX_PART_NUM :: uint32)"
  shows "unat (ucast p :: uint16) = unat p" "unat p < 1024"
proof -
  show l: "unat p < 1024" using assms by (simp add: word_less_nat_alt)
  then show "unat (ucast p :: uint16) = unat p" by (simp add: unsigned_ucast_eq unsigned_take_bit_eq take_bit_nat_eq_self)
qed


end
