(* ===== verification/Drc_Local.thy ===== *)
theory Drc_Local
  imports Drc_Lock_Props Drc_Store
begin

text \<open>
  The locks an instance holds (\<open>dtc_drc.c\<close>). Next to the master's resources every instance keeps
  \<open>local_lock_map\<close>: per lock, whether it owns the lock and in which mode, whether a session has it
  locked, and for latches the number of sharers. A session works on such a resource under the
  resource's own spin lock, the field \<open>loc_lock\<close>; a caller that finds the spin lock taken does not
  get on in that state, which is the value \<open>None\<close>.

  The master's resources and the local map are the two halves of \<open>drc_res_ctx_t\<close> the lock service
  works on.
\<close>

section \<open>Data\<close>

abbreviation (input) LATCH_STATUS_IDLE :: uint16 where "LATCH_STATUS_IDLE \<equiv> 0"
abbreviation (input) LATCH_STATUS_S :: uint16 where "LATCH_STATUS_S \<equiv> 1"
abbreviation (input) LATCH_STATUS_IX :: uint16 where "LATCH_STATUS_IX \<equiv> 2"
abbreviation (input) LATCH_STATUS_X :: uint16 where "LATCH_STATUS_X \<equiv> 3"

record drc_local_latch =
  shared_count :: uint16
  stat :: uint16
  latch_sid :: uint16
  lock_mode :: uint8

record drc_local_lock_res_t = drc_block_header +
  loc_idx :: uint32
  loc_res_id :: drid_t
  is_owner :: bool
  is_locked :: bool
  loc_count :: uint16
  loc_lock :: bool
  loc_lockc :: bool
  latch_stat :: drc_local_latch

type_synonym local_map_t = "(drid_t, drc_local_lock_res_t) drc_res_map"

definition idle_latch :: drc_local_latch where
  "idle_latch = \<lparr>shared_count = 0, stat = LATCH_STATUS_IDLE, latch_sid = 0, lock_mode = DRC_LOCK_NULL\<rparr>"

definition zero_local_res :: drc_local_lock_res_t where
  "zero_local_res = \<lparr>nxt = 0, loc_idx = 0, loc_res_id = zero_drid, is_owner = False, is_locked = False, loc_count = 0,
     loc_lock = False, loc_lockc = False, latch_stat = idle_latch\<rparr>"

definition is_same_local_lock :: "drid_t \<Rightarrow> drc_local_lock_res_t \<Rightarrow> bool" where
  "is_same_local_lock lock_id local_lock \<longleftrightarrow>
     key1 (loc_res_id local_lock) = key1 lock_id \<and> key2 (loc_res_id local_lock) = key2 lock_id \<and>
     key3 (loc_res_id local_lock) = key3 lock_id \<and> key4 (loc_res_id local_lock) = key4 lock_id"

record drc_local_ctx =
  master_ctx :: drc_lock_ctx
  local_lock_map :: local_map_t

section \<open>Access to a local lock\<close>

definition loc_bucket :: "drc_local_ctx \<Rightarrow> drid_t \<Rightarrow> uint32 option" where
  "loc_bucket ctx lock_id = drc_get_res_map_bucket (local_lock_map ctx) (drid_bytes lock_id)"

definition loc_get :: "drc_local_ctx \<Rightarrow> uint32 \<Rightarrow> drc_local_lock_res_t option" where
  "loc_get ctx x = DRC_GET_RES_ADDR_BY_ID (res_pool (local_lock_map ctx)) x"

definition loc_put :: "drc_local_ctx \<Rightarrow> uint32 \<Rightarrow> drc_local_lock_res_t \<Rightarrow> drc_local_ctx option" where
  "loc_put ctx x r =
     do { pool \<leftarrow> drc_res_put (res_pool (local_lock_map ctx)) x r;
          Some (ctx\<lparr>local_lock_map := (local_lock_map ctx)\<lparr>res_pool := pool\<rparr>\<rparr>) }"

definition loc_update :: "drc_local_ctx \<Rightarrow> uint32 \<Rightarrow> (drc_local_lock_res_t \<Rightarrow> drc_local_lock_res_t) \<Rightarrow> drc_local_ctx option" where
  "loc_update ctx x f = do { r \<leftarrow> loc_get ctx x; loc_put ctx x (f r) }"

text \<open>The result is the index of the new resource, or \<open>None\<close> for the null pointer.\<close>

definition drc_create_local_lock_res :: "drc_local_ctx \<Rightarrow> drid_t \<Rightarrow> (uint32 option \<times> drc_local_ctx) option" where
  "drc_create_local_lock_res ctx lock_id =
     (let m = local_lock_map ctx in
      do { (item_idx, pool) \<leftarrow> drc_res_pool_alloc_item (res_pool m);
           let m = m\<lparr>res_pool := pool\<rparr>;
           if item_idx = CT_INVALID_ID32 then Some (None, ctx\<lparr>local_lock_map := m\<rparr>)
           else do {
             r \<leftarrow> DRC_GET_RES_ADDR_BY_ID (res_pool m) item_idx;
             let r = r\<lparr>loc_idx := item_idx, loc_res_id := lock_id, is_locked := False, is_owner := False,
                       loc_count := 0, loc_lock := False, loc_lockc := False, latch_stat := idle_latch,
                       nxt := CT_INVALID_ID32\<rparr>;
             bucket \<leftarrow> drc_get_res_map_bucket m (drid_bytes lock_id);
             let (n, bkt) = drc_res_map_add (buckets m bucket) item_idx;
             pool \<leftarrow> drc_res_put (res_pool m) item_idx (r\<lparr>nxt := n\<rparr>);
             Some (Some item_idx, ctx\<lparr>local_lock_map := m\<lparr>res_pool := pool, buckets := (buckets m)(bucket := bkt)\<rparr>\<rparr>) } })"

definition drc_release_local_lock_res :: "drc_local_ctx \<Rightarrow> uint32 \<Rightarrow> (status_t \<times> drc_local_ctx) option" where
  "drc_release_local_lock_res ctx x =
     do { r \<leftarrow> loc_get ctx x;
          ctx \<leftarrow> loc_put ctx x zero_local_res;
          pool \<leftarrow> drc_res_pool_free_item (res_pool (local_lock_map ctx)) (loc_idx r);
          Some (CT_SUCCESS, ctx\<lparr>local_lock_map := (local_lock_map ctx)\<lparr>res_pool := pool\<rparr>\<rparr>) }"

definition drc_get_local_resx_without_create :: "drc_local_ctx \<Rightarrow> drid_t \<Rightarrow> uint32 option option" where
  "drc_get_local_resx_without_create ctx lock_id =
     do { bucket \<leftarrow> loc_bucket ctx lock_id; drc_res_map_lookup (local_lock_map ctx) bucket lock_id }"

definition drc_get_local_resx :: "drc_local_ctx \<Rightarrow> drid_t \<Rightarrow> (uint32 \<times> drc_local_ctx) option" where
  "drc_get_local_resx ctx lock_id =
     do { bucket \<leftarrow> loc_bucket ctx lock_id;
          found \<leftarrow> drc_res_map_lookup (local_lock_map ctx) bucket lock_id;
          case found of
            Some x \<Rightarrow> Some (x, ctx)
          | None \<Rightarrow>
              do { (created, ctx) \<leftarrow> drc_create_local_lock_res ctx lock_id;
                   x \<leftarrow> created;
                   Some (x, ctx) } }"

definition drc_try_lock_local_resx :: "drc_local_ctx \<Rightarrow> uint32 \<Rightarrow> (bool \<times> drc_local_ctx) option" where
  "drc_try_lock_local_resx ctx x =
     do { r \<leftarrow> loc_get ctx x;
          if loc_lock r then Some (False, ctx)
          else do { ctx \<leftarrow> loc_put ctx x (r\<lparr>loc_lock := True\<rparr>); Some (True, ctx) } }"

definition drc_lock_local_resx :: "drc_local_ctx \<Rightarrow> uint32 \<Rightarrow> drc_local_ctx option" where
  "drc_lock_local_resx ctx x =
     do { r \<leftarrow> loc_get ctx x; if loc_lock r then None else loc_put ctx x (r\<lparr>loc_lock := True\<rparr>) }"

definition drc_unlock_local_resx :: "drc_local_ctx \<Rightarrow> uint32 \<Rightarrow> drc_local_ctx option" where
  "drc_unlock_local_resx ctx x = loc_update ctx x (\<lambda>r. r\<lparr>loc_lock := False\<rparr>)"

definition drc_lock_local_res_count :: "drc_local_ctx \<Rightarrow> uint32 \<Rightarrow> drc_local_ctx option" where
  "drc_lock_local_res_count ctx x =
     do { r \<leftarrow> loc_get ctx x; if loc_lockc r then None else loc_put ctx x (r\<lparr>loc_lockc := True\<rparr>) }"

definition drc_unlock_local_res_count :: "drc_local_ctx \<Rightarrow> uint32 \<Rightarrow> drc_local_ctx option" where
  "drc_unlock_local_res_count ctx x = loc_update ctx x (\<lambda>r. r\<lparr>loc_lockc := False\<rparr>)"

definition drc_lock_local_res :: "drc_local_ctx \<Rightarrow> drid_t \<Rightarrow> drc_local_ctx option" where
  "drc_lock_local_res ctx lock_id = do { (x, ctx) \<leftarrow> drc_get_local_resx ctx lock_id; drc_lock_local_resx ctx x }"

definition drc_try_lock_local_res :: "drc_local_ctx \<Rightarrow> drid_t \<Rightarrow> (bool \<times> drc_local_ctx) option" where
  "drc_try_lock_local_res ctx lock_id = do { (x, ctx) \<leftarrow> drc_get_local_resx ctx lock_id; drc_try_lock_local_resx ctx x }"

definition drc_unlock_local_res :: "drc_local_ctx \<Rightarrow> drid_t \<Rightarrow> drc_local_ctx option" where
  "drc_unlock_local_res ctx lock_id =
     do { found \<leftarrow> drc_get_local_resx_without_create ctx lock_id; x \<leftarrow> found; drc_unlock_local_resx ctx x }"

definition drc_get_local_lock_stat :: "drc_local_ctx \<Rightarrow> drid_t \<Rightarrow> ((bool \<times> bool) \<times> drc_local_ctx) option" where
  "drc_get_local_lock_stat ctx lock_id =
     do { (x, ctx) \<leftarrow> drc_get_local_resx ctx lock_id;
          r \<leftarrow> loc_get ctx x;
          Some ((is_locked r, is_owner r), ctx) }"

definition drc_set_local_lock_stat :: "drc_local_ctx \<Rightarrow> drid_t \<Rightarrow> bool \<Rightarrow> bool \<Rightarrow> drc_local_ctx option" where
  "drc_set_local_lock_stat ctx lock_id locked owner =
     do { (x, ctx) \<leftarrow> drc_get_local_resx ctx lock_id;
          loc_update ctx x (\<lambda>r. r\<lparr>is_locked := locked, is_owner := owner\<rparr>) }"

definition drc_get_local_lock_statx :: "drc_local_ctx \<Rightarrow> uint32 \<Rightarrow> (bool \<times> bool) option" where
  "drc_get_local_lock_statx ctx x = do { r \<leftarrow> loc_get ctx x; Some (is_locked r, is_owner r) }"

definition drc_set_local_lock_statx :: "drc_local_lock_res_t \<Rightarrow> bool \<Rightarrow> bool \<Rightarrow> drc_local_lock_res_t" where
  "drc_set_local_lock_statx r locked owner = r\<lparr>is_locked := locked, is_owner := owner\<rparr>"

definition drc_get_local_latch_statx :: "drc_local_ctx \<Rightarrow> uint32 \<Rightarrow> drc_local_latch option" where
  "drc_get_local_latch_statx ctx x = map_option latch_stat (loc_get ctx x)"

definition drc_clean_local_lock_res :: "drc_local_ctx \<Rightarrow> uint32 \<Rightarrow> drc_local_ctx option" where
  "drc_clean_local_lock_res ctx x =
     do { ctx \<leftarrow> drc_lock_local_resx ctx x;
          ctx \<leftarrow> loc_update ctx x (\<lambda>r. r\<lparr>is_owner := False, is_locked := False, latch_stat := idle_latch\<rparr>);
          drc_unlock_local_resx ctx x }"

section \<open>Recycling\<close>

text \<open>The result is the status and \<open>is_found\<close>.\<close>

definition drc_lock_local_lock_res_by_id_for_recycle ::
  "drc_env \<Rightarrow> drc_local_ctx \<Rightarrow> drid_t \<Rightarrow> uint64 \<Rightarrow> bool \<Rightarrow> (status_t \<times> bool \<times> drc_local_ctx) option" where
  "drc_lock_local_lock_res_by_id_for_recycle e ctx lock_id version is_found =
     (if DRC_STOP_DLS_REQ_FOR_REFORMING e version lock_id then Some (CT_ERROR, is_found, ctx)
      else do {
        found \<leftarrow> drc_get_local_resx_without_create ctx lock_id;
        case found of
          None \<Rightarrow> Some (CT_SUCCESS, False, ctx)
        | Some x \<Rightarrow>
            do { (got, ctx) \<leftarrow> drc_try_lock_local_resx ctx x;
                 if \<not> got then Some (CT_ERROR, is_found, ctx)
                 else do {
                   r \<leftarrow> loc_get ctx x;
                   if is_locked r \<or> stat (latch_stat r) \<noteq> LATCH_STATUS_IDLE
                   then do { ctx \<leftarrow> drc_unlock_local_resx ctx x; Some (CT_ERROR, is_found, ctx) }
                   else do {
                     ctx \<leftarrow> loc_put ctx x (r\<lparr>is_locked := True, latch_stat := (latch_stat r)\<lparr>stat := LATCH_STATUS_X\<rparr>\<rparr>);
                     ctx \<leftarrow> drc_unlock_local_resx ctx x;
                     Some (CT_SUCCESS, is_found, ctx) } } } })"

definition drc_unlock_local_lock_res_by_id_for_recycle :: "drc_local_ctx \<Rightarrow> drid_t \<Rightarrow> (status_t \<times> drc_local_ctx) option" where
  "drc_unlock_local_lock_res_by_id_for_recycle ctx lock_id =
     do { found \<leftarrow> drc_get_local_resx_without_create ctx lock_id;
          case found of
            None \<Rightarrow> Some (CT_SUCCESS, ctx)
          | Some x \<Rightarrow>
              do { ctx \<leftarrow> drc_lock_local_resx ctx x;
                   ctx \<leftarrow> loc_update ctx x (\<lambda>r. r\<lparr>is_locked := False, latch_stat := (latch_stat r)\<lparr>stat := LATCH_STATUS_IDLE\<rparr>\<rparr>);
                   ctx \<leftarrow> drc_unlock_local_resx ctx x;
                   Some (CT_SUCCESS, ctx) } }"

definition drc_release_local_lock_res_by_id :: "drc_local_ctx \<Rightarrow> drid_t \<Rightarrow> drc_local_ctx option" where
  "drc_release_local_lock_res_by_id ctx lock_id =
     do { bucket \<leftarrow> loc_bucket ctx lock_id;
          found \<leftarrow> drc_get_local_resx_without_create ctx lock_id;
          case found of
            None \<Rightarrow> Some ctx
          | Some x \<Rightarrow>
              do { m \<leftarrow> drc_res_map_remove (local_lock_map ctx) bucket lock_id;
                   (_, ctx) \<leftarrow> drc_release_local_lock_res (ctx\<lparr>local_lock_map := m\<rparr>) x;
                   Some ctx } }"

text \<open>The handler of the master; a message of another size is dropped without an answer.\<close>

definition drc_process_recycle_lock_master ::
  "drc_env \<Rightarrow> drc_local_ctx \<Rightarrow> bool \<Rightarrow> drid_t \<Rightarrow> uint8 \<Rightarrow> (status_t option \<times> drc_local_ctx) option" where
  "drc_process_recycle_lock_master e ctx size_ok lock_id src =
     (if \<not> size_ok then Some (None, ctx)
      else do { (ret, c) \<leftarrow> drc_recycle_dls_master e (master_ctx ctx) lock_id (trigger_version e) src;
                Some (Some ret, ctx\<lparr>master_ctx := c\<rparr>) })"

text \<open>
  The exchange with a remote master: sending or receiving fails, or the answer carries a status.
  \<open>others w 0\<close> is what other threads do while the resource is marked, \<open>others w 1\<close> what they do
  between the answer and the last step.
\<close>

datatype recycle_answer = RecycleSendFailed | RecycleRecvFailed | RecycleAck status_t

definition drc_recycle_master_part ::
  "drc_local_ctx drc_world \<Rightarrow> uint8 \<Rightarrow> uint8 \<Rightarrow> drc_local_ctx \<Rightarrow> drid_t \<Rightarrow> uint64 \<Rightarrow> recycle_answer
     \<Rightarrow> (status_t \<times> drc_local_ctx) option" where
  "drc_recycle_master_part w self_id master_id ctx lock_id version answer =
     (if master_id = self_id
      then do { (ret, c) \<leftarrow> drc_recycle_dls_master (env w 1) (master_ctx ctx) lock_id version self_id;
                Some (ret, ctx\<lparr>master_ctx := c\<rparr>) }
      else Some (if answer = RecycleAck CT_SUCCESS then CT_SUCCESS else CT_ERROR, ctx))"

definition drc_recycle_lock_res ::
  "drc_local_ctx drc_world \<Rightarrow> (uint16 \<Rightarrow> uint8) \<Rightarrow> uint8 \<Rightarrow> drc_local_ctx \<Rightarrow> drid_t \<Rightarrow> uint64 \<Rightarrow> recycle_answer
     \<Rightarrow> (status_t \<times> drc_local_ctx) option" where
  "drc_recycle_lock_res w part_master self_id ctx lock_id version answer =
     do { master_id \<leftarrow> drc_get_lock_master_id part_master lock_id;
          (ret, is_found, ctx) \<leftarrow> drc_lock_local_lock_res_by_id_for_recycle (env w 0) ctx lock_id version True;
          if ret = CT_ERROR then Some (CT_ERROR, ctx)
          else if \<not> is_found then Some (CT_SUCCESS, ctx)
          else do {
            (ret, ctx) \<leftarrow> drc_recycle_master_part w self_id master_id (others w 0 ctx) lock_id version answer;
            let ctx = others w 1 ctx;
            if ret \<noteq> CT_SUCCESS
            then do { (_, ctx) \<leftarrow> drc_unlock_local_lock_res_by_id_for_recycle ctx lock_id; Some (CT_ERROR, ctx) }
            else do { ctx \<leftarrow> drc_release_local_lock_res_by_id ctx lock_id; Some (CT_SUCCESS, ctx) } } }"

end
