(* ===== verification/Drc_Local_Props.thy ===== *)
theory Drc_Local_Props
  imports Drc_Local
begin

text \<open>
  What the operations on local locks do: the map of local locks refines a finite map from lock
  identifiers to resources, an update of one resource is an update of that map, and recycling a
  lock either removes it everywhere or leaves it as it was.
\<close>

section \<open>What the local map holds\<close>

abbreviation loc_contents :: "local_map_t \<Rightarrow> drid_t \<Rightarrow> drc_local_lock_res_t option" where
  "loc_contents m \<equiv> contents (lock_hash (bucket_num m)) m"

definition loc_rep :: "local_map_t \<Rightarrow> uint32 list \<Rightarrow> uint32 set \<Rightarrow> bool" where
  "loc_rep m fl L \<longleftrightarrow> bucket_num m \<noteq> 0 \<and> stored loc_res_id (lock_hash (bucket_num m)) m fl L \<and> (\<forall>x \<in> L. loc_idx (item m x) = x)"

definition loc_ok :: "local_map_t \<Rightarrow> bool" where
  "loc_ok m \<longleftrightarrow> (\<exists>fl L. loc_rep m fl L)"

interpretation ll: keyed_res loc_res_id
  by unfold_locales simp

lemma loc_repD:
  assumes "loc_rep m fl L"
  shows "bucket_num m \<noteq> 0" "stored loc_res_id (lock_hash (bucket_num m)) m fl L" "x \<in> L \<Longrightarrow> loc_idx (item m x) = x"
    "x \<in> L \<Longrightarrow> x < item_num (res_pool m)"
  using assms storedD(2) unfolding loc_rep_def by blast+

lemma loc_bucket_eq: "bucket_num (local_lock_map ctx) \<noteq> 0 \<Longrightarrow> loc_bucket ctx k = Some (lock_hash (bucket_num (local_lock_map ctx)) k)"
  by (simp add: loc_bucket_def drc_get_res_map_bucket_def drc_resource_id_hash_def lock_hash_def)

lemma loc_cases:
  assumes "loc_rep (local_lock_map ctx) fl L"
  obtains (none) "drc_get_local_resx_without_create ctx k = Some None" "loc_contents (local_lock_map ctx) k = None"
  | (some) x where "drc_get_local_resx_without_create ctx k = Some (Some x)" "x \<in> L" "loc_res_id (item (local_lock_map ctx) x) = k"
      "loc_contents (local_lock_map ctx) k = Some ((item (local_lock_map ctx) x)\<lparr>nxt := 0\<rparr>)"
proof (rule stored_cases[OF loc_repD(2)[OF assms], of k])
  assume "drc_res_map_lookup (local_lock_map ctx) (lock_hash (bucket_num (local_lock_map ctx)) k) k = Some None"
    "loc_contents (local_lock_map ctx) k = None"
  then show thesis by (intro none) (simp_all add: drc_get_local_resx_without_create_def loc_bucket_eq[OF loc_repD(1)[OF assms]])
next
  fix x
  assume "drc_res_map_lookup (local_lock_map ctx) (lock_hash (bucket_num (local_lock_map ctx)) k) k = Some (Some x)"
    "loc_contents (local_lock_map ctx) k = Some ((item (local_lock_map ctx) x)\<lparr>nxt := 0\<rparr>)" "x \<in> L" "loc_res_id (item (local_lock_map ctx) x) = k"
  then show thesis by (intro some[of x]) (simp_all add: drc_get_local_resx_without_create_def loc_bucket_eq[OF loc_repD(1)[OF assms]])
qed

subsection \<open>Updating one resource\<close>

abbreviation locs :: "drc_local_ctx \<Rightarrow> uint32 \<Rightarrow> drc_local_lock_res_t" where
  "locs ctx x \<equiv> item (local_lock_map ctx) x"

abbreviation loc_num :: "drc_local_ctx \<Rightarrow> uint32" where
  "loc_num ctx \<equiv> item_num (res_pool (local_lock_map ctx))"

definition loc_set :: "drc_local_ctx \<Rightarrow> uint32 \<Rightarrow> drc_local_lock_res_t \<Rightarrow> drc_local_ctx" where
  "loc_set ctx x r = ctx\<lparr>local_lock_map := (local_lock_map ctx)\<lparr>res_pool := (res_pool (local_lock_map ctx))
     \<lparr>items := (items (res_pool (local_lock_map ctx)))(x := r)\<rparr>\<rparr>\<rparr>"

lemma loc_set_simps [simp]:
  "locs (loc_set ctx x r) y = (if y = x then r else locs ctx y)" "loc_num (loc_set ctx x r) = loc_num ctx"
  "master_ctx (loc_set ctx x r) = master_ctx ctx" "loc_set (loc_set ctx x r) x r' = loc_set ctx x r'"
  "bucket_num (local_lock_map (loc_set ctx x r)) = bucket_num (local_lock_map ctx)"
  by (simp_all add: loc_set_def)

lemma loc_set_same: "loc_set ctx x (locs ctx x) = ctx"
  by (simp add: loc_set_def)

lemma unlocked_set [simp]: "\<not> loc_lock r \<Longrightarrow> loc_set ctx x (r\<lparr>loc_lock := False\<rparr>) = loc_set ctx x r"
  by (rule arg_cong[of _ _ "loc_set ctx x"]) simp

lemma unlocked_count_set [simp]: "\<not> loc_lockc r \<Longrightarrow> loc_set ctx x (r\<lparr>loc_lockc := False\<rparr>) = loc_set ctx x r"
  by (rule arg_cong[of _ _ "loc_set ctx x"]) simp

lemma loc_access [simp]:
  assumes "x < loc_num ctx"
  shows "loc_get ctx x = Some (locs ctx x)" "loc_put ctx x r = Some (loc_set ctx x r)"
    "loc_update ctx x f = Some (loc_set ctx x (f (locs ctx x)))"
  using assms by (simp_all add: loc_get_def loc_put_def loc_update_def loc_set_def)

lemma spin_ops [simp]:
  assumes "x < loc_num ctx"
  shows "drc_lock_local_resx ctx x = (if loc_lock (locs ctx x) then None else Some (loc_set ctx x ((locs ctx x)\<lparr>loc_lock := True\<rparr>)))"
    "drc_try_lock_local_resx ctx x =
       Some (if loc_lock (locs ctx x) then (False, ctx) else (True, loc_set ctx x ((locs ctx x)\<lparr>loc_lock := True\<rparr>)))"
    "drc_unlock_local_resx ctx x = Some (loc_set ctx x ((locs ctx x)\<lparr>loc_lock := False\<rparr>))"
    "drc_lock_local_res_count ctx x = (if loc_lockc (locs ctx x) then None else Some (loc_set ctx x ((locs ctx x)\<lparr>loc_lockc := True\<rparr>)))"
    "drc_unlock_local_res_count ctx x = Some (loc_set ctx x ((locs ctx x)\<lparr>loc_lockc := False\<rparr>))"
    "drc_get_local_lock_statx ctx x = Some (is_locked (locs ctx x), is_owner (locs ctx x))"
    "drc_get_local_latch_statx ctx x = Some (latch_stat (locs ctx x))"
  using assms
  by (simp_all add: drc_lock_local_resx_def drc_try_lock_local_resx_def drc_unlock_local_resx_def drc_lock_local_res_count_def
      drc_unlock_local_res_count_def drc_get_local_lock_statx_def drc_get_local_latch_statx_def)

text \<open>An update that keeps the links of a resource is an update of the map.\<close>

definition same_links :: "drc_local_lock_res_t \<Rightarrow> drc_local_lock_res_t \<Rightarrow> bool" where
  "same_links r r' \<longleftrightarrow> nxt r' = nxt r \<and> loc_idx r' = loc_idx r \<and> loc_res_id r' = loc_res_id r"

lemma loc_set_rep:
  assumes rep: "loc_rep (local_lock_map ctx) fl L" and x: "x \<in> L" and r: "same_links (locs ctx x) r"
  shows "loc_rep (local_lock_map (loc_set ctx x r)) fl L"
    "loc_contents (local_lock_map (loc_set ctx x r)) = (loc_contents (local_lock_map ctx))(loc_res_id (locs ctx x) \<mapsto> r\<lparr>nxt := 0\<rparr>)"
proof -
  note p = ll.store_put[OF loc_repD(2)[OF rep] x, of r]
  have k: "loc_res_id r = loc_res_id (locs ctx x)" "nxt r = nxt (locs ctx x)" "loc_idx r = x"
    using r loc_repD(3)[OF rep x] by (simp_all add: same_links_def)
  show "loc_rep (local_lock_map (loc_set ctx x r)) fl L"
    using p(2)[OF k(1,2)] loc_repD(1,3)[OF rep] k(3) by (simp add: loc_rep_def loc_set_def)
  show "loc_contents (local_lock_map (loc_set ctx x r)) = (loc_contents (local_lock_map ctx))(loc_res_id (locs ctx x) \<mapsto> r\<lparr>nxt := 0\<rparr>)"
    using p(3)[OF k(1,2)] k(1) by (simp add: loc_set_def)
qed

subsection \<open>Finding or creating a resource\<close>

definition fresh_local :: "uint32 \<Rightarrow> drid_t \<Rightarrow> drc_local_lock_res_t" where
  "fresh_local x k = \<lparr>nxt = 0, loc_idx = x, loc_res_id = k, is_owner = False, is_locked = False, loc_count = 0,
     loc_lock = False, loc_lockc = False, latch_stat = idle_latch\<rparr>"

lemma create_local_full:
  assumes "loc_rep (local_lock_map ctx) [] L"
  shows "drc_create_local_lock_res ctx k = Some (None, ctx)"
  using ll.store_full[OF loc_repD(2)[OF assms]] by (simp add: drc_create_local_lock_res_def)

lemma create_local_spec:
  assumes rep: "loc_rep (local_lock_map ctx) (x # fl) L" and new: "loc_contents (local_lock_map ctx) k = None"
  shows "\<exists>m'. drc_create_local_lock_res ctx k = Some (Some x, ctx\<lparr>local_lock_map := m'\<rparr>) \<and> loc_rep m' fl (insert x L) \<and>
           bucket_num m' = bucket_num (local_lock_map ctx) \<and> loc_contents m' = (loc_contents (local_lock_map ctx))(k \<mapsto> fresh_local x k)"
proof -
  define m where "m = local_lock_map ctx"
  let ?h = "lock_hash (bucket_num m)"
  define r where "r = (item m x)\<lparr>loc_idx := x, loc_res_id := k, is_locked := False, is_owner := False,
                       loc_count := 0, loc_lock := False, loc_lockc := False, latch_stat := idle_latch, nxt := CT_INVALID_ID32\<rparr>"
  note st = loc_repD(2)[OF rep[folded m_def]]
  have k: "loc_res_id r = k" "r\<lparr>nxt := 0\<rparr> = fresh_local x k" by (simp_all add: r_def fresh_local_def)
  have nw: "contents ?h m (loc_res_id r) = None" using new by (simp add: m_def k)
  note c = ll.store_create[OF st nw, unfolded k]
  obtain n bkt where nb: "drc_res_map_add (buckets m (?h k)) x = (n, bkt)" by fastforce
  define p where "p = (res_pool m)\<lparr>free_list := nxt (item m x), used_num := used_num (res_pool m) + 1\<rparr>"
  define m' where "m' = m\<lparr>res_pool := p\<lparr>items := (items p)(x := r\<lparr>nxt := n\<rparr>)\<rparr>, buckets := (buckets m)(?h k := bkt)\<rparr>"
  have d: "drc_res_pool_alloc_item (res_pool m) = Some (x, p)" "x < item_num p" "x \<notin> L" "stored loc_res_id ?h m' fl (insert x L)"
    "contents ?h m' = (contents ?h m)(k \<mapsto> fresh_local x k)"
    using c unfolding nb p_def[symmetric] m'_def by simp_all
  have b: "bucket_num m \<noteq> 0" by (rule loc_repD(1)[OF rep[folded m_def]])
  have x: "x \<noteq> CT_INVALID_ID32" using d(2) by (rule below_neq_invalid)
  have bk: "drc_get_res_map_bucket (m\<lparr>res_pool := p\<rparr>) (drid_bytes k) = Some (?h k)"
    using loc_bucket_eq[of "ctx\<lparr>local_lock_map := m\<lparr>res_pool := p\<rparr>\<rparr>" k] b by (simp add: loc_bucket_def)
  have px: "items p x = item m x" by (simp add: p_def)
  have "drc_create_local_lock_res ctx k = Some (Some x, ctx\<lparr>local_lock_map := m'\<rparr>)"
    using d(1,2) x b nb bk px by (simp add: drc_create_local_lock_res_def m_def[symmetric] m'_def r_def Let_def)
  moreover have "loc_rep m' fl (insert x L)"
    using d(4) b loc_repD(3)[OF rep[folded m_def]] d(3) unfolding loc_rep_def by (auto simp: m'_def p_def r_def)
  moreover have "bucket_num m' = bucket_num m" by (simp add: m'_def)
  ultimately show ?thesis using d(5) unfolding m_def by (intro exI[of _ m']) simp
qed

text \<open>The resource \<open>drc_get_local_resx\<close> returns, and what the map holds then.\<close>

lemma get_resx_spec:
  assumes rep: "loc_rep (local_lock_map ctx) fl L" and room: "fl \<noteq> [] \<or> loc_contents (local_lock_map ctx) k \<noteq> None"
  shows "\<exists>x ctx' fl' L'. drc_get_local_resx ctx k = Some (x, ctx') \<and> loc_rep (local_lock_map ctx') fl' L' \<and> x \<in> L' \<and>
           loc_res_id (locs ctx' x) = k \<and> master_ctx ctx' = master_ctx ctx \<and>
           bucket_num (local_lock_map ctx') = bucket_num (local_lock_map ctx) \<and>
           loc_contents (local_lock_map ctx') k = Some ((locs ctx' x)\<lparr>nxt := 0\<rparr>) \<and>
           loc_contents (local_lock_map ctx') = (loc_contents (local_lock_map ctx))(k \<mapsto>
             (case loc_contents (local_lock_map ctx) k of None \<Rightarrow> fresh_local x k | Some r \<Rightarrow> r))"
proof (rule loc_cases[OF rep, of k])
  assume n: "drc_get_local_resx_without_create ctx k = Some None" "loc_contents (local_lock_map ctx) k = None"
  obtain x fl' where fl: "fl = x # fl'" using room n(2) by (cases fl) auto
  from create_local_spec[OF rep[unfolded fl] n(2)] obtain m' where
    d: "drc_create_local_lock_res ctx k = Some (Some x, ctx\<lparr>local_lock_map := m'\<rparr>)" "loc_rep m' fl' (insert x L)"
      "bucket_num m' = bucket_num (local_lock_map ctx)" "loc_contents m' = (loc_contents (local_lock_map ctx))(k \<mapsto> fresh_local x k)" by blast
  obtain y where y: "y \<in> insert x L" "loc_res_id (item m' y) = k" "fresh_local x k = (item m' y)\<lparr>nxt := 0\<rparr>"
    using contents_Some[OF loc_repD(2)[OF d(2)], of k "fresh_local x k"] d(4) by auto
  have "loc_idx (fresh_local x k) = loc_idx (item m' y)" by (subst y(3)) simp
  then have yx: "y = x" using loc_repD(3)[OF d(2) y(1)] by (simp add: fresh_local_def)
  have "drc_get_local_resx ctx k = Some (x, ctx\<lparr>local_lock_map := m'\<rparr>)"
    using n(1) d(1) loc_bucket_eq[OF loc_repD(1)[OF rep]] by (simp add: drc_get_local_resx_def drc_get_local_resx_without_create_def)
  then show ?thesis using d y yx n(2)
    by (intro exI[of _ x] exI[of _ "ctx\<lparr>local_lock_map := m'\<rparr>"] exI[of _ fl'] exI[of _ "insert x L"]) simp
next
  fix x
  assume s: "drc_get_local_resx_without_create ctx k = Some (Some x)" "x \<in> L" "loc_res_id (locs ctx x) = k"
    "loc_contents (local_lock_map ctx) k = Some ((locs ctx x)\<lparr>nxt := 0\<rparr>)"
  have "drc_get_local_resx ctx k = Some (x, ctx)"
    using s(1) loc_bucket_eq[OF loc_repD(1)[OF rep]] by (simp add: drc_get_local_resx_def drc_get_local_resx_without_create_def)
  then show ?thesis using s rep
    by (intro exI[of _ x] exI[of _ ctx] exI[of _ fl] exI[of _ L]) (auto simp: fun_upd_idem)
qed

lemma get_resx_full:
  assumes "loc_rep (local_lock_map ctx) [] L" "loc_contents (local_lock_map ctx) k = None"
  shows "drc_get_local_resx ctx k = None"
proof (rule loc_cases[OF assms(1), of k])
  assume "drc_get_local_resx_without_create ctx k = Some None"
  then show ?thesis using loc_bucket_eq[OF loc_repD(1)[OF assms(1)]] create_local_full[OF assms(1)]
    by (simp add: drc_get_local_resx_def drc_get_local_resx_without_create_def)
qed (use assms(2) in auto)

section \<open>Recycling a local lock\<close>

lemma release_local_spec:
  assumes rep: "loc_rep (local_lock_map ctx) fl L"
  shows "\<exists>ctx' fl' L'. drc_release_local_lock_res_by_id ctx k = Some ctx' \<and> loc_rep (local_lock_map ctx') fl' L' \<and>
           master_ctx ctx' = master_ctx ctx \<and> loc_contents (local_lock_map ctx') = (loc_contents (local_lock_map ctx))(k := None)"
proof (rule loc_cases[OF rep, of k])
  assume "drc_get_local_resx_without_create ctx k = Some None" "loc_contents (local_lock_map ctx) k = None"
  then show ?thesis using rep loc_bucket_eq[OF loc_repD(1)[OF rep]]
    by (intro exI[of _ ctx] exI[of _ fl] exI[of _ L]) (simp add: drc_release_local_lock_res_by_id_def fun_upd_idem)
next
  fix x
  assume s: "drc_get_local_resx_without_create ctx k = Some (Some x)" "x \<in> L" "loc_res_id (locs ctx x) = k"
  define m where "m = local_lock_map ctx"
  let ?h = "lock_hash (bucket_num m)"
  from ll.store_remove[OF loc_repD(2)[OF rep] s(2), unfolded s(3), folded m_def] obtain m1 where
    d: "drc_res_map_remove m (?h k) k = Some m1" "bucket_num m1 = bucket_num m" "x < item_num (res_pool m1)" "x \<notin> set fl"
      "\<forall>y. (item m1 y)\<lparr>nxt := 0\<rparr> = (item m y)\<lparr>nxt := 0\<rparr>" "stored loc_res_id ?h m1 fl (L - {x})" "contents ?h m1 = (contents ?h m)(k := None)"
    by (elim exE conjE) (rule that)
  from ll.store_free[OF d(6) _ d(4,3), of zero_local_res] obtain p where
    f: "drc_res_pool_free_item ((res_pool m1)\<lparr>items := (items (res_pool m1))(x := zero_local_res)\<rparr>) x = Some p"
      "stored loc_res_id ?h (m1\<lparr>res_pool := p\<rparr>) (x # fl) (L - {x})" "contents ?h (m1\<lparr>res_pool := p\<rparr>) = contents ?h m1" by auto
  have i: "loc_idx (item m1 y) = loc_idx (item m y)" for y
  proof -
    have "loc_idx ((item m1 y)\<lparr>nxt := 0\<rparr>) = loc_idx ((item m y)\<lparr>nxt := 0\<rparr>)" using d(5) by simp
    then show ?thesis by simp
  qed
  have it: "items p y = item m1 y" if "y \<noteq> x" for y
    using f(1) d(3) that by (auto simp: drc_res_pool_free_item_def bind_eq_Some_conv split: if_splits)
  have "loc_rep (m1\<lparr>res_pool := p\<rparr>) (x # fl) (L - {x})"
    using f(2) d(2) loc_repD(1,3)[OF rep] it i by (simp add: loc_rep_def m_def)
  moreover have "loc_idx (item m1 x) = x" using i loc_repD(3)[OF rep s(2)] by (simp add: m_def)
  moreover have "drc_release_local_lock_res_by_id ctx k = Some (ctx\<lparr>local_lock_map := m1\<lparr>res_pool := p\<rparr>\<rparr>)"
    using d(1,3) f(1) s(1) \<open>loc_idx (item m1 x) = x\<close> loc_bucket_eq[OF loc_repD(1)[OF rep]]
    by (simp add: drc_release_local_lock_res_by_id_def drc_release_local_lock_res_def m_def loc_set_def)
  ultimately show ?thesis using f(3) d(2,7)
    by (intro exI[of _ "ctx\<lparr>local_lock_map := m1\<lparr>res_pool := p\<rparr>\<rparr>"] exI[of _ "x # fl"] exI[of _ "L - {x}"]) (simp add: m_def)
qed

definition recyclable :: "drc_local_lock_res_t \<Rightarrow> bool" where
  "recyclable r \<longleftrightarrow> \<not> loc_lock r \<and> \<not> is_locked r \<and> stat (latch_stat r) = LATCH_STATUS_IDLE"

definition marked :: "drc_local_lock_res_t \<Rightarrow> drc_local_lock_res_t" where
  "marked r = r\<lparr>is_locked := True, latch_stat := (latch_stat r)\<lparr>stat := LATCH_STATUS_X\<rparr>\<rparr>"

lemma marked_nxt: "(marked r)\<lparr>nxt := n\<rparr> = marked (r\<lparr>nxt := n\<rparr>)"
  by (simp add: marked_def)

lemma unmark_marked:
  assumes "recyclable r"
  shows "(marked r)\<lparr>is_locked := False, latch_stat := (latch_stat (marked r))\<lparr>stat := LATCH_STATUS_IDLE\<rparr>\<rparr> = r" "\<not> loc_lock (marked r)"
proof -
  have "(latch_stat r)\<lparr>stat := 0\<rparr> = latch_stat r" using assms by (simp add: recyclable_def)
  then show "(marked r)\<lparr>is_locked := False, latch_stat := (latch_stat (marked r))\<lparr>stat := LATCH_STATUS_IDLE\<rparr>\<rparr> = r"
    using assms by (simp add: marked_def recyclable_def)
  show "\<not> loc_lock (marked r)" using assms by (simp add: marked_def recyclable_def)
qed

lemma mark_spec:
  assumes rep: "loc_rep (local_lock_map ctx) fl L" and go: "\<not> DRC_STOP_DLS_REQ_FOR_REFORMING e version k"
    and r: "loc_contents (local_lock_map ctx) k = Some r"
  shows "\<exists>ctx'. drc_lock_local_lock_res_by_id_for_recycle e ctx k version True =
             Some (if recyclable r then (CT_SUCCESS, True, ctx') else (CT_ERROR, True, ctx)) \<and>
           loc_rep (local_lock_map ctx') fl L \<and> master_ctx ctx' = master_ctx ctx \<and>
           loc_contents (local_lock_map ctx') = (loc_contents (local_lock_map ctx))(k \<mapsto> marked r)"
proof (rule loc_cases[OF rep, of k])
  fix x
  assume s: "drc_get_local_resx_without_create ctx k = Some (Some x)" "x \<in> L" "loc_res_id (locs ctx x) = k"
    "loc_contents (local_lock_map ctx) k = Some ((locs ctx x)\<lparr>nxt := 0\<rparr>)"
  note n = loc_repD(4)[OF rep s(2)]
  have rx: "r = (locs ctx x)\<lparr>nxt := 0\<rparr>" using r s(4) by simp
  have "drc_lock_local_lock_res_by_id_for_recycle e ctx k version True =
      Some (if recyclable r then (CT_SUCCESS, True, loc_set ctx x (marked (locs ctx x))) else (CT_ERROR, True, ctx))"
    using go s(1) n loc_set_same[of ctx x]
    by (auto simp: drc_lock_local_lock_res_by_id_for_recycle_def recyclable_def rx marked_def)
  moreover have "same_links (locs ctx x) (marked (locs ctx x))" by (simp add: same_links_def marked_def)
  ultimately show ?thesis using loc_set_rep[OF rep s(2), of "marked (locs ctx x)"] s(3) rx
    by (intro exI[of _ "loc_set ctx x (marked (locs ctx x))"]) (simp add: marked_nxt)
qed (use r in simp)

lemma unmark_spec:
  assumes rep: "loc_rep (local_lock_map ctx) fl L" and r: "loc_contents (local_lock_map ctx) k = Some (marked r)" "recyclable r"
  shows "\<exists>ctx'. drc_unlock_local_lock_res_by_id_for_recycle ctx k = Some (CT_SUCCESS, ctx') \<and>
           loc_rep (local_lock_map ctx') fl L \<and> master_ctx ctx' = master_ctx ctx \<and>
           loc_contents (local_lock_map ctx') = (loc_contents (local_lock_map ctx))(k \<mapsto> r)"
proof (rule loc_cases[OF rep, of k])
  fix x
  assume s: "drc_get_local_resx_without_create ctx k = Some (Some x)" "x \<in> L" "loc_res_id (locs ctx x) = k"
    "loc_contents (local_lock_map ctx) k = Some ((locs ctx x)\<lparr>nxt := 0\<rparr>)"
  note n = loc_repD(4)[OF rep s(2)]
  define r' where "r' = (locs ctx x)\<lparr>is_locked := False, latch_stat := (latch_stat (locs ctx x))\<lparr>stat := LATCH_STATUS_IDLE\<rparr>\<rparr>"
  have rx: "marked r = (locs ctx x)\<lparr>nxt := 0\<rparr>" using r s(4) by simp
  have "loc_lock (marked r) = loc_lock (locs ctx x)" "nxt (marked r) = 0" by (simp_all add: rx)
  then have l: "\<not> loc_lock (locs ctx x)" using unmark_marked(2)[OF r(2)] by simp
  have "r'\<lparr>nxt := 0\<rparr> = (marked r)\<lparr>is_locked := False, latch_stat := (latch_stat (marked r))\<lparr>stat := LATCH_STATUS_IDLE\<rparr>\<rparr>"
    by (simp add: rx r'_def)
  then have e: "r'\<lparr>nxt := 0\<rparr> = r" using unmark_marked(1)[OF r(2)] by simp
  have "drc_unlock_local_lock_res_by_id_for_recycle ctx k = Some (CT_SUCCESS, loc_set ctx x r')"
    using s(1) n l by (simp add: drc_unlock_local_lock_res_by_id_for_recycle_def r'_def)
  moreover have "same_links (locs ctx x) r'" by (simp add: same_links_def r'_def)
  ultimately show ?thesis using loc_set_rep[OF rep s(2), of r'] s(3) e
    by (intro exI[of _ "loc_set ctx x r'"]) simp
qed (use r in simp)

text \<open>
  While a lock is marked the other threads keep both halves of the context in order and leave the
  marked resource alone: every operation on it first finds it locked.
\<close>

definition recycle_rely :: "uint32 set \<Rightarrow> drc_local_ctx drc_world \<Rightarrow> drid_t \<Rightarrow> bool" where
  "recycle_rely S w k \<longleftrightarrow> (\<forall>n c. loc_ok (local_lock_map c) \<and> lock_ok S (master_ctx c) \<longrightarrow>
     loc_ok (local_lock_map (others w n c)) \<and> lock_ok S (master_ctx (others w n c)) \<and>
     loc_contents (local_lock_map (others w n c)) k = loc_contents (local_lock_map c) k)"

lemma recycle_master_part_ok:
  assumes "lock_ok S (master_ctx c)" and "self < CT_MAX_INSTANCES"
  shows "\<exists>ret c'. drc_recycle_master_part w self master c k version answer = Some (ret, c') \<and> lock_ok S (master_ctx c') \<and>
           local_lock_map c' = local_lock_map c"
proof -
  from recycle_lock_ok[OF assms, of "env w 1" k version] obtain ret d where
    "drc_recycle_dls_master (env w 1) (master_ctx c) k version self = Some (ret, d)" "lock_ok S d" by (auto simp: lock_guar_def)
  then show ?thesis using assms(1) by (auto simp: drc_recycle_master_part_def)
qed


section \<open>Concrete maps\<close>

lemma is_same_local_lock_iff: "is_same_local_lock k r \<longleftrightarrow> loc_res_id r = k"
  by (auto simp: is_same_local_lock_def intro: drid_t.equality)

lemma local_map_init:
  assumes "\<not> map_inited m" "\<not> pool_inited (res_pool m)" "4 \<le> isize" "0 < num" "num * 2 + 1 \<noteq> 0"
  shows "\<exists>m'. drc_res_map_init True True zero_local_res m num isize is_same_local_lock = Some (CT_SUCCESS, m') \<and>
           loc_rep m' (map of_nat [0..<unat num]) {} \<and> loc_contents m' = Map.empty"
proof -
  from map_init_inv[where cmp = is_same_local_lock and key = loc_res_id and h = "lock_hash (num * 2 + 1)" and zero = zero_local_res,
      OF assms(1-4) is_same_local_lock_iff] obtain m' where
    d: "drc_res_map_init True True zero_local_res m num isize is_same_local_lock = Some (CT_SUCCESS, m')"
      "map_inv loc_res_id (lock_hash (num * 2 + 1)) m' (map of_nat [0..<unat num]) (\<lambda>_. [])" "bucket_num m' = num * 2 + 1" by blast
  then have "loc_rep m' (map of_nat [0..<unat num]) {}" unfolding loc_rep_def stored_def using assms(5) by auto
  moreover have "loc_contents m' = Map.empty"
    using contents_Some[OF loc_repD(2)[OF calculation]] by (auto simp: fun_eq_iff) (metis option.exhaust)
  ultimately show ?thesis using d(1) by blast
qed

definition blank_local_map :: local_map_t where
  "blank_local_map = \<lparr>map_inited = False,
     res_pool = \<lparr>pool_inited = False, free_list = 0, item_num = 0, used_num = 0, item_size = 0, items = (\<lambda>_. zero_local_res), recycle_pos = 0\<rparr>,
     bucket_num = 0, buckets = (\<lambda>_. \<lparr>bkt_count = 0, bkt_first = 0\<rparr>), res_cmp_func = is_same_local_lock\<rparr>"

lemma demo_local_map: "\<exists>m. loc_rep m [0, 1] {} \<and> loc_contents m = Map.empty"
proof -
  have "map of_nat [0..<unat (2 :: uint32)] = [0, 1 :: uint32]" by (simp add: upt_rec)
  then show ?thesis using local_map_init[of blank_local_map 64 2] by (auto simp: blank_local_map_def)
qed

definition demo_local_world :: "drc_local_ctx drc_world" where
  "demo_local_world = \<lparr>env = (\<lambda>_. demo_env), others = (\<lambda>_ c. c), inval_readonly = (\<lambda>_ _ _ _. CT_SUCCESS), inval_owner = (\<lambda>_ _ _. CT_SUCCESS)\<rparr>"

lemma demo_local_ctx:
  "\<exists>x (ctx :: drc_local_ctx) fl L. loc_rep (local_lock_map ctx) fl L \<and> master_ctx ctx = demo_lctx \<and> loc_contents (local_lock_map ctx) demo_lid = Some (fresh_local x demo_lid)"
proof -
  obtain m where m: "loc_rep m [0, 1] {}" "loc_contents m = Map.empty" using demo_local_map by blast
  let ?c = "\<lparr>master_ctx = demo_lctx, local_lock_map = m\<rparr>"
  have r: "loc_rep (local_lock_map ?c) [0, 1] {}" using m(1) by simp
  have rm: "[0, 1 :: uint32] \<noteq> []" by simp
  have e: "loc_contents (local_lock_map ?c) demo_lid = None" using m(2) by simp
  from get_resx_spec[OF r disjI1[OF rm], of demo_lid, unfolded e option.case] obtain x and c' :: drc_local_ctx and fl' L' where
    "loc_rep (local_lock_map c') fl' L'" "master_ctx c' = master_ctx ?c"
    "loc_contents (local_lock_map c') = (loc_contents (local_lock_map ?c))(demo_lid \<mapsto> fresh_local x demo_lid)" by (elim exE conjE) (rule that)
  then show ?thesis by (intro exI[of _ x] exI[of _ c'] exI[of _ fl'] exI[of _ L']) simp
qed


text \<open>
  C32: The state of a local lock is read back as it was set: setting creates the resource when
  there is none, reading then returns the two flags and changes nothing, and no other local lock
  is affected.
\<close>

theorem local_stat_roundtrip:
  assumes "loc_rep (local_lock_map ctx) fl L" and "fl \<noteq> [] \<or> loc_contents (local_lock_map ctx) k \<noteq> None"
  shows "\<exists>ctx'. drc_set_local_lock_stat ctx k locked owner = Some ctx' \<and> loc_ok (local_lock_map ctx') \<and>
    drc_get_local_lock_stat ctx' k = Some ((locked, owner), ctx') \<and>
    (\<forall>j. j \<noteq> k \<longrightarrow> loc_contents (local_lock_map ctx') j = loc_contents (local_lock_map ctx) j)"
proof -
  from get_resx_spec[OF assms] obtain x c1 fl1 L1 v where
    g: "drc_get_local_resx ctx k = Some (x, c1)" "loc_rep (local_lock_map c1) fl1 L1" "x \<in> L1" "loc_res_id (locs c1 x) = k"
      "loc_contents (local_lock_map c1) = (loc_contents (local_lock_map ctx))(k \<mapsto> v)" by (elim exE conjE) (rule that)
  define r where "r = (locs c1 x)\<lparr>is_locked := locked, is_owner := owner\<rparr>"
  note n = loc_repD(4)[OF g(2,3)]
  have s: "same_links (locs c1 x) r" by (simp add: same_links_def r_def)
  note c2 = loc_set_rep[OF g(2,3) s]
  have "drc_get_local_resx_without_create (loc_set c1 x r) k = Some (Some x)"
  proof (rule loc_cases[OF c2(1), of k])
    fix y
    assume a: "drc_get_local_resx_without_create (loc_set c1 x r) k = Some (Some y)" "y \<in> L1" "loc_res_id (locs (loc_set c1 x r) y) = k"
    have kx: "loc_res_id (locs (loc_set c1 x r) x) = k" using g(4) by (simp add: r_def)
    have "y = x" by (rule storedD(4)[OF loc_repD(2)[OF c2(1)] a(2) g(3)]) (simp only: a(3) kx)
    then show ?thesis using a(1) by (simp only:)
  qed (use c2(2) g(4) in auto)
  then have "drc_get_local_resx (loc_set c1 x r) k = Some (x, loc_set c1 x r)"
    using loc_bucket_eq[OF loc_repD(1)[OF c2(1)]] by (simp add: drc_get_local_resx_def drc_get_local_resx_without_create_def)
  then have "drc_get_local_lock_stat (loc_set c1 x r) k = Some ((locked, owner), loc_set c1 x r)"
    using n by (simp add: drc_get_local_lock_stat_def r_def)
  moreover have "drc_set_local_lock_stat ctx k locked owner = Some (loc_set c1 x r)"
    using g(1) n by (simp add: drc_set_local_lock_stat_def r_def)
  moreover have "loc_ok (local_lock_map (loc_set c1 x r))" using c2(1) unfolding loc_ok_def by blast
  moreover have "\<forall>j. j \<noteq> k \<longrightarrow> loc_contents (local_lock_map (loc_set c1 x r)) j = loc_contents (local_lock_map ctx) j"
    unfolding c2(2) g(4,5) by simp
  ultimately show ?thesis by (intro exI[of _ "loc_set c1 x r"]) simp
qed

theorem local_stat_roundtrip_witness:
  "\<exists>ctx ctx'. drc_set_local_lock_stat ctx demo_lid True False = Some ctx' \<and>
     drc_get_local_lock_stat ctx' demo_lid = Some ((True, False), ctx')"
proof -
  obtain m where m: "loc_rep m [0, 1] {}" using demo_local_map by blast
  let ?c = "\<lparr>master_ctx = demo_lctx, local_lock_map = m\<rparr>"
  have "loc_rep (local_lock_map ?c) [0, 1] {}" using m(1) by simp
  from local_stat_roundtrip[OF this, of demo_lid True False] obtain c' where
    "drc_set_local_lock_stat ?c demo_lid True False = Some c'" "drc_get_local_lock_stat c' demo_lid = Some ((True, False), c')" by auto
  then show ?thesis by (intro exI[of _ ?c] exI[of _ c']) simp
qed

end
