(* ===== verification/Dls_Lock.thy ===== *)
theory Dls_Lock
  imports Drc_Local_Props
begin

text \<open>
  The lock service (\<open>dtc_dls.c\<close>): how a session gets a distributed lock from its master, how the
  master asks the owners to release it, and how an owner does so. The context is that of the local
  locks, the master's resources and the local map.

  A message exchange with another instance is \<open>dls_peer w i cmd\<close>: from the context when the message is
  sent it gives the answer and the context when the answer is there, since other threads run on in
  between. What they do in the other windows of a call is \<open>dls_others w n\<close>. The spin lock of a local
  resource is taken as soon as it is free, so a window ends when the caller has it.
\<close>

section \<open>Data\<close>

text \<open>\<open>status_t\<close> and the two error codes of the service that travel in its place.\<close>

datatype dls_ret = DlsRet status_t | ERR_DLS_LOCK_TIMEOUT | ERR_DLS_INVALID_CMD

abbreviation DLS_OK :: dls_ret where "DLS_OK \<equiv> DlsRet CT_SUCCESS"
abbreviation DLS_ERROR :: dls_ret where "DLS_ERROR \<equiv> DlsRet CT_ERROR"

datatype dls_cmd =
  MES_CMD_REQUEST_LOCK | MES_CMD_REQUEST_LATCH_S | MES_CMD_REQUEST_LATCH_X | MES_CMD_TRY_REQUEST_LOCK
| MES_CMD_RELEASE_LOCK | MES_CMD_TRY_RELEASE_LOCK | MES_CMD_CLEAN_GRANTED_MAP | MES_CMD_OTHER

record msg_lock_req_t =
  msg_size_ok :: bool
  msg_cmd :: dls_cmd
  msg_src_inst :: uint8
  msg_src_sid :: uint16
  msg_rsn :: uint32
  msg_start_time :: date_t
  msg_lock_id :: drid_t
  msg_req_version :: uint64
  msg_req_mode :: uint8
  msg_release_ticks :: uint32

text \<open>What an exchange ends with: no answer, an error message, or an acknowledgement with status and version.\<close>

datatype dls_answer = SendFailed | RecvFailed | ErrorMsg | LockAck dls_ret uint64

record dls_conf =
  self_id :: uint8
  session_id :: uint16
  part_master :: "uint16 \<Rightarrow> uint8"
  inst_count :: nat

text \<open>What the calls of the owner's handler that reach into the data dictionary return.\<close>

record dls_dict =
  dc_opens :: bool
  dc_table_lock :: status_t
  dc_entity_null :: bool
  dc_btree :: "(bool \<times> bool) option" \<comment> \<open>whether the tree is splitting, and whether its structure version changed\<close>

record dls_world =
  dls_drc :: "drc_lock_ctx drc_world"
  dls_env :: "nat \<Rightarrow> drc_env"
  dls_others :: "nat \<Rightarrow> drc_local_ctx \<Rightarrow> drc_local_ctx"
  dls_peer :: "uint8 \<Rightarrow> dls_cmd \<Rightarrow> drc_local_ctx \<Rightarrow> dls_answer \<times> drc_local_ctx"
  dls_rsn :: uint32
  dls_stack :: drc_req_info_t \<comment> \<open>the memory a request is built in\<close>
  dls_dc :: dls_dict

abbreviation (input) DR_TYPE_INVALID :: uint16 where "DR_TYPE_INVALID \<equiv> 0"
abbreviation (input) DR_TYPE_BTREE_LATCH :: uint16 where "DR_TYPE_BTREE_LATCH \<equiv> 16"
abbreviation (input) DR_TYPE_BRTEE_PART_LATCH :: uint16 where "DR_TYPE_BRTEE_PART_LATCH \<equiv> 17"
abbreviation (input) DR_TYPE_SHUTDOWN :: uint16 where "DR_TYPE_SHUTDOWN \<equiv> 25"
abbreviation (input) DRC_LOCK_MODE_MAX :: uint8 where "DRC_LOCK_MODE_MAX \<equiv> 3"

section \<open>Messages\<close>

definition dls_request_msg :: "drc_env \<Rightarrow> drid_t \<Rightarrow> dls_answer \<Rightarrow> dls_ret" where
  "dls_request_msg e lock_id answer =
     (case answer of
        SendFailed \<Rightarrow> DLS_ERROR
      | RecvFailed \<Rightarrow> DLS_ERROR
      | ErrorMsg \<Rightarrow> DLS_OK
      | LockAck lock_status req_version_ack \<Rightarrow>
          if DRC_STOP_DLS_REQ_FOR_REFORMING e req_version_ack lock_id then DLS_ERROR else lock_status)"

text \<open>The reading of the guard is the one after the exchange with instance \<open>dst\<close>.\<close>

definition dls_request_lock_msg ::
  "dls_world \<Rightarrow> drc_local_ctx \<Rightarrow> drid_t \<Rightarrow> uint8 \<Rightarrow> dls_cmd \<Rightarrow> dls_ret \<times> drc_local_ctx" where
  "dls_request_lock_msg w ctx lock_id dst cmd =
     (let (answer, ctx) = dls_peer w dst cmd ctx in (dls_request_msg (dls_env w (2 + unat dst)) lock_id answer, ctx))"

section \<open>The owner releases\<close>

text \<open>The first component tells whether the change of the tree is broadcast.\<close>

definition dls_broadcast_btree_split :: "dls_dict \<Rightarrow> drid_t \<Rightarrow> uint8 \<Rightarrow> bool \<times> status_t" where
  "dls_broadcast_btree_split dc lock_id rmode =
     (if rmode = DRC_LOCK_SHARE \<or> key4 lock_id \<noteq> 0 then (False, CT_SUCCESS)
      else if drid_type lock_id \<noteq> DR_TYPE_BTREE_LATCH \<and> drid_type lock_id \<noteq> DR_TYPE_BRTEE_PART_LATCH then (False, CT_SUCCESS)
      else if \<not> dc_opens dc \<or> dc_entity_null dc then (False, CT_SUCCESS)
      else case dc_btree dc of
          None \<Rightarrow> (False, CT_SUCCESS)
        | Some (is_splitting, changed) \<Rightarrow> if is_splitting then (False, CT_ERROR) else (changed, CT_SUCCESS))"

definition dls_process_unlock_table :: "dls_world \<Rightarrow> drc_local_ctx \<Rightarrow> drid_t \<Rightarrow> uint8 \<Rightarrow> (status_t \<times> drc_local_ctx) option" where
  "dls_process_unlock_table w ctx lock_id rmode =
     (if \<not> dc_opens (dls_dc w)
      then do { found \<leftarrow> drc_get_local_resx_without_create ctx lock_id;
                Some (if found = None then CT_SUCCESS else CT_ERROR, ctx) }
      else if dc_table_lock (dls_dc w) \<noteq> CT_SUCCESS then Some (dc_table_lock (dls_dc w), ctx)
      else do {
        let ctx = dls_others w 0 ctx;
        found \<leftarrow> drc_get_local_resx_without_create ctx lock_id;
        case found of
          None \<Rightarrow> Some (CT_SUCCESS, ctx)
        | Some x \<Rightarrow>
            do { ctx \<leftarrow> drc_lock_local_resx ctx x;
                 latch \<leftarrow> drc_get_local_latch_statx ctx x;
                 knl_panic (lock_mode latch \<noteq> DRC_LOCK_NULL);
                 new_mode \<leftarrow> (if rmode = DRC_LOCK_EXCLUSIVE then Some DRC_LOCK_NULL
                   else do { knl_panic (rmode = DRC_LOCK_SHARE); knl_panic (lock_mode latch = DRC_LOCK_EXCLUSIVE); Some DRC_LOCK_SHARE });
                 ctx \<leftarrow> loc_update ctx x (\<lambda>r. r\<lparr>latch_stat := latch\<lparr>lock_mode := new_mode\<rparr>\<rparr>);
                 ctx \<leftarrow> drc_unlock_local_resx ctx x;
                 Some (CT_SUCCESS, ctx) } })"

text \<open>What a release does to the resource.\<close>

definition dls_release_res :: "uint8 \<Rightarrow> drc_local_lock_res_t \<Rightarrow> drc_local_lock_res_t" where
  "dls_release_res rmode r =
     (if rmode = DRC_LOCK_EXCLUSIVE
      then drc_set_local_lock_statx (r\<lparr>latch_stat := (latch_stat r)\<lparr>lock_mode := DRC_LOCK_NULL\<rparr>\<rparr>) False False
      else drc_set_local_lock_statx (r\<lparr>latch_stat := (latch_stat r)\<lparr>lock_mode := DRC_LOCK_SHARE\<rparr>\<rparr>) False True)"

text \<open>One round of the release loop: the call ends, or it tries again with the number of rounds it found the lock taken.\<close>

datatype release_step = ReleaseDone status_t drc_local_ctx | ReleaseAgain uint32 drc_local_ctx

definition dls_release_iter ::
  "drc_env \<Rightarrow> dls_dict \<Rightarrow> drc_local_ctx \<Rightarrow> drid_t \<Rightarrow> uint8 \<Rightarrow> uint64 \<Rightarrow> uint32 \<Rightarrow> uint32 \<Rightarrow> release_step option" where
  "dls_release_iter e dc ctx lock_id rmode version ticks tries =
     do { found \<leftarrow> drc_get_local_resx_without_create ctx lock_id;
          case found of
            None \<Rightarrow> Some (ReleaseDone CT_SUCCESS ctx)
          | Some x \<Rightarrow>
              do { ctx \<leftarrow> drc_lock_local_resx ctx x;
                   r \<leftarrow> loc_get ctx x;
                   let latch = latch_stat r;
                   unlocked \<leftarrow> drc_unlock_local_resx ctx x;
                   if is_locked r \<and> drid_type lock_id = DR_TYPE_SHUTDOWN then Some (ReleaseDone CT_ERROR unlocked)
                   else if ticks \<noteq> CT_INVALID_ID32 \<and> tries \<ge> ticks then Some (ReleaseDone CT_ERROR unlocked)
                   else if is_locked r then Some (ReleaseAgain (tries + 1) unlocked)
                   else if DRC_STOP_DLS_REQ_FOR_REFORMING e version lock_id then Some (ReleaseDone CT_ERROR unlocked)
                   else if stat latch = LATCH_STATUS_IDLE \<or> stat latch = LATCH_STATUS_IX \<and> shared_count latch = 0 then
                     (if lock_mode latch = DRC_LOCK_NULL then Some (ReleaseDone CT_ERROR unlocked)
                      else if snd (dls_broadcast_btree_split dc lock_id rmode) \<noteq> CT_SUCCESS then Some (ReleaseDone CT_ERROR unlocked)
                      else do { knl_panic (rmode = DRC_LOCK_EXCLUSIVE \<or> rmode = DRC_LOCK_SHARE);
                                ctx \<leftarrow> loc_put ctx x (dls_release_res rmode r);
                                ctx \<leftarrow> drc_unlock_local_resx ctx x;
                                Some (ReleaseDone CT_SUCCESS ctx) })
                   else Some (ReleaseAgain tries unlocked) } }"

partial_function (option) dls_release_loop ::
  "dls_world \<Rightarrow> nat \<Rightarrow> drc_local_ctx \<Rightarrow> drid_t \<Rightarrow> uint8 \<Rightarrow> uint64 \<Rightarrow> uint32 \<Rightarrow> uint32 \<Rightarrow> (status_t \<times> drc_local_ctx) option" where
  "dls_release_loop w n ctx lock_id rmode version ticks tries =
     do { step \<leftarrow> dls_release_iter (dls_env w n) (dls_dc w) (dls_others w n ctx) lock_id rmode version ticks tries;
          case step of
            ReleaseDone ret ctx \<Rightarrow> Some (ret, ctx)
          | ReleaseAgain tries ctx \<Rightarrow> dls_release_loop w (Suc n) ctx lock_id rmode version ticks tries }"

definition dls_process_release_ownership ::
  "dls_world \<Rightarrow> drc_local_ctx \<Rightarrow> drid_t \<Rightarrow> uint8 \<Rightarrow> uint64 \<Rightarrow> uint32 \<Rightarrow> (status_t \<times> drc_local_ctx) option" where
  "dls_process_release_ownership w ctx lock_id rmode version ticks =
     (if DRC_STOP_DLS_REQ_FOR_REFORMING (dls_env w 0) version lock_id then Some (CT_ERROR, ctx)
      else if rmode \<noteq> DRC_LOCK_EXCLUSIVE \<and> rmode \<noteq> DRC_LOCK_SHARE then Some (CT_ERROR, ctx)
      else if drid_type lock_id = DR_TYPE_TABLE then dls_process_unlock_table w ctx lock_id rmode
      else dls_release_loop w 1 ctx lock_id rmode version ticks 0)"

text \<open>The reads of \<open>is_locked\<close>: up to three, until one finds the lock free; the result is the number of reads.\<close>

fun dls_poll_locked :: "dls_world \<Rightarrow> nat \<Rightarrow> nat \<Rightarrow> drc_local_ctx \<Rightarrow> uint32 \<Rightarrow> (nat \<times> drc_local_ctx) option" where
  "dls_poll_locked w 0 tries ctx x = Some (tries, ctx)"
| "dls_poll_locked w (Suc k) tries ctx x =
     do { r \<leftarrow> loc_get ctx x;
          let ctx = dls_others w tries ctx;
          if is_locked r then dls_poll_locked w k (Suc tries) ctx x else Some (Suc tries, ctx) }"

definition dls_process_try_release_ownership ::
  "dls_world \<Rightarrow> drc_local_ctx \<Rightarrow> drid_t \<Rightarrow> uint8 \<Rightarrow> uint64 \<Rightarrow> (dls_ret \<times> drc_local_ctx) option" where
  "dls_process_try_release_ownership w ctx lock_id rmode version =
     (if DRC_STOP_DLS_REQ_FOR_REFORMING (dls_env w 0) version lock_id then Some (DLS_ERROR, ctx)
      else if rmode \<noteq> DRC_LOCK_EXCLUSIVE \<and> rmode \<noteq> DRC_LOCK_SHARE then Some (DLS_ERROR, ctx)
      else if drid_type lock_id = DR_TYPE_TABLE
      then do { (ret, ctx) \<leftarrow> dls_process_unlock_table w ctx lock_id rmode; Some (DlsRet ret, ctx) }
      else do {
        (x, ctx) \<leftarrow> drc_get_local_resx ctx lock_id;
        (tries, ctx) \<leftarrow> dls_poll_locked w 3 0 ctx x;
        if tries \<ge> 3 then Some (ERR_DLS_LOCK_TIMEOUT, ctx)
        else do {
          ctx \<leftarrow> drc_lock_local_resx ctx x;
          r \<leftarrow> loc_get ctx x;
          if lock_mode (latch_stat r) = DRC_LOCK_NULL
          then do { ctx \<leftarrow> drc_unlock_local_resx ctx x; Some (DLS_ERROR, ctx) }
          else do {
            knl_panic (rmode = DRC_LOCK_EXCLUSIVE \<or> rmode = DRC_LOCK_SHARE \<and> lock_mode (latch_stat r) = DRC_LOCK_EXCLUSIVE);
            ctx \<leftarrow> loc_put ctx x (dls_release_res rmode r);
            ctx \<leftarrow> drc_unlock_local_resx ctx x;
            Some (DLS_OK, ctx) } } })"

section \<open>The master asks the owners\<close>

definition dls_req_of_msg :: "dls_world \<Rightarrow> msg_lock_req_t \<Rightarrow> drc_req_info_t" where
  "dls_req_of_msg w msg =
     (dls_stack w)\<lparr>inst_id := msg_src_inst msg, inst_sid := msg_src_sid msg, req_mode := msg_req_mode msg,
       curr_mode := DRC_LOCK_MODE_MAX, rsn := msg_rsn msg, req_time := msg_start_time msg,
       req_version := msg_req_version msg, req_lsn := CT_INVALID_ID64, release_timeout_ticks := msg_release_ticks msg\<rparr>"

definition dls_cancel :: "drc_local_ctx \<Rightarrow> uint8 \<Rightarrow> drid_t \<Rightarrow> drc_local_ctx option" where
  "dls_cancel ctx inst lock_id =
     do { (_, c) \<leftarrow> drc_cancel_lock_owner_request (master_ctx ctx) inst lock_id; Some (ctx\<lparr>master_ctx := c\<rparr>) }"

text \<open>The first owner in the bitmap among the instances \<open>i\<close>, \<open>i + 1\<close>, ...\<close>

fun dls_first_owner :: "nat \<Rightarrow> uint8 \<Rightarrow> uint64 \<Rightarrow> uint8 option" where
  "dls_first_owner 0 i owners = Some CT_INVALID_ID8"
| "dls_first_owner (Suc k) i owners =
     do { ex \<leftarrow> drc_bitmap64_exist owners i; if ex then Some i else dls_first_owner k (i + 1) owners }"

text \<open>Asking one owner, the master itself included.\<close>

definition dls_ask_release ::
  "dls_world \<Rightarrow> uint8 \<Rightarrow> drc_local_ctx \<Rightarrow> drid_t \<Rightarrow> uint8 \<Rightarrow> uint8 \<Rightarrow> uint64 \<Rightarrow> uint32 \<Rightarrow> (dls_ret \<times> drc_local_ctx) option" where
  "dls_ask_release w self ctx lock_id owner rmode version ticks =
     (if self = owner
      then do { (ret, ctx) \<leftarrow> dls_process_release_ownership w ctx lock_id rmode version ticks; Some (DlsRet ret, ctx) }
      else Some (dls_request_lock_msg w ctx lock_id owner MES_CMD_RELEASE_LOCK))"

definition dls_process_ask_master_for_lock ::
  "dls_world \<Rightarrow> dls_conf \<Rightarrow> drc_local_ctx \<Rightarrow> msg_lock_req_t \<Rightarrow> (dls_ret \<times> drc_local_ctx) option" where
  "dls_process_ask_master_for_lock w cf ctx msg =
     (let lock_id = msg_lock_id msg; version = msg_req_version msg; req = dls_req_of_msg w msg in
      if msg_req_mode msg \<noteq> DRC_LOCK_EXCLUSIVE \<or> msg_src_inst msg \<ge> CT_MAX_INSTANCES then Some (DLS_ERROR, ctx)
      else do {
        (ret, out, c) \<leftarrow> drc_request_lock_owner (dls_drc w) (master_ctx ctx) lock_id req \<lparr>is_granted = False, old_owner_map = 0\<rparr> version;
        let ctx = dls_others w 0 (ctx\<lparr>master_ctx := c\<rparr>);
        if ret \<noteq> CT_SUCCESS then Some (DlsRet ret, ctx)
        else if is_granted out then Some (DLS_OK, ctx)
        else do {
          already \<leftarrow> drc_bitmap64_exist (old_owner_map out) (inst_id req);
          if already then Some (DLS_OK, ctx)
          else do {
            owner \<leftarrow> dls_first_owner (inst_count cf) 0 (old_owner_map out);
            (ret, ctx) \<leftarrow> dls_ask_release w (self_id cf) ctx lock_id owner (msg_req_mode msg) version (msg_release_ticks msg);
            if ret = DLS_OK then Some (ret, ctx)
            else if DRC_STOP_DLS_REQ_FOR_REFORMING (dls_env w 1) version lock_id then Some (ret, ctx)
            else do { ctx \<leftarrow> dls_cancel ctx (inst_id req) lock_id; Some (ret, ctx) } } } })"

fun dls_ask_latch_owners ::
  "nat \<Rightarrow> uint8 \<Rightarrow> dls_world \<Rightarrow> uint8 \<Rightarrow> drc_local_ctx \<Rightarrow> drid_t \<Rightarrow> drc_req_info_t \<Rightarrow> uint64 \<Rightarrow> uint64
     \<Rightarrow> (dls_ret \<times> drc_local_ctx) option" where
  "dls_ask_latch_owners 0 i w self ctx lock_id req version owners = Some (DLS_OK, ctx)"
| "dls_ask_latch_owners (Suc k) i w self ctx lock_id req version owners =
     do { ex \<leftarrow> drc_bitmap64_exist owners i;
          if \<not> ex \<or> inst_id req = i then dls_ask_latch_owners k (i + 1) w self ctx lock_id req version owners
          else do {
            (ret, ctx) \<leftarrow> dls_ask_release w self ctx lock_id i (req_mode req) version (release_timeout_ticks req);
            if ret \<noteq> DLS_OK then
              (if DRC_STOP_DLS_REQ_FOR_REFORMING (dls_env w 1) version lock_id then Some (DLS_ERROR, ctx)
               else do { ctx \<leftarrow> dls_cancel ctx (inst_id req) lock_id; Some (ret, ctx) })
            else do {
              c \<leftarrow> (if req_mode req = DRC_LOCK_EXCLUSIVE then dls_clear_granted_map_for_inst (master_ctx ctx) lock_id i
                   else Some (master_ctx ctx));
              dls_ask_latch_owners k (i + 1) w self (ctx\<lparr>master_ctx := c\<rparr>) lock_id req version owners } } }"

definition dls_process_ask_master_for_latch ::
  "dls_world \<Rightarrow> dls_conf \<Rightarrow> drc_local_ctx \<Rightarrow> msg_lock_req_t \<Rightarrow> (dls_ret \<times> drc_local_ctx) option" where
  "dls_process_ask_master_for_latch w cf ctx msg =
     (let lock_id = msg_lock_id msg; version = msg_req_version msg; req = dls_req_of_msg w msg;
          rmode = (if msg_cmd msg = MES_CMD_REQUEST_LATCH_S then DRC_LOCK_SHARE else DRC_LOCK_EXCLUSIVE) in
      if msg_req_mode msg \<noteq> rmode \<or> msg_src_inst msg \<ge> CT_MAX_INSTANCES then Some (DLS_ERROR, ctx)
      else do {
        (ret, out, c) \<leftarrow> drc_request_lock_owner (dls_drc w) (master_ctx ctx) lock_id req \<lparr>is_granted = False, old_owner_map = 0\<rparr> version;
        let ctx = dls_others w 0 (ctx\<lparr>master_ctx := c\<rparr>);
        if ret \<noteq> CT_SUCCESS then Some (DlsRet ret, ctx)
        else if is_granted out then Some (DLS_OK, ctx)
        else dls_ask_latch_owners (inst_count cf) 0 w (self_id cf) ctx lock_id req version (old_owner_map out) })"

definition dls_process_try_ask_master_for_lock ::
  "dls_world \<Rightarrow> dls_conf \<Rightarrow> drc_local_ctx \<Rightarrow> msg_lock_req_t \<Rightarrow> (dls_ret \<times> drc_local_ctx) option" where
  "dls_process_try_ask_master_for_lock w cf ctx msg =
     (let lock_id = msg_lock_id msg; version = msg_req_version msg; req = dls_req_of_msg w msg in
      if msg_req_mode msg \<noteq> DRC_LOCK_EXCLUSIVE \<or> msg_src_inst msg \<ge> CT_MAX_INSTANCES then Some (DLS_ERROR, ctx)
      else do {
        (ret, out, c) \<leftarrow> drc_try_request_lock_owner (env (dls_drc w)) (master_ctx ctx) lock_id req \<lparr>is_granted = False, old_owner_map = 0\<rparr> version;
        let ctx = dls_others w 0 (ctx\<lparr>master_ctx := c\<rparr>);
        if ret \<noteq> CT_SUCCESS then Some (DlsRet ret, ctx)
        else if is_granted out then Some (DLS_OK, ctx)
        else do {
          already \<leftarrow> drc_bitmap64_exist (old_owner_map out) (inst_id req);
          if already then Some (DLS_OK, ctx)
          else do {
            owner \<leftarrow> dls_first_owner (inst_count cf) 0 (old_owner_map out);
            (ret, ctx) \<leftarrow> (if self_id cf = owner then dls_process_try_release_ownership w ctx lock_id (req_mode req) version
                         else Some (dls_request_lock_msg w ctx lock_id owner MES_CMD_TRY_RELEASE_LOCK));
            if ret = DLS_OK then Some (ret, ctx)
            else if DRC_STOP_DLS_REQ_FOR_REFORMING (dls_env w 1) version lock_id then Some (ret, ctx)
            else do { ctx \<leftarrow> dls_cancel ctx (inst_id req) lock_id; Some (ret, ctx) } } } })"

section \<open>The master's dispatcher\<close>

definition dls_process_claim_ownership :: "dls_world \<Rightarrow> drc_local_ctx \<Rightarrow> msg_lock_req_t \<Rightarrow> (dls_ret \<times> drc_local_ctx) option" where
  "dls_process_claim_ownership w ctx msg =
     do { (ret, c) \<leftarrow> drc_claim_lock_owner (dls_env w 1) (master_ctx ctx) (msg_lock_id msg)
            \<lparr>lk_new_id = msg_src_inst msg, lk_claim_mode = msg_req_mode msg, lk_claim_sid = msg_src_sid msg\<rparr> (msg_req_version msg) False;
          Some (DlsRet ret, ctx\<lparr>master_ctx := c\<rparr>) }"

definition dls_clean_granted_map :: "drc_local_ctx \<Rightarrow> drid_t \<Rightarrow> uint8 \<Rightarrow> (status_t \<times> drc_local_ctx) option" where
  "dls_clean_granted_map ctx lock_id inst =
     do { _ \<leftarrow> lk_bucket (master_ctx ctx) lock_id;
          found \<leftarrow> lk_lookup (master_ctx ctx) lock_id;
          case found of
            None \<Rightarrow> Some (CT_SUCCESS, ctx)
          | Some x \<Rightarrow>
              do { r \<leftarrow> lk_get (master_ctx ctx) x;
                   g \<leftarrow> drc_bitmap64_clear (granted_map r) inst;
                   let r = r\<lparr>granted_map := g\<rparr>;
                   c \<leftarrow> lk_put (master_ctx ctx) x (if granted_map r = 0 then r\<lparr>lk_mode := DRC_LOCK_NULL\<rparr> else r);
                   Some (CT_SUCCESS, ctx\<lparr>master_ctx := c\<rparr>) } }"

definition dls_process_clean_granted_map :: "dls_world \<Rightarrow> drc_local_ctx \<Rightarrow> msg_lock_req_t \<Rightarrow> (status_t \<times> drc_local_ctx) option" where
  "dls_process_clean_granted_map w ctx msg =
     (if DRC_STOP_DLS_REQ_FOR_REFORMING (dls_env w 0) (msg_req_version msg) (msg_lock_id msg) then Some (CT_ERROR, ctx)
      else if msg_src_inst msg \<ge> CT_MAX_INSTANCES then Some (CT_ERROR, ctx)
      else dls_clean_granted_map ctx (msg_lock_id msg) (msg_src_inst msg))"

text \<open>The answer that is sent back, or none for a message of another size.\<close>

definition dls_process_lock_msg ::
  "dls_world \<Rightarrow> dls_conf \<Rightarrow> drc_local_ctx \<Rightarrow> msg_lock_req_t \<Rightarrow> ((dls_ret \<times> uint64) option \<times> drc_local_ctx) option" where
  "dls_process_lock_msg w cf ctx msg =
     (if \<not> msg_size_ok msg then Some (None, ctx)
      else do {
        (ret, claim, ctx) \<leftarrow> (case msg_cmd msg of
            MES_CMD_REQUEST_LOCK \<Rightarrow> do { (ret, ctx) \<leftarrow> dls_process_ask_master_for_lock w cf ctx msg; Some (ret, True, ctx) }
          | MES_CMD_REQUEST_LATCH_S \<Rightarrow> do { (ret, ctx) \<leftarrow> dls_process_ask_master_for_latch w cf ctx msg; Some (ret, True, ctx) }
          | MES_CMD_REQUEST_LATCH_X \<Rightarrow> do { (ret, ctx) \<leftarrow> dls_process_ask_master_for_latch w cf ctx msg; Some (ret, True, ctx) }
          | MES_CMD_TRY_REQUEST_LOCK \<Rightarrow> do { (ret, ctx) \<leftarrow> dls_process_try_ask_master_for_lock w cf ctx msg; Some (ret, True, ctx) }
          | MES_CMD_RELEASE_LOCK \<Rightarrow>
              do { (ret, ctx) \<leftarrow> dls_process_release_ownership w ctx (msg_lock_id msg) (msg_req_mode msg) (msg_req_version msg) (msg_release_ticks msg);
                   Some (DlsRet ret, False, ctx) }
          | MES_CMD_TRY_RELEASE_LOCK \<Rightarrow>
              do { (ret, ctx) \<leftarrow> dls_process_try_release_ownership w ctx (msg_lock_id msg) (msg_req_mode msg) (msg_req_version msg);
                   Some (ret, False, ctx) }
          | MES_CMD_CLEAN_GRANTED_MAP \<Rightarrow> do { (ret, ctx) \<leftarrow> dls_process_clean_granted_map w ctx msg; Some (DlsRet ret, False, ctx) }
          | MES_CMD_OTHER \<Rightarrow> Some (ERR_DLS_INVALID_CMD, False, ctx));
        (ret, ctx) \<leftarrow> (if claim \<and> ret = DLS_OK then dls_process_claim_ownership w ctx msg else Some (ret, ctx));
        Some (Some (ret, msg_req_version msg), ctx) })"

section \<open>The requester\<close>

fun dls_ask_owners ::
  "nat \<Rightarrow> uint8 \<Rightarrow> dls_world \<Rightarrow> uint8 \<Rightarrow> drc_local_ctx \<Rightarrow> drid_t \<Rightarrow> drc_req_info_t \<Rightarrow> uint64 \<Rightarrow> (dls_ret \<times> drc_local_ctx) option" where
  "dls_ask_owners 0 i w self ctx lock_id req owners = Some (DLS_OK, ctx)"
| "dls_ask_owners (Suc k) i w self ctx lock_id req owners =
     do { ex \<leftarrow> drc_bitmap64_exist owners i;
          if \<not> ex \<or> self = i then dls_ask_owners k (i + 1) w self ctx lock_id req owners
          else let (ret, ctx) = dls_request_lock_msg w ctx lock_id i MES_CMD_RELEASE_LOCK in
            if ret \<noteq> DLS_OK then do { ctx \<leftarrow> dls_cancel ctx self lock_id; Some (ret, ctx) }
            else do {
              c \<leftarrow> (if req_mode req = DRC_LOCK_EXCLUSIVE then dls_clear_granted_map_for_inst (master_ctx ctx) lock_id i
                   else Some (master_ctx ctx));
              dls_ask_owners k (i + 1) w self (ctx\<lparr>master_ctx := c\<rparr>) lock_id req owners } }"

text \<open>The claim of a requester that is the master, with its cancel when a reform stops it.\<close>

definition dls_claim_or_cancel ::
  "dls_world \<Rightarrow> uint8 \<Rightarrow> drc_local_ctx \<Rightarrow> drid_t \<Rightarrow> drc_req_info_t \<Rightarrow> uint64 \<Rightarrow> (dls_ret \<times> drc_local_ctx) option" where
  "dls_claim_or_cancel w self ctx lock_id req version =
     do { (ret, c) \<leftarrow> drc_claim_lock_owner (dls_env w 1) (master_ctx ctx) lock_id
            \<lparr>lk_new_id = inst_id req, lk_claim_mode = req_mode req, lk_claim_sid = inst_sid req\<rparr> version False;
          let ctx = ctx\<lparr>master_ctx := c\<rparr>;
          ctx \<leftarrow> (if ret \<noteq> CT_SUCCESS then dls_cancel ctx self lock_id else Some ctx);
          Some (DlsRet ret, ctx) }"

definition dls_request_lock ::
  "dls_world \<Rightarrow> dls_conf \<Rightarrow> drc_local_ctx \<Rightarrow> drid_t \<Rightarrow> drc_req_info_t \<Rightarrow> dls_cmd \<Rightarrow> (dls_ret \<times> drc_local_ctx) option" where
  "dls_request_lock w cf ctx lock_id req cmd =
     do { master_id \<leftarrow> drc_get_lock_master_id (part_master cf) lock_id;
          if master_id = self_id cf then do {
            (ret, out, c) \<leftarrow> drc_request_lock_owner (dls_drc w) (master_ctx ctx) lock_id req \<lparr>is_granted = False, old_owner_map = 0\<rparr> (req_version req);
            let ctx = dls_others w 0 (ctx\<lparr>master_ctx := c\<rparr>);
            if ret \<noteq> CT_SUCCESS then Some (DlsRet ret, ctx)
            else do {
              (ret, ctx) \<leftarrow> (if is_granted out then Some (DLS_OK, ctx)
                           else dls_ask_owners (inst_count cf) 0 w (self_id cf) ctx lock_id req (old_owner_map out));
              if ret \<noteq> DLS_OK then Some (ret, ctx)
              else dls_claim_or_cancel w (self_id cf) ctx lock_id req (req_version req) } }
          else Some (dls_request_lock_msg w ctx lock_id master_id cmd) }"

fun dls_try_ask_owners ::
  "nat \<Rightarrow> uint8 \<Rightarrow> dls_world \<Rightarrow> uint8 \<Rightarrow> drc_local_ctx \<Rightarrow> drid_t \<Rightarrow> uint64 \<Rightarrow> (dls_ret \<times> drc_local_ctx) option" where
  "dls_try_ask_owners 0 i w self ctx lock_id owners = Some (DLS_OK, ctx)"
| "dls_try_ask_owners (Suc k) i w self ctx lock_id owners =
     do { ex \<leftarrow> drc_bitmap64_exist owners i;
          if \<not> ex then dls_try_ask_owners k (i + 1) w self ctx lock_id owners
          else let (ret, ctx) = dls_request_lock_msg w ctx lock_id i MES_CMD_TRY_RELEASE_LOCK in
            if ret \<noteq> DLS_OK then do { ctx \<leftarrow> dls_cancel ctx self lock_id; Some (ret, ctx) }
            else dls_try_ask_owners k (i + 1) w self ctx lock_id owners }"

text \<open>The request a session builds for a mode.\<close>

definition dls_own_request :: "dls_world \<Rightarrow> dls_conf \<Rightarrow> uint8 \<Rightarrow> uint32 \<Rightarrow> drc_req_info_t" where
  "dls_own_request w cf rmode ticks =
     (dls_stack w)\<lparr>inst_id := self_id cf, inst_sid := session_id cf, req_mode := rmode, curr_mode := DRC_LOCK_MODE_MAX,
       rsn := dls_rsn w, req_time := knl_now (dls_env w 0), req_version := trigger_version (dls_env w 0),
       req_lsn := CT_INVALID_ID64, release_timeout_ticks := ticks\<rparr>"

definition dls_try_request_lock :: "dls_world \<Rightarrow> dls_conf \<Rightarrow> drc_local_ctx \<Rightarrow> drid_t \<Rightarrow> (dls_ret \<times> drc_local_ctx) option" where
  "dls_try_request_lock w cf ctx lock_id =
     (let version = trigger_version (dls_env w 0); req = dls_own_request w cf DRC_LOCK_EXCLUSIVE CT_INVALID_ID32; self = self_id cf in
      do { master_id \<leftarrow> drc_get_lock_master_id (part_master cf) lock_id;
           if master_id = self then do {
             (ret, out, c) \<leftarrow> drc_try_request_lock_owner (env (dls_drc w)) (master_ctx ctx) lock_id req \<lparr>is_granted = False, old_owner_map = 0\<rparr> version;
             let ctx = dls_others w 0 (ctx\<lparr>master_ctx := c\<rparr>);
             if ret \<noteq> CT_SUCCESS then Some (DlsRet ret, ctx)
             else do {
               own \<leftarrow> (if is_granted out then Some False else drc_bitmap64_exist (old_owner_map out) self);
               if own then do { ctx \<leftarrow> dls_cancel ctx self lock_id; Some (DLS_ERROR, ctx) }
               else do {
                 (ret, ctx) \<leftarrow> (if is_granted out then Some (DLS_OK, ctx)
                              else dls_try_ask_owners (inst_count cf) 0 w self ctx lock_id (old_owner_map out));
                 if ret \<noteq> DLS_OK then Some (ret, ctx)
                 else dls_claim_or_cancel w self ctx lock_id req version } } }
           else Some (dls_request_lock_msg w ctx lock_id master_id MES_CMD_TRY_REQUEST_LOCK) })"

definition dls_request_clean_granted_map :: "dls_world \<Rightarrow> dls_conf \<Rightarrow> drc_local_ctx \<Rightarrow> drid_t \<Rightarrow> drc_local_ctx option" where
  "dls_request_clean_granted_map w cf ctx lock_id =
     do { master_id \<leftarrow> drc_get_lock_master_id (part_master cf) lock_id;
          if master_id = self_id cf then do { (_, ctx) \<leftarrow> dls_clean_granted_map ctx lock_id (self_id cf); Some ctx }
          else Some (snd (dls_request_lock_msg w ctx lock_id master_id MES_CMD_CLEAN_GRANTED_MAP)) }"

end
