(* ===== verification/Dls_Lock_Props.thy ===== *)
theory Dls_Lock_Props
  imports Dls_Lock
begin

text \<open>
  What the lock service promises: a requester that is told it has the lock is recorded as a holder
  by the master.
\<close>

section \<open>The master's resources stay in order\<close>

text \<open>The other threads and the instances a session talks to keep the master's invariant.\<close>

definition dls_rely :: "uint32 set \<Rightarrow> dls_world \<Rightarrow> bool" where
  "dls_rely S w \<longleftrightarrow>
     (\<forall>n c. lock_ok S c \<longrightarrow> lock_ok S (others (dls_drc w) n c)) \<and>
     (\<forall>n c. lock_ok S (master_ctx c) \<longrightarrow> lock_ok S (master_ctx (dls_others w n c))) \<and>
     (\<forall>i cmd c. lock_ok S (master_ctx c) \<longrightarrow> lock_ok S (master_ctx (snd (dls_peer w i cmd c))))"

lemma wait_loop_lock_ok:
  fixes w :: "drc_lock_ctx drc_world" and c :: drc_lock_ctx
  assumes run: "drc_lock_wait_loop w n c k x req out version = Some (ret, out', c')" and ok: "lock_ok S c"
    and keep: "\<And>n c. lock_ok S c \<Longrightarrow> lock_ok S (others w n c)"
  shows "lock_ok S c'"
proof -
  define P where "P = (\<lambda>(w :: drc_lock_ctx drc_world) (n :: nat) (c :: drc_lock_ctx) (k :: drid_t) (x :: uint32) (req :: drc_req_info_t) (out :: drc_lock_reply) (version :: uint64)
    (y :: status_t \<times> drc_lock_reply \<times> drc_lock_ctx).
      lock_ok S c \<longrightarrow> (\<forall>n c. lock_ok S c \<longrightarrow> lock_ok S (others w n c)) \<longrightarrow> lock_ok S (snd (snd y)))"
  have "P w n c k x req out version (ret, out', c')"
  proof (rule drc_lock_wait_loop.raw_induct[where xa = "(((((((w, n), c), k), x), req), out), version)" and P = P, simplified prod.case, OF _ run])
    fix loop w n c k x req out version and y :: "status_t \<times> drc_lock_reply \<times> drc_lock_ctx"
    assume IH: "\<And>w n c k x req out version y. loop w n c k x req out version = Some y \<Longrightarrow> P w n c k x req out version y"
      and step: "(let ctx = others w n c in
        if DRC_STOP_DLS_REQ_FOR_REFORMING (env w (Suc n)) version k then Some (CT_ERROR, out, ctx)
        else do { r \<leftarrow> lk_get ctx x; knl_panic (lk_cvt_inst r \<noteq> CT_INVALID_ID8);
          if inst_id req = lk_cvt_inst r then do { out \<leftarrow> drc_lock_answer req r; Some (CT_SUCCESS, out, ctx) }
          else loop w (Suc n) ctx k x req out version }) = Some y"
    consider "snd (snd y) = others w n c" | "loop w (Suc n) (others w n c) k x req out version = Some y"
      using step by (auto simp: Let_def bind_eq_Some_conv split: if_splits)
    then show "P w n c k x req out version y"
    proof cases
      case 1
      then show ?thesis by (simp add: P_def)
    next
      case 2
      from IH[OF this] show ?thesis by (simp add: P_def)
    qed
  qed
  then show ?thesis using ok keep by (simp add: P_def)
qed

lemma request_lock_ok:
  fixes w :: "drc_lock_ctx drc_world" and c :: drc_lock_ctx
  assumes "drc_request_lock_owner w c k req out version = Some (ret, out', c')" "lock_ok S c" "req_ok req"
    and "\<And>n c. lock_ok S c \<Longrightarrow> lock_ok S (others w n c)"
  shows "lock_ok S c'"
proof -
  obtain st where st: "drc_request_lock_owner_begin (env w 0) c k req out version = Some st"
    using assms(1) by (auto simp: drc_request_lock_owner_def bind_eq_Some_conv)
  show ?thesis
  proof (cases st)
    case (LockDone r o1 c1)
    then have "lock_step c c'" using st assms(1,3) lock_step.request by (auto simp: drc_request_lock_owner_def)
    then show ?thesis using lock_step_ok assms(2) by (auto simp: lock_guar_def)
  next
    case (LockWait x c1)
    then have "lock_step c c1" using st assms(3) lock_step.wait by blast
    then have "lock_ok S c1" using lock_step_ok assms(2) by (auto simp: lock_guar_def)
    moreover have "drc_lock_wait_loop w 0 c1 k x req out version = Some (ret, out', c')"
      using assms(1) st LockWait by (simp add: drc_request_lock_owner_def)
    ultimately show ?thesis using wait_loop_lock_ok assms(4) by blast
  qed
qed

lemma dls_cancel_ok:
  assumes "lock_ok S (master_ctx c)"
  shows "\<exists>c'. dls_cancel c inst k = Some c' \<and> lock_ok S (master_ctx c') \<and> local_lock_map c' = local_lock_map c"
  using cancel_lock_ok[OF assms, of inst k] by (auto simp: dls_cancel_def lock_guar_def)

lemma request_msg_ok:
  "dls_rely S w \<Longrightarrow> lock_ok S (master_ctx c) \<Longrightarrow> lock_ok S (master_ctx (snd (dls_request_lock_msg w c k i cmd)))"
  by (auto simp: dls_request_lock_msg_def dls_rely_def split: prod.splits) (metis snd_conv)

lemma ask_owners_ok:
  assumes "dls_ask_owners m i w self c k req owners = Some (ret, c')" "lock_ok S (master_ctx c)" "dls_rely S w"
  shows "lock_ok S (master_ctx c')"
  using assms(1,2)
proof (induction m arbitrary: i c)
  case 0
  then show ?case by simp
next
  case (Suc m)
  obtain ex where ex: "drc_bitmap64_exist owners i = Some ex" using Suc.prems(1) by (auto simp: bind_eq_Some_conv)
  then have i: "i < CT_MAX_INSTANCES" by (simp add: drc_bitmap64_eq_Some)
  show ?case
  proof (cases "\<not> ex \<or> self = i")
    case True
    then show ?thesis using Suc.IH[of "i + 1" c] Suc.prems ex by auto
  next
    case False
    obtain r c1 where m: "dls_request_lock_msg w c k i MES_CMD_RELEASE_LOCK = (r, c1)" by fastforce
    have c1: "lock_ok S (master_ctx c1)" using request_msg_ok[OF assms(3) Suc.prems(2), of k i MES_CMD_RELEASE_LOCK] m by simp
    show ?thesis
    proof (cases "r = DLS_OK")
      case False
      then show ?thesis using Suc.prems(1) ex m \<open>\<not> (\<not> ex \<or> self = i)\<close> dls_cancel_ok[OF c1, of self k] by auto
    next
      case ok: True
      from clear_granted_ok[OF c1 i, of k] obtain d where
        d: "dls_clear_granted_map_for_inst (master_ctx c1) k i = Some d" "lock_ok S d" by (auto simp: lock_guar_def)
      define e where "e = (if req_mode req = DRC_LOCK_EXCLUSIVE then d else master_ctx c1)"
      have "dls_ask_owners m (i + 1) w self (c1\<lparr>master_ctx := e\<rparr>) k req owners = Some (ret, c')"
        using Suc.prems(1) ex m ok d(1) False by (auto simp: e_def split: if_splits)
      then show ?thesis using Suc.IH[of "i + 1" "c1\<lparr>master_ctx := e\<rparr>"] c1 d(2) by (simp add: e_def)
    qed
  qed
qed

section \<open>A claim that succeeds\<close>

definition holds :: "drc_lock_ctx \<Rightarrow> drid_t \<Rightarrow> uint8 \<Rightarrow> uint8 \<Rightarrow> bool" where
  "holds c k inst m \<longleftrightarrow> (\<exists>x. lk_lookup c k = Some (Some x) \<and> lk_mode (lock c x) = m \<and> inst \<in> insts (granted_map (lock c x)) \<and>
     (m = DRC_LOCK_EXCLUSIVE \<longrightarrow> insts (granted_map (lock c x)) = {inst}))"

lemma claim_holds:
  assumes ok: "lock_ok S c" and run: "drc_claim_lock_owner e c k claim version False = Some (CT_SUCCESS, c')"
  shows "lock_ok S c' \<and> holds c' k (lk_new_id claim) (lk_claim_mode claim)"
proof -
  obtain fl L pl lfl qs where inv: "lctx c fl L pl lfl qs" and S: "q_items L qs lfl = S" using ok by (rule lock_okE)
  have go: "\<not> DRC_STOP_DLS_REQ_FOR_REFORMING e version k" using run claim_lock_stopped[OF inv, of e version k claim] by auto
  then obtain x where x: "x \<in> L" "res_id (lock c x) = k" "grant_ok claim (lock c x)"
    using claim_lock_stops[OF inv, of e version k False claim] run by auto
  from claim_lock_spec[OF inv x(1) _ x(3), of e version False, unfolded x(2) S] go obtain c1 lfl1 qs1 where
    d: "drc_claim_lock_owner e c k claim version False = Some (CT_SUCCESS, c1)" "lctx c1 fl L pl lfl1 qs1" "q_items L qs1 lfl1 = S"
      "res_id (lock c1 x) = k" "granted_map (lock c1 x) = granted_map (granted_res claim (lock c x))" "lk_mode (lock c1 x) = lk_claim_mode claim"
    by auto
  have "lk_lookup c1 k = Some (Some x)" using lk_lookup_spec(2)[OF d(2)] x(1) d(4) by simp
  then have "holds c1 k (lk_new_id claim) (lk_claim_mode claim)"
    unfolding holds_def using d(5,6) granted_res_inv(2)[OF lctx_linked(6)[OF inv x(1)] x(3)] by (intro exI[of _ x]) auto
  then show ?thesis using d(1) run lock_okI[OF d(2,3)] by simp
qed

lemma claim_or_cancel_holds:
  assumes "lock_ok S (master_ctx c)" and "dls_claim_or_cancel w self c k req version = Some (DLS_OK, c')"
  shows "lock_ok S (master_ctx c') \<and> holds (master_ctx c') k (inst_id req) (req_mode req)"
proof -
  let ?claim = "\<lparr>lk_new_id = inst_id req, lk_claim_mode = req_mode req, lk_claim_sid = inst_sid req\<rparr>"
  obtain d where d: "drc_claim_lock_owner (dls_env w 1) (master_ctx c) k ?claim version False = Some (CT_SUCCESS, d)" "c' = c\<lparr>master_ctx := d\<rparr>"
    using assms(2) by (auto simp: dls_claim_or_cancel_def bind_eq_Some_conv Let_def)
  then show ?thesis using claim_holds[OF assms(1) d(1)] by simp
qed

section \<open>The requester holds what it was given\<close>

text \<open>
  C29: A session that asks for a lock whose master is its own instance and is told that it has it is
  recorded as a holder in the mode it asked for, and as the only holder when the mode is exclusive,
  whatever the other threads do while it waits and asks the owners, as long as they keep the
  master's resources in order.
\<close>

theorem requester_holds_lock:
  assumes "lock_ok S (master_ctx ctx)" and "dls_rely S w" and "req_ok req"
    and "drc_get_lock_master_id (part_master cf) k = Some (self_id cf)"
    and "dls_request_lock w cf ctx k req cmd = Some (DLS_OK, ctx')"
  shows "lock_ok S (master_ctx ctx') \<and> holds (master_ctx ctx') k (inst_id req) (req_mode req)"
proof -
  let ?out = "\<lparr>is_granted = False, old_owner_map = 0\<rparr>"
  obtain ret out c where r: "drc_request_lock_owner (dls_drc w) (master_ctx ctx) k req ?out (req_version req) = Some (ret, out, c)"
    using assms(4,5) by (auto simp: dls_request_lock_def bind_eq_Some_conv)
  define c1 where "c1 = dls_others w 0 (ctx\<lparr>master_ctx := c\<rparr>)"
  have "lock_ok S c" using request_lock_ok[OF r assms(1,3)] assms(2) by (simp add: dls_rely_def)
  then have c1: "lock_ok S (master_ctx c1)" using assms(2) by (simp add: dls_rely_def c1_def)
  obtain c2 where c2: "(if is_granted out then Some (DLS_OK, c1)
      else dls_ask_owners (inst_count cf) 0 w (self_id cf) c1 k req (old_owner_map out)) = Some (DLS_OK, c2)"
      "dls_claim_or_cancel w (self_id cf) c2 k req (req_version req) = Some (DLS_OK, ctx')"
    using assms(4,5) r by (auto simp: dls_request_lock_def Let_def c1_def bind_eq_Some_conv split: if_splits)
  have "lock_ok S (master_ctx c2)" using c2(1) c1 ask_owners_ok[OF _ c1 assms(2)] by (auto split: if_splits)
  then show ?thesis using claim_or_cancel_holds c2(2) by blast
qed

text \<open>
  A request for a lock nobody converts, in a mode that goes with the mode of the lock, from an
  instance that does not hold it yet, is granted at once, and the claim that follows succeeds.
\<close>

lemma compatible_grant:
  fixes c :: drc_lock_ctx
  assumes inv: "lctx c fl L pl lfl qs" and x: "x \<in> L" "res_id (lock c x) = k"
    and idle: "lk_cvt_inst (lock c x) = CT_INVALID_ID8" and req: "req_ok req" "inst_id req \<notin> insts (granted_map (lock c x))"
    and comp: "compatible (req_mode req) (lk_mode (lock c x))"
    and go: "\<not> DRC_STOP_DLS_REQ_FOR_REFORMING (env w 0) version k" "\<not> DRC_STOP_DLS_REQ_FOR_REFORMING e version k"
  shows "\<exists>c' c''. drc_request_lock_owner w c k req out version = Some (CT_SUCCESS, lock_reply_of req (lock c x), c') \<and>
           is_granted (lock_reply_of req (lock c x)) \<and>
           drc_claim_lock_owner e c' k \<lparr>lk_new_id = inst_id req, lk_claim_mode = req_mode req, lk_claim_sid = sid\<rparr> version False = Some (CT_SUCCESS, c'')"
proof -
  let ?claim = "\<lparr>lk_new_id = inst_id req, lk_claim_mode = req_mode req, lk_claim_sid = sid\<rparr>"
  from start_converting[OF inv x(1) idle req(1)] obtain c' where
    d: "lk_put c x (set_lk_req req (lock c x)) = Some c'" "lctx c' fl L pl lfl qs" "lock c' x = set_lk_req req (lock c x)" by auto
  have r: "drc_request_lock_owner w c k req out version = Some (CT_SUCCESS, lock_reply_of req (lock c x), c')"
    using request_known[OF inv _ x(1) req(1), of "env w 0" version out] go(1) x(2) idle d(1) by (simp add: drc_request_lock_owner_def)
  have ok: "grant_ok ?claim (lock c' x)" using d(3) req by (auto simp: grant_ok_def req_ok_def)
  have rx: "res_id (lock c' x) = k" using d(3) x(2) by simp
  from claim_lock_spec[OF d(2) x(1) _ ok, of e version False, unfolded rx] go(2) obtain c'' where
    "drc_claim_lock_owner e c' k ?claim version False = Some (CT_SUCCESS, c'')" by auto
  then show ?thesis using r comp by (auto simp: lock_reply_of_def)
qed

section \<open>The master\<close>

lemma local_ops_master:
  "loc_put c x r = Some c' \<Longrightarrow> master_ctx c' = master_ctx c" "loc_update c x f = Some c' \<Longrightarrow> master_ctx c' = master_ctx c"
  "drc_lock_local_resx c x = Some c' \<Longrightarrow> master_ctx c' = master_ctx c" "drc_unlock_local_resx c x = Some c' \<Longrightarrow> master_ctx c' = master_ctx c"
proof -
  show p: "loc_put c x r = Some c' \<Longrightarrow> master_ctx c' = master_ctx c" for c r c'
    by (auto simp: loc_put_def bind_eq_Some_conv)
  show u: "loc_update c x f = Some c' \<Longrightarrow> master_ctx c' = master_ctx c" for f c'
    by (auto simp: loc_update_def bind_eq_Some_conv dest: p)
  show "drc_lock_local_resx c x = Some c' \<Longrightarrow> master_ctx c' = master_ctx c"
    by (auto simp: drc_lock_local_resx_def bind_eq_Some_conv dest: p split: if_splits)
  show "drc_unlock_local_resx c x = Some c' \<Longrightarrow> master_ctx c' = master_ctx c"
    by (simp add: drc_unlock_local_resx_def u)
qed

lemma release_iter_master:
  assumes "dls_release_iter e dc c k m version ticks tries = Some st"
  shows "case st of ReleaseDone ret c' \<Rightarrow> master_ctx c' = master_ctx c | ReleaseAgain t c' \<Rightarrow> master_ctx c' = master_ctx c"
proof -
  obtain found where f: "drc_get_local_resx_without_create c k = Some found" using assms by (auto simp: dls_release_iter_def bind_eq_Some_conv)
  show ?thesis
  proof (cases found)
    case None
    then show ?thesis using assms f by (auto simp: dls_release_iter_def)
  next
    case (Some x)
    obtain c1 r c2 where o: "drc_lock_local_resx c x = Some c1" "loc_get c1 x = Some r" "drc_unlock_local_resx c1 x = Some c2"
      using assms f Some by (auto simp: dls_release_iter_def bind_eq_Some_conv Let_def)
    have m: "master_ctx c1 = master_ctx c" "master_ctx c2 = master_ctx c" using local_ops_master(3)[OF o(1)] local_ops_master(4)[OF o(3)] by simp_all
    have p: "master_ctx c4 = master_ctx c" if "loc_put c1 x r' = Some c3" "drc_unlock_local_resx c3 x = Some c4" for r' c3 c4
      using local_ops_master(1)[OF that(1)] local_ops_master(4)[OF that(2)] m(1) by simp
    have eq: "Some st = (if is_locked r \<and> drid_type k = DR_TYPE_SHUTDOWN then Some (ReleaseDone CT_ERROR c2)
        else if ticks \<noteq> CT_INVALID_ID32 \<and> tries \<ge> ticks then Some (ReleaseDone CT_ERROR c2)
        else if is_locked r then Some (ReleaseAgain (tries + 1) c2)
        else if DRC_STOP_DLS_REQ_FOR_REFORMING e version k then Some (ReleaseDone CT_ERROR c2)
        else if stat (latch_stat r) = LATCH_STATUS_IDLE \<or> stat (latch_stat r) = LATCH_STATUS_IX \<and> shared_count (latch_stat r) = 0 then
          (if lock_mode (latch_stat r) = DRC_LOCK_NULL then Some (ReleaseDone CT_ERROR c2)
           else if snd (dls_broadcast_btree_split dc k m) \<noteq> CT_SUCCESS then Some (ReleaseDone CT_ERROR c2)
           else do { knl_panic (m = DRC_LOCK_EXCLUSIVE \<or> m = DRC_LOCK_SHARE); ctx \<leftarrow> loc_put c1 x (dls_release_res m r);
                     ctx \<leftarrow> drc_unlock_local_resx ctx x; Some (ReleaseDone CT_SUCCESS ctx) })
        else Some (ReleaseAgain tries c2))"
      using assms[symmetric] unfolding dls_release_iter_def f Some by (simp only: o option.case Option.bind.simps Let_def)
    have z: "\<exists>c3 c4. loc_put c1 x (dls_release_res m r) = Some c3 \<and> drc_unlock_local_resx c3 x = Some c4 \<and> st = ReleaseDone CT_SUCCESS c4"
      if "Some st = do { knl_panic (m = DRC_LOCK_EXCLUSIVE \<or> m = DRC_LOCK_SHARE); ctx \<leftarrow> loc_put c1 x (dls_release_res m r);
                     ctx \<leftarrow> drc_unlock_local_resx ctx x; Some (ReleaseDone CT_SUCCESS ctx) }"
      using that[symmetric] by (auto simp: bind_eq_Some_conv)
    have "(\<exists>ret. st = ReleaseDone ret c2) \<or> (\<exists>t. st = ReleaseAgain t c2) \<or>
        (\<exists>c3 c4. loc_put c1 x (dls_release_res m r) = Some c3 \<and> drc_unlock_local_resx c3 x = Some c4 \<and> st = ReleaseDone CT_SUCCESS c4)"
      using eq z by (simp split: if_split_asm)
    then show ?thesis
    proof (elim disjE exE conjE)
      fix c3 c4
      assume a: "loc_put c1 x (dls_release_res m r) = Some c3" "drc_unlock_local_resx c3 x = Some c4" "st = ReleaseDone CT_SUCCESS c4"
      then show ?thesis using p[OF a(1,2)] by simp
    qed (use m(2) in simp_all)
  qed
qed

lemma release_loop_ok:
  assumes run: "dls_release_loop w n c k m version ticks tries = Some (ret, c')" and ok: "lock_ok S (master_ctx c)" and rely: "dls_rely S w"
  shows "lock_ok S (master_ctx c')"
proof -
  define P where "P = (\<lambda>w (n :: nat) (c :: drc_local_ctx) (k :: drid_t) (m :: uint8) (version :: uint64) (ticks :: uint32) (tries :: uint32)
    (y :: status_t \<times> drc_local_ctx). lock_ok S (master_ctx c) \<longrightarrow> dls_rely S w \<longrightarrow> lock_ok S (master_ctx (snd y)))"
  have "P w n c k m version ticks tries (ret, c')"
  proof (rule dls_release_loop.raw_induct[where P = P, OF _ run])
    fix loop w n c k m version ticks tries and y :: "status_t \<times> drc_local_ctx"
    assume IH: "\<And>w n c k m version ticks tries y. loop w n c k m version ticks tries = Some y \<Longrightarrow> P w n c k m version ticks tries y"
      and step: "do { step \<leftarrow> dls_release_iter (dls_env w n) (dls_dc w) (dls_others w n c) k m version ticks tries;
          case step of ReleaseDone ret ctx \<Rightarrow> Some (ret, ctx) | ReleaseAgain tries ctx \<Rightarrow> loop w (Suc n) ctx k m version ticks tries } = Some y"
    obtain st where st: "dls_release_iter (dls_env w n) (dls_dc w) (dls_others w n c) k m version ticks tries = Some st"
      using step by (auto simp: bind_eq_Some_conv)
    note i = release_iter_master[OF st]
    show "P w n c k m version ticks tries y"
    proof (cases st)
      case (ReleaseDone r c1)
      then show ?thesis using step st i by (auto simp: P_def dls_rely_def)
    next
      case (ReleaseAgain t c1)
      then have "P w (Suc n) c1 k m version ticks t y" using step st IH by simp
      then show ?thesis using i ReleaseAgain by (simp add: P_def dls_rely_def)
    qed
  qed
  then show ?thesis using ok rely by (simp add: P_def)
qed

text \<open>Taking the spin lock, changing the resource and giving the lock back is invisible to the master.\<close>

lemma critical_master:
  assumes "drc_lock_local_resx c x = Some c1" "drc_unlock_local_resx c2 x = Some c3" "c2 = c1 \<or> loc_put c1 x r = Some c2 \<or> loc_update c1 x f = Some c2"
  shows "master_ctx c3 = master_ctx c"
proof -
  have "master_ctx c2 = master_ctx c1" using assms(3)
  proof (elim disjE)
    assume "loc_put c1 x r = Some c2"
    then show ?thesis by (rule local_ops_master(1))
  next
    assume "loc_update c1 x f = Some c2"
    then show ?thesis by (rule local_ops_master(2))
  qed simp
  then show ?thesis using local_ops_master(3)[OF assms(1)] local_ops_master(4)[OF assms(2)] by simp
qed

lemma unlock_table_ok:
  assumes "dls_process_unlock_table w c k m = Some (ret, c')" "lock_ok S (master_ctx c)" "dls_rely S w"
  shows "lock_ok S (master_ctx c')"
proof (cases "\<not> dc_opens (dls_dc w) \<or> dc_table_lock (dls_dc w) \<noteq> CT_SUCCESS")
  case True
  then show ?thesis using assms(1,2) by (auto simp: dls_process_unlock_table_def bind_eq_Some_conv split: if_splits)
next
  case False
  define d where "d = dls_others w 0 c"
  have d: "lock_ok S (master_ctx d)" using assms(2,3) by (simp add: dls_rely_def d_def)
  obtain found where f: "drc_get_local_resx_without_create d k = Some found"
    using assms(1) False by (auto simp: dls_process_unlock_table_def bind_eq_Some_conv Let_def d_def)
  show ?thesis
  proof (cases found)
    case None
    then show ?thesis using assms(1) False d f by (simp add: dls_process_unlock_table_def Let_def d_def)
  next
    case (Some x)
    obtain c1 f c2 where o: "drc_lock_local_resx d x = Some c1" "drc_unlock_local_resx c2 x = Some c'" "loc_update c1 x f = Some c2"
      using assms(1) False f Some by (simp add: dls_process_unlock_table_def Let_def d_def[symmetric] bind_eq_Some_conv) blast
    have "master_ctx c' = master_ctx d" by (rule critical_master[OF o(1,2)]) (use o(3) in blast)
    then show ?thesis using d by simp
  qed
qed

lemma release_ownership_ok:
  assumes "dls_process_release_ownership w c k m version ticks = Some (ret, c')" "lock_ok S (master_ctx c)" "dls_rely S w"
  shows "lock_ok S (master_ctx c')"
  using assms release_loop_ok unlock_table_ok by (auto simp: dls_process_release_ownership_def split: if_splits)

lemma poll_locked_ok:
  "dls_poll_locked w m t c x = Some (t', c') \<Longrightarrow> lock_ok S (master_ctx c) \<Longrightarrow> dls_rely S w \<Longrightarrow> lock_ok S (master_ctx c')"
  by (induction m arbitrary: t c) (auto simp: bind_eq_Some_conv Let_def dls_rely_def split: if_splits)

lemma create_local_master: "drc_create_local_lock_res c k = Some (o', c') \<Longrightarrow> master_ctx c' = master_ctx c"
  by (auto simp: drc_create_local_lock_res_def bind_eq_Some_conv Let_def case_prod_unfold split: if_splits)

lemma get_resx_master: "drc_get_local_resx c k = Some (x, c') \<Longrightarrow> master_ctx c' = master_ctx c"
  by (auto simp: drc_get_local_resx_def bind_eq_Some_conv dest: create_local_master split: option.splits)

lemma try_release_ok:
  assumes run: "dls_process_try_release_ownership w c k m version = Some (ret, c')" and ok: "lock_ok S (master_ctx c)" and rely: "dls_rely S w"
  shows "lock_ok S (master_ctx c')"
proof (cases "DRC_STOP_DLS_REQ_FOR_REFORMING (dls_env w 0) version k \<or> m \<noteq> DRC_LOCK_EXCLUSIVE \<and> m \<noteq> DRC_LOCK_SHARE \<or> drid_type k = DR_TYPE_TABLE")
  case True
  then show ?thesis using assms unlock_table_ok[OF _ ok rely]
    by (auto simp: dls_process_try_release_ownership_def bind_eq_Some_conv split: if_splits)
next
  case False
  obtain x c1 t c2 where p: "drc_get_local_resx c k = Some (x, c1)" "dls_poll_locked w 3 0 c1 x = Some (t, c2)"
    using run False by (auto simp: dls_process_try_release_ownership_def bind_eq_Some_conv)
  have c2: "lock_ok S (master_ctx c2)" using poll_locked_ok[OF p(2) _ rely] get_resx_master[OF p(1)] ok by simp
  show ?thesis
  proof (cases "t \<ge> 3")
    case True
    then show ?thesis using run False p c2 by (auto simp: dls_process_try_release_ownership_def)
  next
    case t: False
    obtain c3 r where l: "drc_lock_local_resx c2 x = Some c3" "loc_get c3 x = Some r"
      using run False p t by (auto simp: dls_process_try_release_ownership_def bind_eq_Some_conv)
    obtain c4 where c4: "drc_unlock_local_resx c4 x = Some c'" "c4 = c3 \<or> loc_put c3 x (dls_release_res m r) = Some c4"
      using run False p t l by (auto simp: dls_process_try_release_ownership_def bind_eq_Some_conv split: if_splits)
    have "master_ctx c' = master_ctx c2" by (rule critical_master[OF l(1) c4(1)]) (use c4(2) in blast)
    then show ?thesis using c2 by simp
  qed
qed

lemma ask_release_ok:
  assumes "dls_ask_release w self c k owner m version ticks = Some (ret, c')" "lock_ok S (master_ctx c)" "dls_rely S w"
  shows "lock_ok S (master_ctx c')"
proof (cases "self = owner")
  case True
  then show ?thesis using assms release_ownership_ok by (auto simp: dls_ask_release_def bind_eq_Some_conv)
next
  case False
  then show ?thesis using assms(1) request_msg_ok[OF assms(3,2), of k owner MES_CMD_RELEASE_LOCK] by (simp add: dls_ask_release_def)
qed

lemma msg_req_ok: "m = DRC_LOCK_SHARE \<or> m = DRC_LOCK_EXCLUSIVE \<Longrightarrow> msg_req_mode msg = m \<Longrightarrow> msg_src_inst msg < CT_MAX_INSTANCES \<Longrightarrow> req_ok (dls_req_of_msg w msg)"
  by (auto simp: req_ok_def dls_req_of_msg_def)

text \<open>What the master does after its resource has answered: asking an owner, and cancelling when that fails.\<close>

lemma ask_then_cancel_ok:
  assumes "do { (ret, ctx) \<leftarrow> ask; if ret = DLS_OK then Some (ret, ctx) else if stop then Some (ret, ctx)
                else do { ctx \<leftarrow> dls_cancel ctx inst k; Some (ret, ctx) } } = Some (ret, c')"
    and "\<And>r c. ask = Some (r, c) \<Longrightarrow> lock_ok S (master_ctx c)"
  shows "lock_ok S (master_ctx c')"
proof -
  obtain r c where a: "ask = Some (r, c)" using assms(1) by (auto simp: bind_eq_Some_conv)
  note c = assms(2)[OF a]
  obtain d where "dls_cancel c inst k = Some d" "lock_ok S (master_ctx d)" using dls_cancel_ok[OF c] by blast
  then show ?thesis using assms(1) a c by (auto split: if_splits)
qed

lemma ask_master_for_lock_ok:
  assumes run: "dls_process_ask_master_for_lock w cf c msg = Some (ret, c')" and ok: "lock_ok S (master_ctx c)" and rely: "dls_rely S w"
  shows "lock_ok S (master_ctx c')"
proof (cases "msg_req_mode msg \<noteq> DRC_LOCK_EXCLUSIVE \<or> msg_src_inst msg \<ge> CT_MAX_INSTANCES")
  case True
  then show ?thesis using run ok by (auto simp: dls_process_ask_master_for_lock_def)
next
  case False
  let ?k = "msg_lock_id msg" and ?v = "msg_req_version msg" and ?req = "dls_req_of_msg w msg" and ?out = "\<lparr>is_granted = False, old_owner_map = 0\<rparr>"
  obtain r out d where d: "drc_request_lock_owner (dls_drc w) (master_ctx c) ?k ?req ?out ?v = Some (r, out, d)"
    using run False by (auto simp: dls_process_ask_master_for_lock_def Let_def bind_eq_Some_conv)
  define c1 where "c1 = dls_others w 0 (c\<lparr>master_ctx := d\<rparr>)"
  have "lock_ok S d" using request_lock_ok[OF d ok] msg_req_ok[of DRC_LOCK_EXCLUSIVE msg w] False rely by (simp add: dls_rely_def not_le)
  then have c1: "lock_ok S (master_ctx c1)" using rely by (simp add: dls_rely_def c1_def)
  have "(\<exists>r'. (ret, c') = (r', c1)) \<or> (\<exists>owner. do { (ret, ctx) \<leftarrow> dls_ask_release w (self_id cf) c1 ?k owner (msg_req_mode msg) ?v (msg_release_ticks msg);
      if ret = DLS_OK then Some (ret, ctx) else if DRC_STOP_DLS_REQ_FOR_REFORMING (dls_env w 1) ?v ?k then Some (ret, ctx)
      else do { ctx \<leftarrow> dls_cancel ctx (inst_id ?req) ?k; Some (ret, ctx) } } = Some (ret, c'))"
    using run False d unfolding dls_process_ask_master_for_lock_def Let_def c1_def[symmetric]
    by (simp split: if_split_asm) (auto simp: bind_eq_Some_conv Let_def c1_def split: if_splits)
  then show ?thesis using c1 ask_then_cancel_ok ask_release_ok[OF _ c1 rely] by blast
qed

lemma ask_latch_owners_ok:
  assumes "dls_ask_latch_owners m i w self c k req version owners = Some (ret, c')" "lock_ok S (master_ctx c)" "dls_rely S w"
  shows "lock_ok S (master_ctx c')"
  using assms(1,2)
proof (induction m arbitrary: i c)
  case 0
  then show ?case by simp
next
  case (Suc m)
  obtain ex where ex: "drc_bitmap64_exist owners i = Some ex" using Suc.prems(1) by (auto simp: bind_eq_Some_conv)
  then have i: "i < CT_MAX_INSTANCES" by (simp add: drc_bitmap64_eq_Some)
  show ?case
  proof (cases "\<not> ex \<or> inst_id req = i")
    case True
    then show ?thesis using Suc.IH[of "i + 1" c] Suc.prems ex by auto
  next
    case False
    obtain r c1 where m: "dls_ask_release w self c k i (req_mode req) version (release_timeout_ticks req) = Some (r, c1)"
      using Suc.prems(1) ex False by (auto simp: bind_eq_Some_conv)
    note c1 = ask_release_ok[OF m Suc.prems(2) assms(3)]
    show ?thesis
    proof (cases "r = DLS_OK")
      case bad: False
      then show ?thesis using Suc.prems(1) ex m False c1 dls_cancel_ok[OF c1, of "inst_id req" k] by (auto split: if_splits)
    next
      case ok: True
      from clear_granted_ok[OF c1 i, of k] obtain d where
        d: "dls_clear_granted_map_for_inst (master_ctx c1) k i = Some d" "lock_ok S d" by (auto simp: lock_guar_def)
      define e where "e = (if req_mode req = DRC_LOCK_EXCLUSIVE then d else master_ctx c1)"
      have "dls_ask_latch_owners m (i + 1) w self (c1\<lparr>master_ctx := e\<rparr>) k req version owners = Some (ret, c')"
        using Suc.prems(1) ex m ok d(1) False by (auto simp: e_def split: if_splits)
      then show ?thesis using Suc.IH[of "i + 1" "c1\<lparr>master_ctx := e\<rparr>"] c1 d(2) by (simp add: e_def)
    qed
  qed
qed

lemma ask_master_for_latch_ok:
  assumes run: "dls_process_ask_master_for_latch w cf c msg = Some (ret, c')" and ok: "lock_ok S (master_ctx c)" and rely: "dls_rely S w"
  shows "lock_ok S (master_ctx c')"
proof -
  define m where "m = (if msg_cmd msg = MES_CMD_REQUEST_LATCH_S then DRC_LOCK_SHARE else DRC_LOCK_EXCLUSIVE)"
  let ?k = "msg_lock_id msg" and ?v = "msg_req_version msg" and ?req = "dls_req_of_msg w msg" and ?out = "\<lparr>is_granted = False, old_owner_map = 0\<rparr>"
  show ?thesis
  proof (cases "msg_req_mode msg \<noteq> m \<or> msg_src_inst msg \<ge> CT_MAX_INSTANCES")
    case True
    then show ?thesis using run ok by (auto simp: dls_process_ask_master_for_latch_def m_def Let_def)
  next
    case False
    obtain r out d where d: "drc_request_lock_owner (dls_drc w) (master_ctx c) ?k ?req ?out ?v = Some (r, out, d)"
      using run False by (auto simp: dls_process_ask_master_for_latch_def m_def Let_def bind_eq_Some_conv)
    define c1 where "c1 = dls_others w 0 (c\<lparr>master_ctx := d\<rparr>)"
    have "lock_ok S d" using request_lock_ok[OF d ok] msg_req_ok[of m msg w] False rely by (simp add: dls_rely_def not_le m_def)
    then have c1: "lock_ok S (master_ctx c1)" using rely by (simp add: dls_rely_def c1_def)
    have "c' = c1 \<or> dls_ask_latch_owners (inst_count cf) 0 w (self_id cf) c1 ?k ?req ?v (old_owner_map out) = Some (ret, c')"
      using run False d by (auto simp: dls_process_ask_master_for_latch_def m_def Let_def c1_def split: if_splits)
    then show ?thesis using c1 ask_latch_owners_ok[OF _ c1 rely] by blast
  qed
qed

lemma try_ask_master_for_lock_ok:
  assumes run: "dls_process_try_ask_master_for_lock w cf c msg = Some (ret, c')" and ok: "lock_ok S (master_ctx c)" and rely: "dls_rely S w"
  shows "lock_ok S (master_ctx c')"
proof (cases "msg_req_mode msg \<noteq> DRC_LOCK_EXCLUSIVE \<or> msg_src_inst msg \<ge> CT_MAX_INSTANCES")
  case True
  then show ?thesis using run ok by (auto simp: dls_process_try_ask_master_for_lock_def)
next
  case False
  let ?k = "msg_lock_id msg" and ?v = "msg_req_version msg" and ?req = "dls_req_of_msg w msg" and ?out = "\<lparr>is_granted = False, old_owner_map = 0\<rparr>"
  have "req_ok ?req" using msg_req_ok[of DRC_LOCK_EXCLUSIVE msg w] False by (simp add: not_le)
  from try_request_ok[OF ok this, of "env (dls_drc w)" ?k ?out ?v] obtain r out d where
    d: "drc_try_request_lock_owner (env (dls_drc w)) (master_ctx c) ?k ?req ?out ?v = Some (r, out, d)" "lock_ok S d" by (auto simp: lock_guar_def)
  define c1 where "c1 = dls_others w 0 (c\<lparr>master_ctx := d\<rparr>)"
  have c1: "lock_ok S (master_ctx c1)" using rely d(2) by (simp add: dls_rely_def c1_def)
  define ask where "ask = (\<lambda>owner. if self_id cf = owner then dls_process_try_release_ownership w c1 ?k (req_mode ?req) ?v
      else Some (dls_request_lock_msg w c1 ?k owner MES_CMD_TRY_RELEASE_LOCK))"
  have ask: "lock_ok S (master_ctx c2)" if "ask owner = Some (r, c2)" for owner r c2
    using that try_release_ok[OF _ c1 rely] request_msg_ok[OF rely c1, of ?k owner MES_CMD_TRY_RELEASE_LOCK] by (auto simp: ask_def split: if_splits)
  have "(\<exists>r'. (ret, c') = (r', c1)) \<or> (\<exists>owner. do { (ret, ctx) \<leftarrow> ask owner;
      if ret = DLS_OK then Some (ret, ctx) else if DRC_STOP_DLS_REQ_FOR_REFORMING (dls_env w 1) ?v ?k then Some (ret, ctx)
      else do { ctx \<leftarrow> dls_cancel ctx (inst_id ?req) ?k; Some (ret, ctx) } } = Some (ret, c'))"
    using run False d unfolding dls_process_try_ask_master_for_lock_def Let_def
    by (simp split: if_split_asm) (auto simp: bind_eq_Some_conv Let_def c1_def ask_def split: if_splits)
  then show ?thesis using c1 ask_then_cancel_ok ask by blast
qed

section \<open>A request of another instance\<close>

definition requests_lock :: "dls_cmd \<Rightarrow> bool" where
  "requests_lock cmd \<longleftrightarrow> cmd \<in> {MES_CMD_REQUEST_LOCK, MES_CMD_REQUEST_LATCH_S, MES_CMD_REQUEST_LATCH_X, MES_CMD_TRY_REQUEST_LOCK}"

text \<open>
  C30: When the master answers a request of another instance with success, that instance is recorded
  as a holder of the lock in the mode it asked for, alone when the mode is exclusive. This holds for
  each of the four request messages and whatever owners had to be asked in between.
\<close>

theorem answered_request_holds:
  assumes "lock_ok S (master_ctx ctx)" and "dls_rely S w" and "requests_lock (msg_cmd msg)"
    and "dls_process_lock_msg w cf ctx msg = Some (Some (DLS_OK, version), ctx')"
  shows "lock_ok S (master_ctx ctx') \<and> holds (master_ctx ctx') (msg_lock_id msg) (msg_src_inst msg) (msg_req_mode msg)"
proof -
  define ask where "ask = (case msg_cmd msg of
      MES_CMD_REQUEST_LOCK \<Rightarrow> dls_process_ask_master_for_lock w cf ctx msg
    | MES_CMD_TRY_REQUEST_LOCK \<Rightarrow> dls_process_try_ask_master_for_lock w cf ctx msg
    | _ \<Rightarrow> dls_process_ask_master_for_latch w cf ctx msg)"
  have ok: "lock_ok S (master_ctx c)" if "ask = Some (r, c)" for r c
    using that assms(1,2) ask_master_for_lock_ok ask_master_for_latch_ok try_ask_master_for_lock_ok
    by (auto simp: ask_def split: dls_cmd.splits)
  have sz: "msg_size_ok msg" using assms(4) by (auto simp: dls_process_lock_msg_def split: if_splits)
  have "do { (ret, ctx) \<leftarrow> ask; (ret, ctx) \<leftarrow> (if ret = DLS_OK then dls_process_claim_ownership w ctx msg else Some (ret, ctx));
             Some (Some (ret, msg_req_version msg), ctx) } = Some (Some (DLS_OK, version), ctx')"
    using assms(3,4) sz by (auto simp: dls_process_lock_msg_def requests_lock_def ask_def bind_eq_Some_conv split: if_splits)
  then obtain c where c: "ask = Some (DLS_OK, c)" "dls_process_claim_ownership w c msg = Some (DLS_OK, ctx')"
    by (auto simp: bind_eq_Some_conv split: if_splits)
  let ?claim = "\<lparr>lk_new_id = msg_src_inst msg, lk_claim_mode = msg_req_mode msg, lk_claim_sid = msg_src_sid msg\<rparr>"
  obtain d where d: "drc_claim_lock_owner (dls_env w 1) (master_ctx c) (msg_lock_id msg) ?claim (msg_req_version msg) False = Some (CT_SUCCESS, d)"
      "ctx' = c\<lparr>master_ctx := d\<rparr>"
    using c(2) by (auto simp: dls_process_claim_ownership_def bind_eq_Some_conv)
  show ?thesis using claim_holds[OF ok[OF c(1)] d(1)] d(2) by simp
qed

section \<open>Concrete runs\<close>

definition demo_dls_world :: dls_world where
  "demo_dls_world = \<lparr>dls_drc = demo_lock_world (\<lambda>c. c), dls_env = (\<lambda>_. demo_env), dls_others = (\<lambda>_ c. c),
     dls_peer = (\<lambda>_ _ c. (ErrorMsg, c)), dls_rsn = 1, dls_stack = g_invalid_req_info,
     dls_dc = \<lparr>dc_opens = True, dc_table_lock = CT_SUCCESS, dc_entity_null = True, dc_btree = None\<rparr>\<rparr>"

lemma demo_dls_world [simp]:
  "dls_drc demo_dls_world = demo_lock_world (\<lambda>c. c)" "dls_env demo_dls_world n = demo_env" "dls_others demo_dls_world n c = c"
  "dls_peer demo_dls_world i cmd c = (ErrorMsg, c)" "dls_rely S demo_dls_world"
  by (simp_all add: demo_dls_world_def dls_rely_def)

definition demo_conf :: "uint8 \<Rightarrow> dls_conf" where
  "demo_conf master = \<lparr>self_id = 0, session_id = 7, part_master = (\<lambda>_. master), inst_count = 2\<rparr>"

lemma demo_master: "drc_get_lock_master_id (part_master (demo_conf i)) k = Some i" "self_id (demo_conf i) = 0"
  by (simp_all add: demo_conf_def drc_get_lock_master_id_def drc_lock_partid_eq)

text \<open>A lock held by instance 1 in share mode that nobody converts.\<close>

definition demo_shared_res :: drc_master_res_t where
  "demo_shared_res = set_lk_req ((demo_req 2 DRC_LOCK_EXCLUSIVE)\<lparr>inst_id := CT_INVALID_ID8\<rparr>)
     (demo_lock\<lparr>lk_convert_q := DRC_LIST_INIT, lk_mode := DRC_LOCK_SHARE\<rparr>)"

definition demo_shared :: drc_lock_ctx where
  "demo_shared = demo_lctx_of demo_free_items demo_shared_res"

lemma demo_shared: "lctx demo_shared [1] {0} demo_pl [0, 1] (\<lambda>_. [])" "lk_cvt_inst (lock demo_shared 0) = CT_INVALID_ID8"
  "res_id (lock demo_shared 0) = demo_lid" "compatible DRC_LOCK_SHARE (lk_mode (lock demo_shared 0))"
  "insts (granted_map (lock demo_shared 0)) = {1}"
proof -
  show g: "insts (granted_map (lock demo_shared 0)) = {1}" using demo_granted by (simp add: demo_shared_def demo_shared_res_def)
  show "lk_cvt_inst (lock demo_shared 0) = CT_INVALID_ID8" "res_id (lock demo_shared 0) = demo_lid"
    "compatible DRC_LOCK_SHARE (lk_mode (lock demo_shared 0))"
    by (simp_all add: demo_shared_def demo_shared_res_def compatible_def demo_lock_def)
  show "lctx demo_shared [1] {0} demo_pl [0, 1] (\<lambda>_. [])" unfolding demo_shared_def
  proof (rule demo_lctx_ok)
    show "lock_ident demo_lock demo_shared_res" by (simp add: lock_ident_def demo_shared_res_def)
    show "qrep demo_free_items [0, 1] (lk_convert_q demo_shared_res) []"
      by (simp add: qrep_def queue_inv_def pool_inv_def demo_queued_def demo_shared_res_def DRC_LIST_INIT_def)
    show "lk_inv demo_shared_res (reqs demo_free_items [])"
      unfolding lk_inv_def using g by (auto simp: demo_shared_res_def)
  qed
qed

lemma demo_shared_ok: "lock_ok {0, 1} demo_shared"
  by (rule lock_okI[OF demo_shared(1)]) simp

abbreviation demo_dls_ctx :: "local_map_t \<Rightarrow> drc_local_ctx" where
  "demo_dls_ctx m \<equiv> \<lparr>master_ctx = demo_shared, local_lock_map = m\<rparr>"

theorem requester_holds_lock_witness:
  "\<exists>ctx'. dls_request_lock demo_dls_world (demo_conf 0) (demo_dls_ctx blank_local_map) demo_lid
       ((demo_req 0 DRC_LOCK_SHARE)\<lparr>req_version := 3\<rparr>) MES_CMD_REQUEST_LATCH_S = Some (DLS_OK, ctx') \<and>
     holds (master_ctx ctx') demo_lid 0 DRC_LOCK_SHARE"
proof -
  define req where "req = (demo_req 0 DRC_LOCK_SHARE)\<lparr>req_version := 3\<rparr>"
  have req: "req_ok req" "inst_id req = 0" "req_mode req = DRC_LOCK_SHARE" "req_version req = 3"
    by (simp_all add: req_def demo_req_def req_ok_def)
  have go: "\<not> DRC_STOP_DLS_REQ_FOR_REFORMING (env (dls_drc demo_dls_world) 0) 3 demo_lid" "\<not> DRC_STOP_DLS_REQ_FOR_REFORMING demo_env 3 demo_lid"
    using demo_dls_go by simp_all
  have ni: "inst_id req \<notin> insts (granted_map (lock demo_shared 0))" using req(2) demo_shared(5) by simp
  have cm: "compatible (req_mode req) (lk_mode (lock demo_shared 0))" using req(3) demo_shared(4) by simp
  from compatible_grant[OF demo_shared(1) _ demo_shared(3,2) req(1) ni cm go, of "\<lparr>is_granted = False, old_owner_map = 0\<rparr>" "inst_sid req"]
  obtain c' c'' where r: "drc_request_lock_owner (dls_drc demo_dls_world) demo_shared demo_lid req \<lparr>is_granted = False, old_owner_map = 0\<rparr> 3 =
        Some (CT_SUCCESS, lock_reply_of req (lock demo_shared 0), c')" "is_granted (lock_reply_of req (lock demo_shared 0))"
      "drc_claim_lock_owner demo_env c' demo_lid \<lparr>lk_new_id = inst_id req, lk_claim_mode = req_mode req, lk_claim_sid = inst_sid req\<rparr> 3 False = Some (CT_SUCCESS, c'')"
    by auto
  have run: "dls_request_lock demo_dls_world (demo_conf 0) (demo_dls_ctx blank_local_map) demo_lid req MES_CMD_REQUEST_LATCH_S =
      Some (DLS_OK, \<lparr>master_ctx = c'', local_lock_map = blank_local_map\<rparr>)"
    using r demo_master(1)[of 0 demo_lid] demo_master(2)[of 0] req(4) by (simp add: dls_request_lock_def dls_claim_or_cancel_def)
  have ok: "lock_ok {0, 1} (master_ctx (demo_dls_ctx blank_local_map))" using demo_shared_ok by simp
  have m: "drc_get_lock_master_id (part_master (demo_conf 0)) demo_lid = Some (self_id (demo_conf 0))" using demo_master by simp
  from requester_holds_lock[OF ok demo_dls_world(5) req(1) m run] have "holds c'' demo_lid 0 DRC_LOCK_SHARE" using req(2,3) by simp
  then show ?thesis using run unfolding req_def by (intro exI[of _ "\<lparr>master_ctx = c'', local_lock_map = blank_local_map\<rparr>"]) simp
qed

definition demo_msg :: msg_lock_req_t where
  "demo_msg = \<lparr>msg_size_ok = True, msg_cmd = MES_CMD_REQUEST_LATCH_S, msg_src_inst = 3, msg_src_sid = 5, msg_rsn = 11, msg_start_time = 0,
     msg_lock_id = demo_lid, msg_req_version = 3, msg_req_mode = DRC_LOCK_SHARE, msg_release_ticks = CT_INVALID_ID32\<rparr>"

theorem answered_request_holds_witness:
  "\<exists>ctx'. dls_process_lock_msg demo_dls_world (demo_conf 0) (demo_dls_ctx blank_local_map) demo_msg = Some (Some (DLS_OK, 3), ctx') \<and>
     holds (master_ctx ctx') demo_lid 3 DRC_LOCK_SHARE"
proof -
  define req where "req = dls_req_of_msg demo_dls_world demo_msg"
  have req: "req_ok req" "inst_id req = 3" "req_mode req = DRC_LOCK_SHARE"
    by (simp_all add: req_def dls_req_of_msg_def demo_msg_def req_ok_def)
  have go: "\<not> DRC_STOP_DLS_REQ_FOR_REFORMING (env (dls_drc demo_dls_world) 0) 3 demo_lid" "\<not> DRC_STOP_DLS_REQ_FOR_REFORMING demo_env 3 demo_lid"
    using demo_dls_go by simp_all
  have ni: "inst_id req \<notin> insts (granted_map (lock demo_shared 0))" using req(2) demo_shared(5) by simp
  have cm: "compatible (req_mode req) (lk_mode (lock demo_shared 0))" using req(3) demo_shared(4) by simp
  from compatible_grant[OF demo_shared(1) _ demo_shared(3,2) req(1) ni cm go, of "\<lparr>is_granted = False, old_owner_map = 0\<rparr>" 5]
  obtain c' c'' where r: "drc_request_lock_owner (dls_drc demo_dls_world) demo_shared demo_lid req \<lparr>is_granted = False, old_owner_map = 0\<rparr> 3 =
        Some (CT_SUCCESS, lock_reply_of req (lock demo_shared 0), c')" "is_granted (lock_reply_of req (lock demo_shared 0))"
      "drc_claim_lock_owner demo_env c' demo_lid \<lparr>lk_new_id = 3, lk_claim_mode = DRC_LOCK_SHARE, lk_claim_sid = 5\<rparr> 3 False = Some (CT_SUCCESS, c'')"
    using req(2,3) by auto
  have f: "msg_size_ok demo_msg" "msg_cmd demo_msg = MES_CMD_REQUEST_LATCH_S" "msg_src_inst demo_msg = 3" "msg_src_sid demo_msg = 5"
    "msg_lock_id demo_msg = demo_lid" "msg_req_version demo_msg = 3" "msg_req_mode demo_msg = DRC_LOCK_SHARE" by (simp_all add: demo_msg_def)
  have run: "dls_process_lock_msg demo_dls_world (demo_conf 0) (demo_dls_ctx blank_local_map) demo_msg =
      Some (Some (DLS_OK, 3), \<lparr>master_ctx = c'', local_lock_map = blank_local_map\<rparr>)"
    using r f by (simp add: dls_process_lock_msg_def dls_process_ask_master_for_latch_def dls_process_claim_ownership_def req_def[symmetric])
  have ok: "lock_ok {0, 1} (master_ctx (demo_dls_ctx blank_local_map))" using demo_shared_ok by simp
  have q: "requests_lock (msg_cmd demo_msg)" by (simp add: requests_lock_def f)
  from answered_request_holds[OF ok demo_dls_world(5) q run] have "holds c'' demo_lid 3 DRC_LOCK_SHARE" using f by simp
  then show ?thesis using run by (intro exI[of _ "\<lparr>master_ctx = c'', local_lock_map = blank_local_map\<rparr>"]) simp
qed

section \<open>Error messages and timeouts\<close>



end
