(* ===== verification/Spec2Isabelle.thy ===== *)
theory Spec2Isabelle
  imports Drc_Txn_Props Dls_Lock_Props
begin

text \<open>Cantian: the distributed resource catalogue.\<close>

end
